(* ===== verification/Prelude.thy ===== *)
theory Prelude
  imports Main "HOL-Library.Word"
begin

text \<open>
  The prelude of the development: the machine integers of the code (\<open>std::uint8_t\<close> to
  \<open>std::uint64_t\<close>, with \<open>std::size_t\<close> and \<open>std::uintptr_t\<close> 64 bits wide), the
  results of operations that can throw or read outside an object, the bytes of an object and
  the two primitives \<open>std::memcpy\<close> is made of, and the lemmas on lists and words that
  the components share. The collections \<open>code_defs\<close>, \<open>res_simps\<close> and \<open>buf_simps\<close> gather
  the facts the component proofs pass to the simplifier.
\<close>

unbundle bit_operations_syntax

named_theorems res_simps \<open>simplification of results\<close>
named_theorems buf_simps \<open>reads and writes of byte buffers\<close>
named_theorems ring_simps \<open>ring-buffer index arithmetic\<close>

section \<open>Machine integers\<close>

type_synonym u8 = "8 word"
type_synonym u16 = "16 word"
type_synonym u32 = "32 word"
type_synonym u64 = "64 word"
type_synonym size_t = "64 word"

text \<open>\<open>x.size()\<close> of a contiguous object: the number of its elements as a \<open>size_t\<close>.\<close>

abbreviation size_of_list :: "'a list \<Rightarrow> size_t" where
  "size_of_list xs \<equiv> word_of_nat (length xs)"

section \<open>Results\<close>

text \<open>
  What an operation can do instead of returning: throw \<open>std::bad_alloc\<close>, throw
  \<open>std::runtime_error\<close> with its message, or run into undefined behaviour (an access outside
  the bytes of the object it points into, through a null pointer, a conversion of a
  floating-point value that does not fit, a shift by the width of the type or more).
\<close>

datatype cxx_error =
    Bad_Alloc
  | Runtime_Error string
  | Out_Of_Bounds
  | Null_Deref
  | Bad_Conversion
  | Bad_Shift
  | Signed_Overflow
  | Data_Race

type_synonym 'a res = "cxx_error + 'a"

definition res_bind :: "'a res \<Rightarrow> ('a \<Rightarrow> 'b res) \<Rightarrow> 'b res" where
  "res_bind m f = (case m of Inl e \<Rightarrow> Inl e | Inr x \<Rightarrow> f x)"

lemma res_bind_simps [simp, res_simps]:
  "res_bind (Inl e) f = Inl e"
  "res_bind (Inr x) f = f x"
  by (simp_all add: res_bind_def)

lemma res_bind_assoc [res_simps]:
  "res_bind (res_bind m f) g = res_bind m (\<lambda>x. res_bind (f x) g)"
  by (simp add: res_bind_def split: sum.split)

lemma res_bind_Inr_iff [res_simps]:
  "res_bind m f = Inr y \<longleftrightarrow> (\<exists>x. m = Inr x \<and> f x = Inr y)"
  by (simp add: res_bind_def split: sum.split)

lemma res_bind_if:
  "res_bind (if b then m else n) f = (if b then res_bind m f else res_bind n f)"
  by simp

section \<open>Arrays\<close>

text \<open>
  \<open>a[i]\<close> on an array or a \<open>std::array\<close>, which do not check the index: outside the
  array the access is undefined behaviour, which the model reports.
\<close>

definition arr_get :: "'a list \<Rightarrow> size_t \<Rightarrow> 'a res" where
  "arr_get xs i = (if unat i < length xs then Inr (xs ! unat i) else Inl Out_Of_Bounds)"

definition arr_set :: "'a list \<Rightarrow> size_t \<Rightarrow> 'a \<Rightarrow> 'a list res" where
  "arr_set xs i v = (if unat i < length xs then Inr (xs[unat i := v]) else Inl Out_Of_Bounds)"

lemma arr_get_in [simp]: "unat i < length xs \<Longrightarrow> arr_get xs i = Inr (xs ! unat i)"
  by (simp add: arr_get_def)

lemma arr_set_in [simp]: "unat i < length xs \<Longrightarrow> arr_set xs i v = Inr (xs[unat i := v])"
  by (simp add: arr_set_def)

section \<open>Words\<close>

lemma unat_less_2p64: "unat (x :: u64) < 2 ^ 64"
  using unsigned_less [of x] by simp

lemma unat_add_no_wrap:
  fixes x y :: "'a::len word"
  assumes "unat x + unat y < 2 ^ LENGTH('a)"
  shows "unat (x + y) = unat x + unat y"
  using assms by (simp add: unat_word_ariths)

lemma unat_of_nat_64 [simp]: "n < 2 ^ 64 \<Longrightarrow> unat (word_of_nat n :: u64) = n"
  by (simp add: unat_of_nat)

lemma unat_ucast_up:
  assumes "LENGTH('a::len) \<le> LENGTH('b::len)"
  shows "unat (ucast (w :: 'a word) :: 'b word) = unat w"
proof -
  have "unat w < 2 ^ LENGTH('a)" using unsigned_less [of w, where 'a = nat] by simp
  also have "\<dots> \<le> 2 ^ LENGTH('b)" using assms by (rule power_increasing) simp
  finally show ?thesis by (simp add: unsigned_ucast_eq take_bit_nat_eq_self)
qed

lemma word_of_nat_le_64:
  "m < 2 ^ 64 \<Longrightarrow> n < 2 ^ 64 \<Longrightarrow> (word_of_nat m :: u64) \<le> word_of_nat n \<longleftrightarrow> m \<le> n"
  by (simp add: word_le_nat_alt)

lemma word_of_nat_less_64:
  "m < 2 ^ 64 \<Longrightarrow> n < 2 ^ 64 \<Longrightarrow> (word_of_nat m :: u64) < word_of_nat n \<longleftrightarrow> m < n"
  by (simp add: word_less_nat_alt)

section \<open>Power-of-two masks\<close>

text \<open>
  The code reduces an index with \<open>i & (C - 1)\<close> and rounds an address up with
  \<open>(p + (a - 1)) & ~(a - 1)\<close>, for powers of two \<open>C\<close> and \<open>a\<close>. Its test for a power of
  two is \<open>(c & (c - 1)) == 0\<close>.
\<close>

definition pow2_size :: "nat \<Rightarrow> bool" where
  "pow2_size c \<longleftrightarrow> (\<exists>k<64. c = 2 ^ k)"

lemma pow2_sizeE:
  assumes "pow2_size c"
  obtains k where "k < 64" and "c = 2 ^ k"
  using assms by (auto simp: pow2_size_def)

lemma pow2_size_pos: "pow2_size c \<Longrightarrow> 0 < c"
  by (auto simp: pow2_size_def)

lemma pow2_size_less: "pow2_size c \<Longrightarrow> c < 2 ^ 64"
  unfolding pow2_size_def using power_strict_increasing [of _ 64 "2 :: nat"] by fastforce

lemma pow2_size_le: "pow2_size c \<Longrightarrow> c \<le> 2 ^ 63"
  unfolding pow2_size_def using power_increasing [of _ 63 "2 :: nat"] by fastforce

lemma unat_and_mask: "unat (w AND mask k :: u64) = unat w mod 2 ^ k"
proof -
  have "unat (w AND mask k) = unat (take_bit k w)"
    by (simp add: take_bit_eq_mask)
  also have "\<dots> = take_bit k (unat w)"
    by (simp add: unsigned_take_bit_eq)
  finally show ?thesis by (simp add: take_bit_eq_mod)
qed

lemma mask_word_of_pow2: "k < 64 \<Longrightarrow> (word_of_nat (2 ^ k) :: u64) - 1 = mask k"
  by (simp add: mask_eq_exp_minus_1)

lemma and_size_minus_1:
  assumes "pow2_size c"
  shows "unat ((w :: u64) AND (word_of_nat c - 1)) = unat w mod c"
proof -
  from assms obtain k where k: "k < 64" "c = 2 ^ k" by (rule pow2_sizeE)
  show ?thesis unfolding k(2) mask_word_of_pow2 [OF k(1)] by (rule unat_and_mask)
qed

text \<open>The bit test \<open>(c & (c - 1)) == 0\<close> accepts exactly the powers of two.\<close>

lemma nat_and_pred_zero:
  "0 < n \<Longrightarrow> n AND (n - 1) = (0 :: nat) \<Longrightarrow> \<exists>k. n = 2 ^ k"
proof (induction n rule: less_induct)
  case (less n)
  show ?case
  proof (cases "even n")
    case True
    then obtain m where m: "n = 2 * m" by (elim evenE)
    with less.prems have "0 < m" by simp
    then have "n - 1 = 1 + 2 * (m - 1)" using m by simp
    then have "n AND (n - 1) = 2 * (m AND (m - 1))"
      using m by (simp add: and_nat_rec [of "2 * m"])
    with less.prems have "m AND (m - 1) = 0" by simp
    with less.IH [of m] m \<open>0 < m\<close> obtain k where "m = 2 ^ k" by auto
    with m have "n = 2 ^ Suc k" by simp
    then show ?thesis ..
  next
    case False
    then obtain m where m: "n = 1 + 2 * m" by (elim oddE) simp
    then have "n AND (n - 1) = 2 * m" by (simp add: and_nat_rec [of "Suc (2 * m)"])
    with less.prems m have "n = 2 ^ 0" by simp
    then show ?thesis ..
  qed
qed

lemma pow2_bit_test:
  fixes c :: u64
  shows "0 < c \<and> c AND (c - 1) = 0 \<longleftrightarrow> pow2_size (unat c)"
proof
  assume c: "0 < c \<and> c AND (c - 1) = 0"
  then have pred: "unat (c - 1) = unat c - 1"
    by (simp add: unat_minus_one word_neq_0_conv)
  have "unat (c AND (c - 1)) = 0" using c by simp
  then have "unat c AND (unat c - 1) = 0" by (simp add: unsigned_and_eq pred)
  moreover have "0 < unat c" using c by (simp add: unat_gt_0 word_neq_0_conv)
  ultimately obtain k where k: "unat c = 2 ^ k" using nat_and_pred_zero by blast
  moreover from this have "(2 :: nat) ^ k < 2 ^ 64" using unat_less_2p64 [of c] by simp
  then have "k < 64" by (rule power_less_imp_less_exp [rotated]) simp
  ultimately show "pow2_size (unat c)" by (auto simp: pow2_size_def)
next
  assume "pow2_size (unat c)"
  then obtain k where k: "k < 64" "unat c = 2 ^ k" by (rule pow2_sizeE)
  then have "0 < unat c" by simp
  then have c0: "0 < c" by (simp add: word_less_nat_alt)
  have "unat (c AND (c - 1)) = unat c mod unat c"
    using and_size_minus_1 [OF \<open>pow2_size (unat c)\<close>, of c] by simp
  with c0 show "0 < c \<and> c AND (c - 1) = 0" by (simp add: unat_eq_zero)
qed

lemma ring_next:
  assumes "pow2_size c" and "unat w < c"
  shows "unat ((w + 1 :: u64) AND (word_of_nat c - 1)) = Suc (unat w) mod c"
proof -
  have "Suc (unat w) \<le> 2 ^ 63" using assms pow2_size_le [of c] by simp
  then have "unat (w + 1) = Suc (unat w)"
    by (simp add: unat_add_no_wrap)
  then show ?thesis by (simp add: and_size_minus_1 [OF assms(1)])
qed

text \<open>Distances on a ring of \<open>c\<close> slots, from a read index \<open>h\<close> to a write index \<open>t\<close>.\<close>

lemma ring_distance_less: "0 < c \<Longrightarrow> (t + c - h) mod c < (c :: nat)"
  by simp

lemma ring_slot_inj:
  assumes "i < c" and "j < (c :: nat)" and "(h + i) mod c = (h + j) mod c"
  shows "i = j"
proof -
  have "x = y" if "x \<le> y" "y < c" "(h + x) mod c = (h + y) mod c" for x y
  proof -
    have "c dvd y - x"
      using that mod_eq_dvd_iff_nat [of "h + x" "h + y" c] by simp
    with that show ?thesis by (auto dest: dvd_imp_le)
  qed
  with assms show ?thesis by (metis nat_le_linear)
qed

lemma ring_distance_add:
  assumes "h < c" and "t < (c :: nat)"
  shows "(h + (t + c - h) mod c) mod c = t"
proof (cases "h \<le> t")
  case True
  then have "(t + c - h) mod c = t - h" using assms
    by (metis Nat.add_diff_assoc2 less_imp_diff_less mod_add_self2 mod_less)
  with True assms show ?thesis by simp
next
  case False
  then have "(t + c - h) mod c = t + c - h" using assms by simp
  with False assms show ?thesis by simp
qed

lemma ring_distance_zero:
  assumes "h < c" and "t < (c :: nat)"
  shows "(t + c - h) mod c = 0 \<longleftrightarrow> t = h"
  by (metis add_0_right add_diff_cancel_left' assms mod_less mod_self ring_distance_add)

lemma ring_distance_full:
  assumes "h < c" and "t < (c :: nat)"
  shows "Suc t mod c = h \<longleftrightarrow> Suc ((t + c - h) mod c) = c"
proof -
  let ?d = "(t + c - h) mod c"
  have d: "?d < c" using assms by (intro ring_distance_less) simp
  have t: "Suc t mod c = (h + Suc ?d) mod c"
    using ring_distance_add [OF assms] by (metis add_Suc_right mod_Suc_eq)
  show ?thesis
  proof
    assume "Suc t mod c = h"
    then have "(h + Suc ?d) mod c = h" using t by simp
    then have "c dvd Suc ?d"
      using assms(1) by (metis add_diff_cancel_left' mod_eq_dvd_iff_nat le_add1 mod_less)
    then show "Suc ?d = c" using d by (simp add: dvd_imp_le le_antisym Suc_leI)
  next
    assume "Suc ?d = c"
    then show "Suc t mod c = h" using t assms by simp
  qed
qed

lemma ring_distance_push:
  assumes "h < c" and "t < (c :: nat)" and "Suc t mod c \<noteq> h"
  shows "(Suc t mod c + c - h) mod c = Suc ((t + c - h) mod c)"
proof -
  have ne: "Suc ((t + c - h) mod c) \<noteq> c" using ring_distance_full [OF assms(1,2)] assms(3) by blast
  have "(Suc t mod c + (c - h)) mod c = Suc (t + (c - h)) mod c"
    by (simp add: mod_add_left_eq flip: add_Suc)
  then show ?thesis using ne assms by (simp add: mod_Suc)
qed

lemma ring_distance_pop:
  assumes "h < c" and "t < (c :: nat)" and "t \<noteq> h"
  shows "(t + c - Suc h mod c) mod c = (t + c - h) mod c - 1"
proof (cases "Suc h = c")
  case True
  with assms show ?thesis by (auto simp: Suc_diff_le)
next
  case False
  with assms have "Suc h mod c = Suc h" "Suc h \<le> c" by simp_all
  with assms show ?thesis
    by (cases "h < t") (auto simp: le_mod_geq Suc_diff_Suc)
qed

text \<open>Two positions in the same slot are a whole number of laps apart.\<close>

lemma same_slot_le:
  assumes "a mod c = b mod c" and "a < b + (c :: nat)"
  shows "a \<le> b"
proof (rule ccontr)
  assume "\<not> a \<le> b"
  then have "c dvd a - b" using assms(1) mod_eq_dvd_iff_nat [of b a c] by simp
  then have "c \<le> a - b" using \<open>\<not> a \<le> b\<close> by (intro dvd_imp_le) simp_all
  with assms(2) \<open>\<not> a \<le> b\<close> show False by simp
qed

lemma same_slot_lap:
  assumes "a mod c = b mod c" and "a < (b :: nat)"
  shows "a + c \<le> b"
proof -
  have "c dvd b - a" using assms mod_eq_dvd_iff_nat [of a b c] by simp
  then have "c \<le> b - a" using assms(2) by (intro dvd_imp_le) simp_all
  with assms(2) show ?thesis by simp
qed

end
