(* ===== verification/FifoSpec.thy ===== *)
theory FifoSpec
  imports Prelude
begin

text \<open>
  The interface of a bounded FIFO queue: the abstract queue as a list, runs of operations on
  it, and the locale \<open>fifo_queue\<close> of the laws an implementation promises. Lemmas about runs
  and about clients of a queue are proved once from the laws; \<open>SpscQueue\<close> interprets the
  locale on the ring of \<open>include/ll/spsc_queue.hpp\<close>.
\<close>

section \<open>The abstract queue\<close>

datatype 'a queue_op = Push 'a | Pop

datatype 'a queue_out = Pushed bool | Popped "'a option"

fun fifo_step :: "nat \<Rightarrow> 'a list \<Rightarrow> 'a queue_op \<Rightarrow> 'a queue_out \<times> 'a list" where
  "fifo_step n xs (Push x) =
     (if length xs < n then (Pushed True, xs @ [x]) else (Pushed False, xs))"
| "fifo_step n [] Pop = (Popped None, [])"
| "fifo_step n (x # xs) Pop = (Popped (Some x), xs)"

fun fifo_run :: "nat \<Rightarrow> 'a list \<Rightarrow> 'a queue_op list \<Rightarrow> 'a queue_out list \<times> 'a list" where
  "fifo_run n xs [] = ([], xs)"
| "fifo_run n xs (p # ps) =
     (let (out, xs') = fifo_step n xs p; (outs, xs'') = fifo_run n xs' ps in (out # outs, xs''))"

text \<open>The values that entered the queue and those that left it, in order.\<close>

fun accepted :: "'a queue_op list \<Rightarrow> 'a queue_out list \<Rightarrow> 'a list" where
  "accepted (Push x # ps) (Pushed True # outs) = x # accepted ps outs"
| "accepted (p # ps) (out # outs) = accepted ps outs"
| "accepted _ _ = []"

fun popped :: "'a queue_out list \<Rightarrow> 'a list" where
  "popped [] = []"
| "popped (Popped (Some x) # outs) = x # popped outs"
| "popped (_ # outs) = popped outs"

text \<open>Nothing is lost, duplicated or reordered.\<close>

lemma fifo_run_conserves:
  "fifo_run n xs ps = (outs, ys) \<Longrightarrow> xs @ accepted ps outs = popped outs @ ys"
proof (induction n xs ps arbitrary: outs ys rule: fifo_run.induct)
  case (2 n xs p ps)
  obtain out xs' where st: "fifo_step n xs p = (out, xs')" by fastforce
  with 2 obtain outs' where outs: "outs = out # outs'" "fifo_run n xs' ps = (outs', ys)"
    by (auto split: prod.splits)
  with 2 st have IH: "xs' @ accepted ps outs' = popped outs' @ ys" by simp
  show ?case using st IH unfolding outs(1)
    by (cases p; cases xs) (auto split: if_splits)
qed simp

lemma fifo_run_bounded:
  "fifo_run n xs ps = (outs, ys) \<Longrightarrow> length xs \<le> n \<Longrightarrow> length ys \<le> n"
proof (induction n xs ps arbitrary: outs ys rule: fifo_run.induct)
  case (2 n xs p ps)
  obtain out xs' where st: "fifo_step n xs p = (out, xs')" by fastforce
  with 2(2) obtain outs' where "fifo_run n xs' ps = (outs', ys)"
    by (auto split: prod.splits)
  moreover have "length xs' \<le> n" using st 2(3) by (cases p; cases xs) (auto split: if_splits)
  ultimately show ?case using 2(1) st by simp
qed simp

section \<open>Runs of an implementation\<close>

fun run_queue ::
  "('s \<Rightarrow> 'a \<Rightarrow> (bool \<times> 's) res) \<Rightarrow> ('s \<Rightarrow> ('a option \<times> 's) res) \<Rightarrow> 's \<Rightarrow>
    'a queue_op list \<Rightarrow> ('a queue_out list \<times> 's) res" where
  "run_queue push pop s [] = Inr ([], s)"
| "run_queue push pop s (Push x # ps) =
     res_bind (push s x) (\<lambda>(b, s'). res_bind (run_queue push pop s' ps)
       (\<lambda>(outs, s''). Inr (Pushed b # outs, s'')))"
| "run_queue push pop s (Pop # ps) =
     res_bind (pop s) (\<lambda>(r, s'). res_bind (run_queue push pop s' ps)
       (\<lambda>(outs, s''). Inr (Popped r # outs, s'')))"

section \<open>The interface\<close>

locale fifo_queue =
  fixes push :: "'s \<Rightarrow> 'a \<Rightarrow> (bool \<times> 's) res"
    and pop :: "'s \<Rightarrow> ('a option \<times> 's) res"
    and is_empty :: "'s \<Rightarrow> bool"
    and contents :: "'s \<Rightarrow> 'a list"
    and limit :: "'s \<Rightarrow> nat"
    and inv :: "'s \<Rightarrow> bool"
  assumes push_room: "inv s \<Longrightarrow> length (contents s) < limit s \<Longrightarrow>
      \<exists>s'. push s x = Inr (True, s') \<and> inv s' \<and> contents s' = contents s @ [x] \<and> limit s' = limit s"
    and push_full: "inv s \<Longrightarrow> \<not> length (contents s) < limit s \<Longrightarrow> push s x = Inr (False, s)"
    and pop_some: "inv s \<Longrightarrow> contents s = y # ys \<Longrightarrow>
      \<exists>s'. pop s = Inr (Some y, s') \<and> inv s' \<and> contents s' = ys \<and> limit s' = limit s"
    and pop_none: "inv s \<Longrightarrow> contents s = [] \<Longrightarrow> pop s = Inr (None, s)"
    and is_empty_iff: "inv s \<Longrightarrow> is_empty s \<longleftrightarrow> contents s = []"
    and bounded: "inv s \<Longrightarrow> length (contents s) \<le> limit s"
begin

lemma step_cases:
  assumes "inv s"
  obtains (push) x b s' where "p = Push x" "push s x = Inr (b, s')" "inv s'" "limit s' = limit s"
      "fifo_step (limit s) (contents s) p = (Pushed b, contents s')"
  | (pop) r s' where "p = Pop" "pop s = Inr (r, s')" "inv s'" "limit s' = limit s"
      "fifo_step (limit s) (contents s) p = (Popped r, contents s')"
proof (cases p)
  case (Push x)
  then show ?thesis using assms push_room [of s x] push_full [of s x] push
    by (cases "length (contents s) < limit s") fastforce+
next
  case Pop
  then show ?thesis using assms pop_some [of s] pop_none [of s] pop
    by (cases "contents s") fastforce+
qed

lemma run_refines:
  "inv s \<Longrightarrow> \<exists>outs s'. run_queue push pop s ps = Inr (outs, s') \<and> inv s' \<and> limit s' = limit s
     \<and> fifo_run (limit s) (contents s) ps = (outs, contents s')"
proof (induction ps arbitrary: s)
  case Nil
  then show ?case by simp
next
  case (Cons p ps)
  from Cons.prems show ?case
  proof (cases rule: step_cases [of s p])
    case (push x b s')
    with Cons.IH [of s'] show ?thesis by fastforce
  next
    case (pop r s')
    with Cons.IH [of s'] show ?thesis by fastforce
  qed
qed

lemma run_fifo_order:
  assumes "inv s" and "run_queue push pop s ps = Inr (outs, s')"
  shows "contents s @ accepted ps outs = popped outs @ contents s'"
  using run_refines [OF assms(1), of ps] assms(2) fifo_run_conserves by fastforce

lemma push_then_pop:
  assumes "inv s" and "contents s = []" and "0 < limit s"
  shows "\<exists>s1 s2. push s x = Inr (True, s1) \<and> pop s1 = Inr (Some x, s2)
     \<and> inv s2 \<and> contents s2 = [] \<and> limit s2 = limit s"
  using push_room [of s x] assms pop_some [of _ x "[]"] by fastforce

end

section \<open>A client: the benchmark loop\<close>

text \<open>
  The loop of \<open>BM_ll_spsc_push_pop\<close>: push 1, pop, add what came out to an \<open>int\<close>, for each
  iteration of the benchmark. The sum is a signed 32-bit integer, whose overflow is undefined.
\<close>

definition add_int :: "int \<Rightarrow> int \<Rightarrow> int res" where
  "add_int a b = (if - (2 ^ 31) \<le> a + b \<and> a + b < 2 ^ 31 then Inr (a + b) else Inl Signed_Overflow)"

fun bench_push_pop ::
  "('s \<Rightarrow> int \<Rightarrow> (bool \<times> 's) res) \<Rightarrow> ('s \<Rightarrow> (int option \<times> 's) res) \<Rightarrow> nat \<Rightarrow> int \<Rightarrow> 's \<Rightarrow>
    (int \<times> 's) res" where
  "bench_push_pop push pop 0 sink s = Inr (sink, s)"
| "bench_push_pop push pop (Suc n) sink s =
     res_bind (push s 1) (\<lambda>(_, s1).
     res_bind (pop s1) (\<lambda>(v, s2).
     res_bind (case v of None \<Rightarrow> Inr sink | Some x \<Rightarrow> add_int sink x) (\<lambda>sink'.
     bench_push_pop push pop n sink' s2)))"

locale fifo_queue_int =
  fifo_queue push pop is_empty contents limit inv
  for push :: "'s \<Rightarrow> int \<Rightarrow> (bool \<times> 's) res"
    and pop :: "'s \<Rightarrow> (int option \<times> 's) res"
    and is_empty :: "'s \<Rightarrow> bool"
    and contents :: "'s \<Rightarrow> int list"
    and limit :: "'s \<Rightarrow> nat"
    and inv :: "'s \<Rightarrow> bool"
begin

lemma bench_counts:
  "inv s \<Longrightarrow> contents s = [] \<Longrightarrow> 0 < limit s \<Longrightarrow> 0 \<le> sink \<Longrightarrow> sink + int n < 2 ^ 31 \<Longrightarrow>
    \<exists>s'. bench_push_pop push pop n sink s = Inr (sink + int n, s') \<and> inv s' \<and> contents s' = []"
proof (induction n arbitrary: sink s)
  case 0
  then show ?case by simp
next
  case (Suc n)
  from Suc.prems obtain s1 s2 where st: "push s 1 = Inr (True, s1)" "pop s1 = Inr (Some 1, s2)"
    "inv s2" "contents s2 = []" "limit s2 = limit s"
    using push_then_pop [of s 1] by auto
  have "add_int sink 1 = Inr (sink + 1)" using Suc.prems by (simp add: add_int_def)
  moreover obtain s' where "bench_push_pop push pop n (sink + 1) s2 = Inr (sink + 1 + int n, s')"
    "inv s'" "contents s' = []"
    using Suc.IH [of s2 "sink + 1"] Suc.prems st by auto
  ultimately show ?case using st by simp
qed

end

end
