(* ===== verification/SpscQueue.thy ===== *)
theory SpscQueue
  imports FifoSpec
begin

text \<open>
  The bounded single-producer single-consumer ring of \<open>include/ll/spsc_queue.hpp\<close>, used from
  one thread at a time: the state of a \<open>SpscQueue<T, Capacity>\<close> and one definition per
  member function, the ring invariant, the interface of a bounded FIFO queue and its
  interpretation on the ring. Theory \<open>SpscThreads\<close> runs the same members from two threads
  under release/acquire.
\<close>

section \<open>State\<close>

text \<open>
  \<open>Capacity\<close> is the number of slots; \<open>T\<close> is the type parameter \<open>'a\<close>. \<open>T{}\<close> and
  what a move leaves behind in the moved-from object belong to \<open>T\<close>: they are the arguments
  \<open>dflt\<close> and \<open>moved\<close> of the definitions that use them.
\<close>

record 'a spsc =
  q_head :: size_t
  q_tail :: size_t
  q_slots :: "'a list"

definition q_capacity :: "'a spsc \<Rightarrow> size_t" where
  "q_capacity q = size_of_list (q_slots q)"

definition q_mask :: "'a spsc \<Rightarrow> size_t" where
  "q_mask q = q_capacity q - 1"

text \<open>The constraint on the template parameter, \<open>requires(Capacity >= 2 && ...)\<close>.\<close>

definition capacity_ok :: "size_t \<Rightarrow> bool" where
  "capacity_ok c \<longleftrightarrow> 2 \<le> c \<and> c AND (c - 1) = 0"

definition spsc_new :: "nat \<Rightarrow> 'a \<Rightarrow> 'a spsc" where
  "spsc_new c dflt = \<lparr>q_head = 0, q_tail = 0, q_slots = replicate c dflt\<rparr>"

section \<open>Operations\<close>

definition try_push :: "'a spsc \<Rightarrow> 'a \<Rightarrow> (bool \<times> 'a spsc) res" where
  "try_push q item =
     (let t = q_tail q; next = (t + 1) AND q_mask q in
      if next = q_head q then Inr (False, q)
      else res_bind (arr_set (q_slots q) t item)
             (\<lambda>ss. Inr (True, q\<lparr>q_slots := ss, q_tail := next\<rparr>)))"

text \<open>The overload for an rvalue also returns what is left in the caller's \<open>item\<close>.\<close>

definition try_push_move :: "('a \<Rightarrow> 'a) \<Rightarrow> 'a spsc \<Rightarrow> 'a \<Rightarrow> (bool \<times> 'a \<times> 'a spsc) res" where
  "try_push_move moved q item =
     (let t = q_tail q; next = (t + 1) AND q_mask q in
      if next = q_head q then Inr (False, item, q)
      else res_bind (arr_set (q_slots q) t item)
             (\<lambda>ss. Inr (True, moved item, q\<lparr>q_slots := ss, q_tail := next\<rparr>)))"

text \<open>For an argument that is not a variable, such as a literal, only the flag is left to see.\<close>

definition push_literal :: "('a \<Rightarrow> 'a) \<Rightarrow> 'a spsc \<Rightarrow> 'a \<Rightarrow> (bool \<times> 'a spsc) res" where
  "push_literal moved q item = res_bind (try_push_move moved q item) (\<lambda>(ok, _, q'). Inr (ok, q'))"

definition try_pop :: "('a \<Rightarrow> 'a) \<Rightarrow> 'a spsc \<Rightarrow> ('a option \<times> 'a spsc) res" where
  "try_pop moved q =
     (let h = q_head q in
      if h = q_tail q then Inr (None, q)
      else res_bind (arr_get (q_slots q) h)
             (\<lambda>out. res_bind (arr_set (q_slots q) h (moved out))
             (\<lambda>ss. Inr (Some out, q\<lparr>q_slots := ss, q_head := (h + 1) AND q_mask q\<rparr>))))"

definition q_empty :: "'a spsc \<Rightarrow> bool" where
  "q_empty q \<longleftrightarrow> q_head q = q_tail q"

section \<open>The ring invariant and the abstract queue\<close>

definition q_inv :: "'a spsc \<Rightarrow> bool" where
  "q_inv q \<longleftrightarrow> length (q_slots q) < 2 ^ 64 \<and> capacity_ok (q_capacity q)
     \<and> unat (q_head q) < length (q_slots q) \<and> unat (q_tail q) < length (q_slots q)"

definition q_length :: "'a spsc \<Rightarrow> nat" where
  "q_length q = (unat (q_tail q) + length (q_slots q) - unat (q_head q)) mod length (q_slots q)"

definition q_contents :: "'a spsc \<Rightarrow> 'a list" where
  "q_contents q =
     map (\<lambda>i. q_slots q ! ((unat (q_head q) + i) mod length (q_slots q))) [0..<q_length q]"

definition q_limit :: "'a spsc \<Rightarrow> nat" where
  "q_limit q = length (q_slots q) - 1"

lemma capacity_ok_iff: "capacity_ok c \<longleftrightarrow> 2 \<le> unat c \<and> pow2_size (unat c)"
proof -
  have "2 \<le> c \<longleftrightarrow> 2 \<le> unat c" by (simp add: word_le_nat_alt)
  moreover have "2 \<le> unat c \<Longrightarrow> 0 < c" by (simp add: word_less_nat_alt)
  ultimately show ?thesis unfolding capacity_ok_def using pow2_bit_test [of c] by blast
qed

text \<open>What the invariant says of the indices, as numbers.\<close>

lemma q_inv_iff:
  "q_inv q \<longleftrightarrow> 2 \<le> length (q_slots q) \<and> pow2_size (length (q_slots q))
     \<and> unat (q_head q) < length (q_slots q) \<and> unat (q_tail q) < length (q_slots q)"
  unfolding q_inv_def capacity_ok_iff q_capacity_def
  using pow2_size_less [of "length (q_slots q)"] by auto

lemma q_inv_step:
  assumes "q_inv q" and "unat w < length (q_slots q)"
  shows "unat ((w + 1) AND q_mask q) = Suc (unat w) mod length (q_slots q)"
  using ring_next [of "length (q_slots q)" w] assms
  by (simp add: q_inv_iff q_mask_def q_capacity_def)

lemma q_length_less: "q_inv q \<Longrightarrow> q_length q < length (q_slots q)"
  by (auto simp: q_inv_iff q_length_def intro!: mod_less_divisor)

lemma q_length_limit: "q_inv q \<Longrightarrow> q_length q \<le> q_limit q"
  using q_length_less [of q] by (simp add: q_limit_def)

lemma length_q_contents [simp]: "length (q_contents q) = q_length q"
  by (simp add: q_contents_def)

lemma q_full_iff:
  assumes "q_inv q"
  shows "(q_tail q + 1) AND q_mask q = q_head q \<longleftrightarrow> q_length q = q_limit q"
proof -
  from assms have "unat (q_tail q) < length (q_slots q)" by (simp add: q_inv_iff)
  then have "(q_tail q + 1) AND q_mask q = q_head q \<longleftrightarrow>
      Suc (unat (q_tail q)) mod length (q_slots q) = unat (q_head q)"
    using q_inv_step [OF assms] by (metis word_unat_eq_iff)
  also have "\<dots> \<longleftrightarrow> Suc (q_length q) = length (q_slots q)"
    using assms ring_distance_full by (simp add: q_inv_iff q_length_def)
  finally show ?thesis using assms by (auto simp: q_inv_iff q_limit_def)
qed

lemma q_empty_iff:
  assumes "q_inv q"
  shows "q_head q = q_tail q \<longleftrightarrow> q_length q = 0"
  using ring_distance_zero [of "unat (q_head q)" "length (q_slots q)" "unat (q_tail q)"] assms
  by (auto simp: q_inv_iff q_length_def word_unat_eq_iff)

text \<open>A push at the tail appends; a pop at the head, whatever it leaves there, removes.\<close>

lemma q_push_state:
  fixes q v
  defines "q' \<equiv> q\<lparr>q_slots := (q_slots q)[unat (q_tail q) := v],
                   q_tail := (q_tail q + 1) AND q_mask q\<rparr>"
  assumes inv: "q_inv q" and room: "q_length q < q_limit q"
  shows "q_inv q'" and "q_contents q' = q_contents q @ [v]" and "q_limit q' = q_limit q"
proof -
  let ?n = "length (q_slots q)"
  have tl: "unat (q_tail q) < ?n" and hd: "unat (q_head q) < ?n" using inv by (simp_all add: q_inv_iff)
  have tl': "unat (q_tail q') = Suc (unat (q_tail q)) mod ?n"
    using q_inv_step [OF inv tl] by (simp add: q'_def)
  show "q_inv q'" using inv tl' by (auto simp: q_inv_iff q'_def intro!: mod_less_divisor)
  show "q_limit q' = q_limit q" by (simp add: q_limit_def q'_def)
  have "Suc (unat (q_tail q)) mod ?n \<noteq> unat (q_head q)"
    using q_full_iff [OF inv] room q_inv_step [OF inv tl] by (metis less_irrefl word_unat_eq_iff)
  then have len: "q_length q' = Suc (q_length q)"
    using ring_distance_push [OF hd tl] tl' by (simp add: q_length_def q'_def)
  have lt: "q_length q < ?n" using q_length_less [OF inv] .
  have at: "(unat (q_head q) + q_length q) mod ?n = unat (q_tail q)"
    using ring_distance_add [OF hd tl] by (simp add: q_length_def)
  have other: "unat (q_tail q) \<noteq> (unat (q_head q) + i) mod ?n" if "i < q_length q" for i
    using that lt at ring_slot_inj [of i ?n "q_length q" "unat (q_head q)"] by auto
  show "q_contents q' = q_contents q @ [v]"
    unfolding q_contents_def len using at tl other
    by (auto simp: q'_def)
qed

lemma q_pop_state:
  fixes q v
  defines "q' \<equiv> q\<lparr>q_slots := (q_slots q)[unat (q_head q) := v],
                   q_head := (q_head q + 1) AND q_mask q\<rparr>"
  assumes inv: "q_inv q" and some: "0 < q_length q"
  shows "q_inv q'" and "q_contents q = q_slots q ! unat (q_head q) # q_contents q'"
    and "q_limit q' = q_limit q"
proof -
  let ?n = "length (q_slots q)"
  have tl: "unat (q_tail q) < ?n" and hd: "unat (q_head q) < ?n" using inv by (simp_all add: q_inv_iff)
  have hd': "unat (q_head q') = Suc (unat (q_head q)) mod ?n"
    using q_inv_step [OF inv hd] by (simp add: q'_def)
  show "q_inv q'" using inv hd' by (auto simp: q_inv_iff q'_def intro!: mod_less_divisor)
  show "q_limit q' = q_limit q" by (simp add: q_limit_def q'_def)
  have "q_head q \<noteq> q_tail q" using q_empty_iff [OF inv] some by simp
  then have len: "q_length q = Suc (q_length q')"
    using ring_distance_pop [OF hd tl] hd' some
    by (simp add: q_length_def q'_def word_unat_eq_iff)
  have lt: "q_length q < ?n" using q_length_less [OF inv] .
  have other: "unat (q_head q) \<noteq> Suc (unat (q_head q) + i) mod ?n" if "i < q_length q'" for i
    using that lt len hd ring_slot_inj [of "Suc i" ?n 0 "unat (q_head q)"] by fastforce
  have "q_contents q = q_slots q ! unat (q_head q) #
      map (\<lambda>i. q_slots q ! ((unat (q_head q) + Suc i) mod ?n)) [0..<q_length q']"
    unfolding q_contents_def len using hd by (simp add: upt_conv_Cons map_Suc_upt [symmetric] o_def del: upt_Suc)
  also have "map (\<lambda>i. q_slots q ! ((unat (q_head q) + Suc i) mod ?n)) [0..<q_length q'] = q_contents q'"
    unfolding q_contents_def hd' using other
    by (auto simp: q'_def mod_add_left_eq)
  finally show "q_contents q = q_slots q ! unat (q_head q) # q_contents q'" .
qed

section \<open>The ring is a bounded FIFO queue\<close>

lemma try_push_full: "q_inv q \<Longrightarrow> \<not> q_length q < q_limit q \<Longrightarrow> try_push q x = Inr (False, q)"
  using q_full_iff [of q] q_length_limit [of q] by (simp add: try_push_def Let_def)

lemma try_push_room:
  assumes "q_inv q" and "q_length q < q_limit q"
  shows "\<exists>q'. try_push q x = Inr (True, q') \<and> q_inv q' \<and> q_contents q' = q_contents q @ [x]
    \<and> q_limit q' = q_limit q"
  using assms q_full_iff [of q] q_push_state [OF assms, of x]
  by (auto simp: try_push_def Let_def q_inv_iff)

lemma q_contents_Nil_iff [simp]: "q_contents q = [] \<longleftrightarrow> q_length q = 0"
  by (simp add: q_contents_def)

lemma try_pop_none: "q_inv q \<Longrightarrow> q_length q = 0 \<Longrightarrow> try_pop moved q = Inr (None, q)"
  using q_empty_iff [of q] by (simp add: try_pop_def Let_def)

lemma q_empty_contents: "q_inv q \<Longrightarrow> q_empty q \<longleftrightarrow> q_length q = 0"
  by (simp add: q_empty_def q_empty_iff)

lemma try_pop_some:
  assumes "q_inv q" and "q_contents q = y # ys"
  shows "\<exists>q'. try_pop moved q = Inr (Some y, q') \<and> q_inv q' \<and> q_contents q' = ys
    \<and> q_limit q' = q_limit q"
proof -
  have len: "0 < q_length q" using assms(2) by (metis length_greater_0_conv length_q_contents list.simps(3))
  have hd: "unat (q_head q) < length (q_slots q)" using assms(1) by (simp add: q_inv_iff)
  note st = q_pop_state [OF assms(1) len, of "moved (q_slots q ! unat (q_head q))"]
  from len have "q_head q \<noteq> q_tail q" using q_empty_iff [OF assms(1)] by simp
  with st hd assms(2) show ?thesis by (simp add: try_pop_def Let_def)
qed

interpretation spsc: fifo_queue try_push "try_pop moved" q_empty q_contents q_limit q_inv
  for moved :: "'a \<Rightarrow> 'a"
  by unfold_locales
    (simp_all add: try_push_room try_push_full try_pop_some try_pop_none q_empty_contents q_length_limit)

interpretation spsc_int: fifo_queue_int try_push "try_pop moved" q_empty q_contents q_limit q_inv
  for moved :: "int \<Rightarrow> int"
  by unfold_locales

lemma spsc_new_inv:
  assumes "2 \<le> c" and "pow2_size c"
  shows "q_inv (spsc_new c d)" and "q_contents (spsc_new c d) = []" and "q_limit (spsc_new c d) = c - 1"
  using assms by (auto simp: q_inv_iff spsc_new_def q_contents_def q_length_def q_limit_def)

section \<open>Properties\<close>

text \<open>
  C21: any sequence of \<open>try_push\<close> and \<open>try_pop\<close> calls on a fresh ring of \<open>Capacity\<close> slots
  returns what an unbounded list queue limited to \<open>Capacity - 1\<close> elements returns, whatever
  the element type leaves in a moved-from slot; no access leaves the slot array.
\<close>

theorem spsc_refines_fifo:
  assumes "2 \<le> c" and "pow2_size c"
  shows "\<exists>outs q. run_queue try_push (try_pop moved) (spsc_new c d) ps = Inr (outs, q)
    \<and> q_inv q \<and> fifo_run (c - 1) [] ps = (outs, q_contents q)"
  using spsc.run_refines [OF spsc_new_inv(1) [OF assms, of d], of moved ps] spsc_new_inv [OF assms, of d]
  by auto

theorem spsc_refines_fifo_witness:
  "\<exists>outs q. run_queue try_push (try_pop id) (spsc_new 4 (0 :: int)) [Push 7, Pop, Push 8] = Inr (outs, q)
    \<and> q_inv q \<and> fifo_run (4 - 1) [] [Push 7, Pop, Push 8] = (outs, q_contents q)"
proof -
  have "pow2_size 4" by (auto simp: pow2_size_def intro!: exI [of _ 2])
  then show ?thesis using spsc_refines_fifo [of 4 id 0 "[Push 7, Pop, Push 8]"] by simp
qed

text \<open>
  the values popped from a ring and the values still in it are, in order, the values it
  held before and those \<open>try_push\<close> accepted: nothing is lost, duplicated or reordered.
\<close>

theorem spsc_fifo_order:
  assumes "q_inv q" and "run_queue try_push (try_pop moved) q ps = Inr (outs, q')"
  shows "q_contents q @ accepted ps outs = popped outs @ q_contents q'"
  using assms by (rule spsc.run_fifo_order)

theorem spsc_fifo_order_witness:
  "\<exists>outs q'. run_queue try_push (try_pop id) (spsc_new 4 (0 :: int)) [Push 7, Pop, Push 8] = Inr (outs, q')
    \<and> [] @ accepted [Push 7, Pop, Push 8] outs = popped outs @ q_contents q'"
proof -
  have c: "2 \<le> (4 :: nat)" "pow2_size 4" by (auto simp: pow2_size_def intro!: exI [of _ 2])
  note inv = spsc_new_inv [OF c, of "0 :: int"]
  from spsc.run_refines [OF inv(1), of id "[Push 7, Pop, Push 8]"] obtain outs q' where
    r: "run_queue try_push (try_pop id) (spsc_new 4 (0 :: int)) [Push 7, Pop, Push 8] = Inr (outs, q')"
    by blast
  show ?thesis using spsc_fifo_order [OF inv(1) r] r unfolding inv(2) by blast
qed

text \<open>
  The overload of \<open>try_push\<close> for rvalues returns and stores what the copying one does, and
  moves from the caller's object exactly when it accepts: a refused object keeps its value and
  can be offered again.
\<close>

theorem spsc_push_move:
  assumes "q_inv q"
  shows "\<exists>ok q'. try_push q item = Inr (ok, q') \<and> q_inv q'
    \<and> try_push_move moved q item = Inr (ok, if ok then moved item else item, q')
    \<and> ok = (q_length q < length (q_slots q) - 1)"
proof (cases "q_length q < q_limit q")
  case True
  from try_push_room [OF assms True, of item] obtain q' where
    q': "try_push q item = Inr (True, q')" "q_inv q'" by blast
  moreover from q'(1) have "try_push_move moved q item = Inr (True, moved item, q')"
    by (auto simp: try_push_def try_push_move_def Let_def res_bind_Inr_iff split: if_splits)
  ultimately show ?thesis using True by (auto simp: q_limit_def)
next
  case False
  then have "try_push q item = Inr (False, q)" by (rule try_push_full [OF assms])
  moreover from this have "try_push_move moved q item = Inr (False, item, q)"
    by (auto simp: try_push_def try_push_move_def Let_def res_bind_Inr_iff split: if_splits)
  ultimately show ?thesis using False assms by (auto simp: q_limit_def)
qed

theorem spsc_push_move_witness:
  "\<exists>q'. try_push_move (\<lambda>_. ''moved'') \<lparr>q_head = 1, q_tail = 0, q_slots = [''a'', ''b'']\<rparr> ''c''
     = Inr (False, ''c'', q')"
proof -
  let ?q = "\<lparr>q_head = 1, q_tail = 0, q_slots = [''a'', ''b'']\<rparr>"
  have "pow2_size 2" by (auto simp: pow2_size_def intro!: exI [of _ 1])
  then have inv: "q_inv ?q" by (simp add: q_inv_iff flip: numeral_2_eq_2)
  have "q_length ?q = 1" by (simp add: q_length_def)
  with spsc_push_move [OF inv, of "''c''" "\<lambda>_. ''moved''"] show ?thesis by auto
qed

text \<open>
  The benchmark loop, which pushes the literal 1, on an empty ring never finds it full or empty: after \<open>n\<close> iterations the
  sum is exactly \<open>n\<close> more, as long as it fits in an \<open>int\<close>, and the ring is empty again.
\<close>

lemma push_literal_eq: "push_literal moved = try_push"
  by (intro ext)
    (simp add: push_literal_def try_push_def try_push_move_def Let_def res_bind_assoc)

theorem spsc_bench_counts:
  assumes "2 \<le> c" and "pow2_size c" and "int n < 2 ^ 31"
  shows "\<exists>q. bench_push_pop (push_literal moved) (try_pop moved) n 0 (spsc_new c d) = Inr (int n, q)
    \<and> q_inv q \<and> q_empty q"
  using spsc_int.bench_counts [OF spsc_new_inv(1,2) [OF assms(1,2), of d], of 0 n moved] assms
  by (auto simp: push_literal_eq spsc_new_inv(3) q_empty_contents)

theorem spsc_bench_counts_witness:
  "\<exists>q. bench_push_pop (push_literal id) (try_pop id) 5 0 (spsc_new 1024 0) = Inr (5, q) \<and> q_inv q \<and> q_empty q"
proof -
  have "pow2_size 1024" by (auto simp: pow2_size_def intro!: exI [of _ 10])
  then show ?thesis using spsc_bench_counts [of 1024 5 id 0] by simp
qed

end
