(* ===== verification/RelAcq.thy ===== *)
theory RelAcq
  imports Prelude
begin

text \<open>
  The part of the C++ memory model the repository's concurrent code relies on: atomic objects
  read and written with \<open>memory_order_relaxed\<close>, \<open>acquire\<close> and \<open>release\<close>, and ordinary
  objects whose unsynchronised accesses from two threads are data races. It is the operational
  form of release/acquire: an atomic object has a history of stores (its modification order);
  a load may return any store its thread has not yet been told is overwritten, so values may be
  stale; a release store carries what its thread knows, and an acquire load that reads it
  learns that. What a thread knows is, for each atomic object, the oldest store it may still
  read, and, for each thread, how many of that thread's ordinary accesses happen before now.

  A store is appended to the history, which is the modification order as long as each atomic
  object is written by one thread only; both programs modelled on this machine
  (\<open>SpscThreads\<close>, \<open>MemoryOrder\<close>) have two threads and one writer per atomic object.
  Read-modify-write operations, fences and \<open>seq_cst\<close> do not occur in them.
\<close>

section \<open>Machine\<close>

datatype thread = Producer | Consumer

datatype memory_order = Relaxed | Acquire | Release

text \<open>A store: its value, and what it tells a thread that acquires it.\<close>

datatype ('l, 'v) message =
  Message (msg_val: 'v) (msg_seen: "'l \<Rightarrow> nat") (msg_clock: "thread \<Rightarrow> nat")

record ('l, 'v, 'x, 'a) machine =
  hist :: "'l \<Rightarrow> ('l, 'v) message list"
  seen :: "thread \<Rightarrow> 'l \<Rightarrow> nat"
  clock :: "thread \<Rightarrow> thread \<Rightarrow> nat"
  cells :: "'x \<Rightarrow> 'a"
  writes :: "'x \<Rightarrow> thread \<Rightarrow> nat"
  reads :: "'x \<Rightarrow> thread \<Rightarrow> nat"

text \<open>Initialised objects, before the threads start: the initialisation happens before everything.\<close>

definition machine_init :: "('l \<Rightarrow> 'v) \<Rightarrow> ('x \<Rightarrow> 'a) \<Rightarrow> ('l, 'v, 'x, 'a) machine" where
  "machine_init v0 a0 =
     \<lparr>hist = (\<lambda>l. [Message (v0 l) (\<lambda>_. 0) (\<lambda>_. 0)]), seen = (\<lambda>_ _. 0), clock = (\<lambda>_ _. 0),
      cells = a0, writes = (\<lambda>_ _. 0), reads = (\<lambda>_ _. 0)\<rparr>"

section \<open>Atomic accesses\<close>

definition can_read :: "('l, 'v, 'x, 'a) machine \<Rightarrow> thread \<Rightarrow> 'l \<Rightarrow> nat \<Rightarrow> bool" where
  "can_read m t l i \<longleftrightarrow> seen m t l \<le> i \<and> i < length (hist m l)"

definition atomic_load ::
  "memory_order \<Rightarrow> thread \<Rightarrow> 'l \<Rightarrow> nat \<Rightarrow> ('l, 'v, 'x, 'a) machine \<Rightarrow> 'v \<times> ('l, 'v, 'x, 'a) machine" where
  "atomic_load mo t l i m =
     (let msg = hist m l ! i; own = (seen m t)(l := i) in
      (msg_val msg,
       if mo = Acquire
       then m\<lparr>seen := (seen m)(t := \<lambda>l'. max (own l') (msg_seen msg l')),
              clock := (clock m)(t := \<lambda>t'. max (clock m t t') (msg_clock msg t'))\<rparr>
       else m\<lparr>seen := (seen m)(t := own)\<rparr>))"

definition atomic_store ::
  "memory_order \<Rightarrow> thread \<Rightarrow> 'l \<Rightarrow> 'v \<Rightarrow> ('l, 'v, 'x, 'a) machine \<Rightarrow> ('l, 'v, 'x, 'a) machine" where
  "atomic_store mo t l v m =
     (let own = (seen m t)(l := length (hist m l));
          msg = (if mo = Release then Message v own (clock m t)
                 else Message v ((\<lambda>_. 0)(l := length (hist m l))) (\<lambda>_. 0))
      in m\<lparr>hist := (hist m)(l := hist m l @ [msg]), seen := (seen m)(t := own)\<rparr>)"

section \<open>Ordinary accesses\<close>

text \<open>
  An access is free of races if every conflicting access of the other threads happens before
  it, that is, if its thread knows about them. Each access counts on its thread's own clock.
\<close>

definition knows :: "('l, 'v, 'x, 'a) machine \<Rightarrow> thread \<Rightarrow> (thread \<Rightarrow> nat) \<Rightarrow> bool" where
  "knows m t e \<longleftrightarrow> e Producer \<le> clock m t Producer \<and> e Consumer \<le> clock m t Consumer"

definition count_access :: "thread \<Rightarrow> ('l, 'v, 'x, 'a) machine \<Rightarrow> ('l, 'v, 'x, 'a) machine" where
  "count_access t m = m\<lparr>clock := (clock m)(t := (clock m t)(t := Suc (clock m t t)))\<rparr>"

definition na_read ::
  "thread \<Rightarrow> 'x \<Rightarrow> ('l, 'v, 'x, 'a) machine \<Rightarrow> ('a \<times> ('l, 'v, 'x, 'a) machine) res" where
  "na_read t x m =
     (if knows m t (writes m x)
      then let m' = count_access t m in
        Inr (cells m x, m'\<lparr>reads := (reads m)(x := (reads m x)(t := clock m' t t))\<rparr>)
      else Inl Data_Race)"

definition na_write ::
  "thread \<Rightarrow> 'x \<Rightarrow> 'a \<Rightarrow> ('l, 'v, 'x, 'a) machine \<Rightarrow> ('l, 'v, 'x, 'a) machine res" where
  "na_write t x v m =
     (if knows m t (writes m x) \<and> knows m t (reads m x)
      then let m' = count_access t m in
        Inr (m'\<lparr>cells := (cells m)(x := v), writes := (writes m)(x := (writes m x)(t := clock m' t t))\<rparr>)
      else Inl Data_Race)"

text \<open>Moving out of an object reads it and leaves it in a moved-from state.\<close>

definition na_move ::
  "('a \<Rightarrow> 'a) \<Rightarrow> thread \<Rightarrow> 'x \<Rightarrow> ('l, 'v, 'x, 'a) machine \<Rightarrow> ('a \<times> ('l, 'v, 'x, 'a) machine) res" where
  "na_move moved t x m =
     res_bind (na_write t x (moved (cells m x)) m) (\<lambda>m'. Inr (cells m x, m'))"

named_theorems ra_defs \<open>definitions of the release/acquire machine\<close>

lemmas [ra_defs] =
  can_read_def atomic_load_def atomic_store_def count_access_def na_read_def na_write_def na_move_def
  knows_def Let_def

end
