(* ===== verification/SpscThreads.thy ===== *)
theory SpscThreads
  imports SpscQueue RelAcq "HOL-Library.Sublist"
begin

text \<open>
  The ring of \<open>include/ll/spsc_queue.hpp\<close> with its two threads: one producer thread that calls
  \<open>try_push\<close> and one consumer thread that calls \<open>try_pop\<close>, each split into its atomic and
  ordinary accesses with the memory orders of the code, on the release/acquire machine of
  \<open>RelAcq\<close>. The steps of the threads interleave in any order and every load may return any
  store it is allowed to. A step that would be a data race or leave the slot array is
  undefined (\<open>Inl\<close>); the invariant shows that no reachable state has such a step.
\<close>

section \<open>State\<close>

datatype spsc_index = Head | Tail

text \<open>
  Where each thread is in its member function, with its local variables: \<open>t\<close> and \<open>next\<close> of
  \<open>try_push\<close>, \<open>h\<close> and \<open>out\<close> of \<open>try_pop\<close>.
\<close>

datatype 'a push_pc =
    Push_Idle
  | Push_Load_Head 'a size_t
  | Push_Write 'a size_t size_t
  | Push_Publish 'a size_t

datatype 'a pop_pc =
    Pop_Idle
  | Pop_Load_Tail size_t
  | Pop_Take size_t
  | Pop_Publish size_t 'a

text \<open>
  \<open>pushed\<close> lists the items of the calls of \<open>try_push\<close> that returned true, \<open>got\<close> the values
  \<open>try_pop\<close> returned: they record the history and do not influence the steps. The ordinary
  objects of the machine are the slots, numbered by their index.
\<close>

record 'a spsc_threads =
  mem :: "(spsc_index, size_t, nat, 'a) machine"
  push_pc :: "'a push_pc"
  pop_pc :: "'a pop_pc"
  pushed :: "'a list"
  got :: "'a list"

definition spsc_threads_init :: "'a \<Rightarrow> 'a spsc_threads" where
  "spsc_threads_init dflt =
     \<lparr>mem = machine_init (\<lambda>_. 0) (\<lambda>_. dflt), push_pc = Push_Idle, pop_pc = Pop_Idle,
      pushed = [], got = []\<rparr>"

section \<open>Steps\<close>

text \<open>
  One access of the producer. \<open>c\<close> is \<open>Capacity\<close>, \<open>item\<close> the argument of a call that
  starts, \<open>i\<close> the store that a load returns.
\<close>

definition push_step :: "nat \<Rightarrow> 'a \<Rightarrow> nat \<Rightarrow> 'a spsc_threads \<Rightarrow> 'a spsc_threads res" where
  "push_step c item i s = (case push_pc s of
     Push_Idle \<Rightarrow>
       (let (t, m) = atomic_load Relaxed Producer Tail i (mem s) in
        Inr (s\<lparr>mem := m, push_pc := Push_Load_Head item t\<rparr>))
   | Push_Load_Head x t \<Rightarrow>
       (let next = (t + 1) AND (word_of_nat c - 1);
            (h, m) = atomic_load Acquire Producer Head i (mem s) in
        Inr (s\<lparr>mem := m, push_pc := (if next = h then Push_Idle else Push_Write x t next)\<rparr>))
   | Push_Write x t next \<Rightarrow>
       if unat t < c
       then res_bind (na_write Producer (unat t) x (mem s))
              (\<lambda>m. Inr (s\<lparr>mem := m, push_pc := Push_Publish x next\<rparr>))
       else Inl Out_Of_Bounds
   | Push_Publish x next \<Rightarrow>
       Inr (s\<lparr>mem := atomic_store Release Producer Tail next (mem s), push_pc := Push_Idle,
             pushed := pushed s @ [x]\<rparr>))"

definition pop_step :: "nat \<Rightarrow> ('a \<Rightarrow> 'a) \<Rightarrow> nat \<Rightarrow> 'a spsc_threads \<Rightarrow> 'a spsc_threads res" where
  "pop_step c moved i s = (case pop_pc s of
     Pop_Idle \<Rightarrow>
       (let (h, m) = atomic_load Relaxed Consumer Head i (mem s) in
        Inr (s\<lparr>mem := m, pop_pc := Pop_Load_Tail h\<rparr>))
   | Pop_Load_Tail h \<Rightarrow>
       (let (t, m) = atomic_load Acquire Consumer Tail i (mem s) in
        Inr (s\<lparr>mem := m, pop_pc := (if h = t then Pop_Idle else Pop_Take h)\<rparr>))
   | Pop_Take h \<Rightarrow>
       if unat h < c
       then res_bind (na_move moved Consumer (unat h) (mem s))
              (\<lambda>(out, m). Inr (s\<lparr>mem := m, pop_pc := Pop_Publish h out\<rparr>))
       else Inl Out_Of_Bounds
   | Pop_Publish h out \<Rightarrow>
       Inr (s\<lparr>mem := atomic_store Release Consumer Head ((h + 1) AND (word_of_nat c - 1)) (mem s),
             pop_pc := Pop_Idle, got := got s @ [out]\<rparr>))"

text \<open>The stores a step may choose from.\<close>

definition push_choice :: "nat \<Rightarrow> 'a spsc_threads \<Rightarrow> bool" where
  "push_choice i s = (case push_pc s of
     Push_Idle \<Rightarrow> can_read (mem s) Producer Tail i
   | Push_Load_Head _ _ \<Rightarrow> can_read (mem s) Producer Head i
   | _ \<Rightarrow> True)"

definition pop_choice :: "nat \<Rightarrow> 'a spsc_threads \<Rightarrow> bool" where
  "pop_choice i s = (case pop_pc s of
     Pop_Idle \<Rightarrow> can_read (mem s) Consumer Head i
   | Pop_Load_Tail _ \<Rightarrow> can_read (mem s) Consumer Tail i
   | _ \<Rightarrow> True)"

inductive spsc_reach :: "nat \<Rightarrow> ('a \<Rightarrow> 'a) \<Rightarrow> 'a \<Rightarrow> 'a spsc_threads \<Rightarrow> bool"
  for c moved dflt where
  start: "spsc_reach c moved dflt (spsc_threads_init dflt)"
| push: "spsc_reach c moved dflt s \<Longrightarrow> push_choice i s \<Longrightarrow> push_step c item i s = Inr s' \<Longrightarrow>
    spsc_reach c moved dflt s'"
| pop: "spsc_reach c moved dflt s \<Longrightarrow> pop_choice i s \<Longrightarrow> pop_step c moved i s = Inr s' \<Longrightarrow>
    spsc_reach c moved dflt s'"

section \<open>Invariant\<close>

text \<open>
  Accesses to the slots so far: a thread that has accessed its slot and not yet published it is
  one access ahead of its stores.
\<close>

definition written :: "'a spsc_threads \<Rightarrow> 'a list" where
  "written s = pushed s @ (case push_pc s of Push_Publish x _ \<Rightarrow> [x] | _ \<Rightarrow> [])"

definition taken :: "'a spsc_threads \<Rightarrow> 'a list" where
  "taken s = got s @ (case pop_pc s of Pop_Publish _ out \<Rightarrow> [out] | _ \<Rightarrow> [])"

definition ring_index :: "nat \<Rightarrow> nat \<Rightarrow> size_t" where
  "ring_index c k = word_of_nat (k mod c)"

text \<open>
  The \<open>k\<close>-th store to an index, counting from 0, is \<open>k mod Capacity\<close>. It carries the
  knowledge of at least \<open>k\<close> slot accesses of the thread \<open>t\<close> that stored it, and no message
  knows more than has happened.
\<close>

definition msg_ok ::
  "nat \<Rightarrow> 'a spsc_threads \<Rightarrow> spsc_index \<Rightarrow> thread \<Rightarrow> nat \<Rightarrow> (spsc_index, size_t) message \<Rightarrow> bool" where
  "msg_ok c s l t k msg \<longleftrightarrow>
     msg_val msg = ring_index c k \<and> msg_seen msg l \<le> k \<and> k \<le> msg_clock msg t
     \<and> msg_seen msg Head \<le> length (got s) \<and> msg_seen msg Tail \<le> length (pushed s)
     \<and> msg_clock msg Consumer \<le> length (taken s) \<and> msg_clock msg Producer \<le> length (written s)"

definition hist_ok :: "nat \<Rightarrow> 'a spsc_threads \<Rightarrow> spsc_index \<Rightarrow> thread \<Rightarrow> nat \<Rightarrow> bool" where
  "hist_ok c s l t n \<longleftrightarrow> length (hist (mem s) l) = Suc n
     \<and> (\<forall>k\<le>n. msg_ok c s l t k (hist (mem s) l ! k))"

text \<open>
  The local variables of a thread that has stored \<open>n\<close> indices and knows the first \<open>k\<close> stores
  of the other.
\<close>

fun push_local_ok :: "nat \<Rightarrow> nat \<Rightarrow> nat \<Rightarrow> 'a push_pc \<Rightarrow> bool" where
  "push_local_ok c n k Push_Idle \<longleftrightarrow> True"
| "push_local_ok c n k (Push_Load_Head x t) \<longleftrightarrow> t = ring_index c n"
| "push_local_ok c n k (Push_Write x t next) \<longleftrightarrow>
     t = ring_index c n \<and> next = ring_index c (Suc n) \<and> Suc n < k + c"
| "push_local_ok c n k (Push_Publish x next) \<longleftrightarrow> next = ring_index c (Suc n) \<and> Suc n < k + c"

fun pop_local_ok :: "nat \<Rightarrow> nat \<Rightarrow> nat \<Rightarrow> 'a pop_pc \<Rightarrow> bool" where
  "pop_local_ok c n k Pop_Idle \<longleftrightarrow> True"
| "pop_local_ok c n k (Pop_Load_Tail h) \<longleftrightarrow> h = ring_index c n"
| "pop_local_ok c n k (Pop_Take h) \<longleftrightarrow> h = ring_index c n \<and> n < k"
| "pop_local_ok c n k (Pop_Publish h out) \<longleftrightarrow> h = ring_index c n \<and> n < k"

text \<open>What each thread knows.\<close>

definition producer_ok :: "nat \<Rightarrow> 'a spsc_threads \<Rightarrow> bool" where
  "producer_ok c s \<longleftrightarrow> (let m = mem s; n = length (pushed s); k = seen m Producer Head in
     seen m Producer Tail = n \<and> k \<le> length (got s) \<and> n < k + c
     \<and> clock m Producer Producer = length (written s)
     \<and> k \<le> clock m Producer Consumer \<and> clock m Producer Consumer \<le> length (taken s)
     \<and> push_local_ok c n k (push_pc s))"

definition consumer_ok :: "nat \<Rightarrow> 'a spsc_threads \<Rightarrow> bool" where
  "consumer_ok c s \<longleftrightarrow> (let m = mem s; n = length (got s); k = seen m Consumer Tail in
     seen m Consumer Head = n \<and> n \<le> k \<and> k \<le> length (pushed s)
     \<and> clock m Consumer Consumer = length (taken s)
     \<and> k \<le> clock m Consumer Producer \<and> clock m Consumer Producer \<le> length (written s)
     \<and> pop_local_ok c n k (pop_pc s))"

text \<open>The slots hold what was written and not yet taken; the latest access of each thread to a slot.\<close>

definition slots_ok :: "nat \<Rightarrow> 'a spsc_threads \<Rightarrow> bool" where
  "slots_ok c s \<longleftrightarrow> prefix (taken s) (written s)
     \<and> (\<forall>k. length (taken s) \<le> k \<and> k < length (written s) \<longrightarrow> cells (mem s) (k mod c) = written s ! k)"

definition epoch_ok :: "nat \<Rightarrow> nat \<Rightarrow> nat \<Rightarrow> nat \<Rightarrow> bool" where
  "epoch_ok c x n e \<longleftrightarrow> (e = 0 \<or> (e \<le> n \<and> (e - 1) mod c = x))"

definition epochs_ok :: "nat \<Rightarrow> 'a spsc_threads \<Rightarrow> bool" where
  "epochs_ok c s \<longleftrightarrow> (\<forall>x. epoch_ok c x (length (written s)) (writes (mem s) x Producer)
     \<and> epoch_ok c x (length (taken s)) (writes (mem s) x Consumer)
     \<and> reads (mem s) x Producer = 0 \<and> reads (mem s) x Consumer = 0)"

definition spsc_inv :: "nat \<Rightarrow> 'a spsc_threads \<Rightarrow> bool" where
  "spsc_inv c s \<longleftrightarrow> hist_ok c s Tail Producer (length (pushed s)) \<and> hist_ok c s Head Consumer (length (got s))
     \<and> producer_ok c s \<and> consumer_ok c s \<and> slots_ok c s \<and> epochs_ok c s"

lemma spsc_inv_init: "0 < c \<Longrightarrow> spsc_inv c (spsc_threads_init d)"
  by (simp add: spsc_inv_def hist_ok_def msg_ok_def producer_ok_def consumer_ok_def slots_ok_def
      epochs_ok_def epoch_ok_def spsc_threads_init_def machine_init_def written_def taken_def
      ring_index_def)

text \<open>Index arithmetic on the stored values.\<close>

lemma ring_index_inj:
  assumes "pow2_size c"
  shows "ring_index c j = ring_index c k \<longleftrightarrow> j mod c = k mod c"
proof -
  have "i mod c < 2 ^ 64" for i
    using pow2_size_less [OF assms] pow2_size_pos [OF assms] mod_less_divisor [of c i] by linarith
  then show ?thesis unfolding ring_index_def by (metis unat_of_nat_64)
qed

lemma unat_ring_index [simp]: "pow2_size c \<Longrightarrow> unat (ring_index c k) = k mod c"
  using pow2_size_less [of c] pow2_size_pos [of c] mod_less_divisor [of c k]
  unfolding ring_index_def by (intro unat_of_nat_64) linarith

lemma ring_index_next:
  assumes "pow2_size c"
  shows "(ring_index c k + 1) AND (word_of_nat c - 1) = ring_index c (Suc k)"
proof -
  have "unat ((ring_index c k + 1) AND (word_of_nat c - 1)) = Suc (k mod c) mod c"
    using ring_next [OF assms, of "ring_index c k"] assms pow2_size_pos [OF assms] by simp
  then have "unat ((ring_index c k + 1) AND (word_of_nat c - 1)) = unat (ring_index c (Suc k))"
    using assms by (simp add: mod_Suc_eq)
  then show ?thesis by (simp only: word_unat_eq_iff)
qed

section \<open>Every step is defined and keeps the invariant\<close>

lemmas inv_parts =
  spsc_inv_def hist_ok_def producer_ok_def consumer_ok_def slots_ok_def epochs_ok_def Let_def

text \<open>A load changes what its own thread knows, and nothing else.\<close>

fun push_publishing :: "'a push_pc \<Rightarrow> bool" where
  "push_publishing (Push_Publish _ _) \<longleftrightarrow> True"
| "push_publishing _ \<longleftrightarrow> False"

fun pop_publishing :: "'a pop_pc \<Rightarrow> bool" where
  "pop_publishing (Pop_Publish _ _) \<longleftrightarrow> True"
| "pop_publishing _ \<longleftrightarrow> False"

lemma written_idle: "\<not> push_publishing (push_pc s) \<Longrightarrow> written s = pushed s"
  by (cases "push_pc s") (simp_all add: written_def)

lemma taken_idle: "\<not> pop_publishing (pop_pc s) \<Longrightarrow> taken s = got s"
  by (cases "pop_pc s") (simp_all add: taken_def)

lemma push_load_inv:
  fixes s pc and m :: "(spsc_index, size_t, nat, 'a) machine"
  defines "s' \<equiv> s\<lparr>mem := m, push_pc := pc\<rparr>"
  assumes inv: "spsc_inv c s" and idle: "\<not> push_publishing (push_pc s)" "\<not> push_publishing pc"
    and same: "hist m = hist (mem s)" "cells m = cells (mem s)" "writes m = writes (mem s)"
      "reads m = reads (mem s)" "seen m Consumer = seen (mem s) Consumer"
      "clock m Consumer = clock (mem s) Consumer"
    and own: "seen m Producer Tail = length (pushed s)" "clock m Producer Producer = length (pushed s)"
    and other: "seen m Producer Head \<le> length (got s)" "length (pushed s) < seen m Producer Head + c"
      "seen m Producer Head \<le> clock m Producer Consumer" "clock m Producer Consumer \<le> length (taken s)"
    and loc: "push_local_ok c (length (pushed s)) (seen m Producer Head) pc"
  shows "spsc_inv c s'"
proof -
  have w: "written s = pushed s" "written s' = pushed s" "taken s' = taken s"
    using idle by (simp_all add: written_idle s'_def taken_def)
  show ?thesis using inv same own other loc
    unfolding inv_parts msg_ok_def w by (simp add: s'_def)
qed

lemma pop_load_inv:
  fixes s pc and m :: "(spsc_index, size_t, nat, 'a) machine"
  defines "s' \<equiv> s\<lparr>mem := m, pop_pc := pc\<rparr>"
  assumes inv: "spsc_inv c s" and idle: "\<not> pop_publishing (pop_pc s)" "\<not> pop_publishing pc"
    and same: "hist m = hist (mem s)" "cells m = cells (mem s)" "writes m = writes (mem s)"
      "reads m = reads (mem s)" "seen m Producer = seen (mem s) Producer"
      "clock m Producer = clock (mem s) Producer"
    and own: "seen m Consumer Head = length (got s)" "clock m Consumer Consumer = length (got s)"
    and other: "length (got s) \<le> seen m Consumer Tail" "seen m Consumer Tail \<le> length (pushed s)"
      "seen m Consumer Tail \<le> clock m Consumer Producer" "clock m Consumer Producer \<le> length (written s)"
    and loc: "pop_local_ok c (length (got s)) (seen m Consumer Tail) pc"
  shows "spsc_inv c s'"
proof -
  have w: "taken s = got s" "taken s' = got s" "written s' = written s"
    using idle by (simp_all add: taken_idle s'_def written_def)
  show ?thesis using inv same own other loc
    unfolding inv_parts msg_ok_def w by (simp add: s'_def)
qed

lemma push_idle_inv:
  assumes inv: "spsc_inv c s" and pc: "push_pc s = Push_Idle" and ch: "push_choice i s"
  shows "\<exists>s'. push_step c item i s = Inr s' \<and> spsc_inv c s'"
proof -
  let ?m = "snd (atomic_load Relaxed Producer Tail i (mem s))"
  have i: "i = length (pushed s)"
    using assms by (simp add: inv_parts push_choice_def can_read_def)
  have "msg_val (hist (mem s) Tail ! i) = ring_index c i"
    using inv i by (simp add: inv_parts msg_ok_def)
  then have st: "push_step c item i s =
      Inr (s\<lparr>mem := ?m, push_pc := Push_Load_Head item (ring_index c i)\<rparr>)"
    using pc by (simp add: push_step_def atomic_load_def Let_def)
  have "spsc_inv c (s\<lparr>mem := ?m, push_pc := Push_Load_Head item (ring_index c i)\<rparr>)"
    by (rule push_load_inv [OF inv])
      (use inv pc i in \<open>simp_all add: inv_parts atomic_load_def written_def\<close>)
  with st show ?thesis by blast
qed

lemma push_load_head_inv:
  assumes c: "pow2_size c" and inv: "spsc_inv c s" and pc: "push_pc s = Push_Load_Head x t"
    and ch: "push_choice i s"
  shows "\<exists>s'. push_step c item i s = Inr s' \<and> spsc_inv c s'"
proof -
  let ?m = "snd (atomic_load Acquire Producer Head i (mem s))"
  define n where "n = length (pushed s)"
  define pc' where "pc' = (if ring_index c (Suc n) = ring_index c i then Push_Idle
    else Push_Write x t (ring_index c (Suc n)))"
  have w: "written s = pushed s" using pc by (simp add: written_def)
  have i: "seen (mem s) Producer Head \<le> i" "i \<le> length (got s)"
    using inv pc ch by (simp_all add: inv_parts push_choice_def can_read_def)
  have msg: "msg_ok c s Head Consumer i (hist (mem s) Head ! i)"
    using inv i by (simp add: inv_parts)
  have t: "t = ring_index c n" and room: "n < i + c" and own: "clock (mem s) Producer Producer = n"
    "seen (mem s) Producer Tail = n" "clock (mem s) Producer Consumer \<le> length (taken s)"
    using inv pc i w by (simp_all add: inv_parts n_def)
  have more: "Suc n < i + c" if "ring_index c (Suc n) \<noteq> ring_index c i"
  proof (rule ccontr)
    assume "\<not> Suc n < i + c"
    with room have "Suc n = i + c" by simp
    with that show False using ring_index_inj [OF c] by (metis mod_add_self2)
  qed
  have st: "push_step c item i s = Inr (s\<lparr>mem := ?m, push_pc := pc'\<rparr>)"
    using pc msg t
    by (simp add: push_step_def atomic_load_def Let_def msg_ok_def pc'_def ring_index_next [OF c])
  have "spsc_inv c (s\<lparr>mem := ?m, push_pc := pc'\<rparr>)"
    by (rule push_load_inv [OF inv])
      (use i msg t room own more pc in
        \<open>auto simp: atomic_load_def Let_def msg_ok_def pc'_def n_def [symmetric] w\<close>)
  with st show ?thesis by blast
qed

lemma got_le_taken: "length (got s) \<le> length (taken s)"
  by (simp add: taken_def)

lemma pushed_le_written: "length (pushed s) \<le> length (written s)"
  by (simp add: written_def)

lemma taken_le_pushed: "spsc_inv c s \<Longrightarrow> length (taken s) \<le> length (pushed s)"
  by (cases "pop_pc s") (simp_all add: inv_parts taken_def)

lemma got_prefix_pushed:
  assumes inv: "spsc_inv c s"
  shows "prefix (got s) (pushed s)"
proof -
  have "prefix (taken s) (written s)" using inv by (simp add: inv_parts)
  then have "prefix (got s) (pushed s @ drop (length (pushed s)) (written s))"
    unfolding taken_def by (simp add: written_def append_prefixD)
  moreover have "length (got s) \<le> length (pushed s)"
    using taken_le_pushed [OF inv] got_le_taken [of s] by simp
  ultimately show ?thesis by (auto intro: prefix_length_prefix)
qed

text \<open>Messages only ever know less than has happened.\<close>

lemma hist_ok_mono:
  assumes "hist_ok c s l t n" and "hist (mem s') l = hist (mem s) l"
    and "length (got s) \<le> length (got s')" and "length (pushed s) \<le> length (pushed s')"
    and "length (taken s) \<le> length (taken s')" and "length (written s) \<le> length (written s')"
  shows "hist_ok c s' l t n"
proof -
  have "msg_ok c s' l t k msg" if "msg_ok c s l t k msg" for k msg
    using that assms(3-6) unfolding msg_ok_def by linarith
  with assms(1,2) show ?thesis by (simp add: hist_ok_def)
qed

lemma hist_ok_append:
  assumes "hist_ok c s l t n" and "hist (mem s') l = hist (mem s) l @ [msg]"
    and "msg_ok c s' l t (Suc n) msg"
    and "length (got s) \<le> length (got s')" and "length (pushed s) \<le> length (pushed s')"
    and "length (taken s) \<le> length (taken s')" and "length (written s) \<le> length (written s')"
  shows "hist_ok c s' l t (Suc n)"
proof -
  have old: "msg_ok c s' l t k m" if "msg_ok c s l t k m" for k m
    using that assms(4-7) unfolding msg_ok_def by linarith
  have "msg_ok c s' l t k (hist (mem s') l ! k)" if "k \<le> Suc n" for k
  proof (cases "k = Suc n")
    case True
    with assms show ?thesis by (simp add: hist_ok_def nth_append)
  next
    case False
    with that assms(1,2) old show ?thesis by (simp add: hist_ok_def nth_append)
  qed
  with assms(1,2) show ?thesis by (simp add: hist_ok_def)
qed

lemma epoch_ok_Suc [simp]:
  "epoch_ok c x n e \<Longrightarrow> epoch_ok c x (Suc n) e"
  "epoch_ok c (n mod c) (Suc n) (Suc n)"
  by (auto simp: epoch_ok_def)

text \<open>The slot the producer is about to write is one whose accesses it knows of.\<close>

lemma push_write_knows:
  assumes c: "pow2_size c" and inv: "spsc_inv c s" and pc: "push_pc s = Push_Write x t next"
  defines "slot \<equiv> length (pushed s) mod c"
  shows "unat t = slot" and "slot < c"
    and "knows (mem s) Producer (writes (mem s) slot)" and "knows (mem s) Producer (reads (mem s) slot)"
proof -
  define n where "n = length (pushed s)"
  define k where "k = seen (mem s) Producer Head"
  have w: "written s = pushed s" using pc by (simp add: written_def)
  have loc: "t = ring_index c n" "Suc n < k + c"
    and know: "clock (mem s) Producer Producer = n" "k \<le> clock (mem s) Producer Consumer"
    using inv pc w by (simp_all add: inv_parts n_def k_def)
  have taken: "length (taken s) \<le> n" using taken_le_pushed [OF inv] by (simp add: n_def)
  show t: "unat t = slot" "slot < c" using loc c pow2_size_pos [OF c] by (simp_all add: slot_def n_def)
  have ep: "epoch_ok c slot n (writes (mem s) slot Producer)"
      "epoch_ok c slot (length (taken s)) (writes (mem s) slot Consumer)"
    and rd: "reads (mem s) slot Producer = 0" "reads (mem s) slot Consumer = 0"
    using inv w t by (simp_all add: inv_parts n_def)
  have "writes (mem s) slot Consumer \<le> k"
  proof (cases "writes (mem s) slot Consumer")
    case (Suc e)
    with ep(2) have "e mod c = n mod c" "e < n" using taken by (auto simp: epoch_ok_def slot_def n_def)
    then have "e + c \<le> n" by (rule same_slot_lap)
    with Suc loc(2) show ?thesis by simp
  qed simp
  with ep(1) rd know show "knows (mem s) Producer (writes (mem s) slot)"
    "knows (mem s) Producer (reads (mem s) slot)"
    by (auto simp: knows_def epoch_ok_def)
qed

lemma push_write_inv:
  assumes c: "pow2_size c" and inv: "spsc_inv c s" and pc: "push_pc s = Push_Write x t next"
  shows "\<exists>s'. push_step c item i s = Inr s' \<and> spsc_inv c s'"
proof -
  define n where "n = length (pushed s)"
  define k where "k = seen (mem s) Producer Head"
  define slot where "slot = n mod c"
  have w: "written s = pushed s" using pc by (simp add: written_def)
  have loc: "t = ring_index c n" "next = ring_index c (Suc n)" "Suc n < k + c"
    and know: "clock (mem s) Producer Producer = n" "k \<le> clock (mem s) Producer Consumer"
      "k \<le> length (got s)"
    using inv pc w by (simp_all add: inv_parts n_def k_def)
  have taken: "length (taken s) \<le> n" using taken_le_pushed [OF inv] by (simp add: n_def)
  note t = push_write_knows [OF c inv pc, folded n_def, folded slot_def]
  define m where "m = (count_access Producer (mem s))\<lparr>cells := (cells (mem s))(slot := x),
    writes := (writes (mem s))(slot := (writes (mem s) slot)(Producer := Suc n))\<rparr>"
  define s' where "s' = s\<lparr>mem := m, push_pc := Push_Publish x next\<rparr>"
  have "clock (count_access Producer (mem s)) Producer Producer = Suc n" using know by (simp add: count_access_def)
  with t(3,4) have "na_write Producer slot x (mem s) = Inr m"
    by (simp add: na_write_def m_def Let_def)
  with pc t have st: "push_step c item i s = Inr s'" by (simp add: push_step_def s'_def)
  have s': "written s' = pushed s @ [x]" "taken s' = taken s" "pushed s' = pushed s" "got s' = got s"
    "hist (mem s') = hist (mem s)"
    and mem': "cells (mem s') = (cells (mem s))(slot := x)" "reads (mem s') = reads (mem s)"
    "writes (mem s') = (writes (mem s))(slot := (writes (mem s) slot)(Producer := Suc n))"
    by (simp_all add: s'_def m_def count_access_def written_def taken_def)
  have "hist_ok c s' Tail Producer (length (pushed s'))" "hist_ok c s' Head Consumer (length (got s'))"
    unfolding s' using inv by (auto simp: spsc_inv_def s' w intro: hist_ok_mono)
  moreover have "producer_ok c s'" "consumer_ok c s'"
    using inv loc know unfolding producer_ok_def consumer_ok_def spsc_inv_def s' Let_def w
    by (simp_all add: s'_def m_def count_access_def n_def k_def)
  moreover have "slots_ok c s'"
  proof -
    have "cells (mem s') (j mod c) = (pushed s @ [x]) ! j"
      if j: "length (taken s) \<le> j" "j < length (pushed s @ [x])" for j
    proof (cases "j = n")
      case False
      with j have jn: "j < n" by (simp add: n_def)
      have "j mod c \<noteq> slot"
        using j(1) jn same_slot_lap [of j c n] loc(3) know(3) got_le_taken [of s] by (auto simp: slot_def)
      then show ?thesis using inv j(1) jn w
        by (simp add: mem' slots_ok_def spsc_inv_def nth_append n_def)
    qed (simp add: mem' slot_def n_def)
    then show ?thesis using inv taken by (simp add: slots_ok_def spsc_inv_def s' w n_def)
  qed
  moreover have "epochs_ok c s'"
    using inv by (simp add: epochs_ok_def spsc_inv_def s' mem' n_def slot_def w)
  ultimately have "spsc_inv c s'" by (simp add: spsc_inv_def)
  with st show ?thesis by blast
qed

lemma push_publish_inv:
  assumes c: "pow2_size c" and inv: "spsc_inv c s" and pc: "push_pc s = Push_Publish x next"
  shows "\<exists>s'. push_step c item i s = Inr s' \<and> spsc_inv c s'"
proof -
  define n where "n = length (pushed s)"
  define s' where "s' = s\<lparr>mem := atomic_store Release Producer Tail next (mem s), push_pc := Push_Idle,
    pushed := pushed s @ [x]\<rparr>"
  have st: "push_step c item i s = Inr s'" using pc by (simp add: push_step_def s'_def)
  have w: "written s = pushed s @ [x]" using pc by (simp add: written_def)
  have len: "length (hist (mem s) Tail) = Suc n" using inv by (simp add: inv_parts n_def)
  define msg where "msg = Message next ((seen (mem s) Producer)(Tail := Suc n)) (clock (mem s) Producer)"
  have s': "written s' = pushed s @ [x]" "taken s' = taken s" "pushed s' = pushed s @ [x]" "got s' = got s"
    "push_pc s' = Push_Idle" "pop_pc s' = pop_pc s"
    by (simp_all add: s'_def written_def taken_def)
  have mem': "hist (mem s') Head = hist (mem s) Head" "hist (mem s') Tail = hist (mem s) Tail @ [msg]"
    "seen (mem s') Producer = (seen (mem s) Producer)(Tail := Suc n)"
    "seen (mem s') Consumer = seen (mem s) Consumer" "clock (mem s') = clock (mem s)"
    "cells (mem s') = cells (mem s)" "writes (mem s') = writes (mem s)" "reads (mem s') = reads (mem s)"
    using len by (simp_all add: s'_def atomic_store_def Let_def msg_def)
  have loc: "next = ring_index c (Suc n)" "Suc n < seen (mem s) Producer Head + c"
    and know: "seen (mem s) Producer Head \<le> length (got s)"
      "clock (mem s) Producer Producer = Suc n" "clock (mem s) Producer Consumer \<le> length (taken s)"
    using inv pc w by (simp_all add: inv_parts n_def)
  have old: "hist_ok c s Tail Producer n" "hist_ok c s Head Consumer (length (got s))"
    using inv by (simp_all add: spsc_inv_def n_def)
  have "hist_ok c s' Head Consumer (length (got s'))"
    unfolding s' by (rule hist_ok_mono [OF old(2)]) (simp_all add: s' mem' w)
  moreover have "hist_ok c s' Tail Producer (Suc n)"
    by (rule hist_ok_append [OF old(1) mem'(2)])
      (use loc know in \<open>simp_all add: msg_ok_def msg_def s' w n_def\<close>)
  then have "hist_ok c s' Tail Producer (length (pushed s'))" by (simp add: s' n_def)
  moreover have "producer_ok c s'" "consumer_ok c s'"
    using inv loc know unfolding producer_ok_def consumer_ok_def spsc_inv_def s' Let_def w mem'
    by (simp_all add: n_def)
  moreover have "slots_ok c s'" "epochs_ok c s'"
    using inv by (simp_all add: slots_ok_def epochs_ok_def spsc_inv_def s' mem' w)
  ultimately have "spsc_inv c s'" by (simp add: spsc_inv_def)
  with st show ?thesis by blast
qed

text \<open>The consumer's steps, in the same way.\<close>

lemma pop_idle_inv:
  assumes inv: "spsc_inv c s" and pc: "pop_pc s = Pop_Idle" and ch: "pop_choice i s"
  shows "\<exists>s'. pop_step c moved i s = Inr s' \<and> spsc_inv c s'"
proof -
  let ?m = "snd (atomic_load Relaxed Consumer Head i (mem s))"
  have i: "i = length (got s)"
    using assms by (simp add: inv_parts pop_choice_def can_read_def)
  have "msg_val (hist (mem s) Head ! i) = ring_index c i"
    using inv i by (simp add: inv_parts msg_ok_def)
  then have st: "pop_step c moved i s = Inr (s\<lparr>mem := ?m, pop_pc := Pop_Load_Tail (ring_index c i)\<rparr>)"
    using pc by (simp add: pop_step_def atomic_load_def Let_def)
  have "spsc_inv c (s\<lparr>mem := ?m, pop_pc := Pop_Load_Tail (ring_index c i)\<rparr>)"
    by (rule pop_load_inv [OF inv])
      (use inv pc i in \<open>simp_all add: inv_parts atomic_load_def taken_def\<close>)
  with st show ?thesis by blast
qed

lemma pop_load_tail_inv:
  fixes s :: "'a spsc_threads"
  assumes c: "pow2_size c" and inv: "spsc_inv c s" and pc: "pop_pc s = Pop_Load_Tail h"
    and ch: "pop_choice i s"
  shows "\<exists>s'. pop_step c moved i s = Inr s' \<and> spsc_inv c s'"
proof -
  let ?m = "snd (atomic_load Acquire Consumer Tail i (mem s))"
  define n where "n = length (got s)"
  define pc' :: "'a pop_pc" where
    "pc' = (if ring_index c n = ring_index c i then Pop_Idle else Pop_Take (ring_index c n))"
  have w: "taken s = got s" using pc by (simp add: taken_def)
  have i: "seen (mem s) Consumer Tail \<le> i" "i \<le> length (pushed s)"
    using inv pc ch by (simp_all add: inv_parts pop_choice_def can_read_def)
  have msg: "msg_ok c s Tail Producer i (hist (mem s) Tail ! i)"
    using inv i by (simp add: inv_parts)
  have h: "h = ring_index c n" and some: "n \<le> i" and own: "clock (mem s) Consumer Consumer = n"
    "seen (mem s) Consumer Head = n" "clock (mem s) Consumer Producer \<le> length (written s)"
    using inv pc i w by (simp_all add: inv_parts n_def)
  have more: "n < i" if "ring_index c n \<noteq> ring_index c i"
    using that some by (cases "n = i") auto
  have st: "pop_step c moved i s = Inr (s\<lparr>mem := ?m, pop_pc := pc'\<rparr>)"
    using pc msg h by (simp add: pop_step_def atomic_load_def Let_def msg_ok_def pc'_def)
  have "spsc_inv c (s\<lparr>mem := ?m, pop_pc := pc'\<rparr>)"
    by (rule pop_load_inv [OF inv])
      (use i msg h some own more pc in
        \<open>auto simp: atomic_load_def Let_def msg_ok_def pc'_def n_def [symmetric] w\<close>)
  with st show ?thesis by blast
qed

text \<open>The slot the consumer is about to take has been written, and the consumer knows of it.\<close>

lemma pop_take_knows:
  assumes c: "pow2_size c" and inv: "spsc_inv c s" and pc: "pop_pc s = Pop_Take h"
  defines "slot \<equiv> length (got s) mod c"
  shows "unat h = slot" and "slot < c"
    and "knows (mem s) Consumer (writes (mem s) slot)" and "knows (mem s) Consumer (reads (mem s) slot)"
    and "length (written s) < length (got s) + c"
proof -
  define n where "n = length (got s)"
  define k where "k = seen (mem s) Consumer Tail"
  have w: "taken s = got s" using pc by (simp add: taken_def)
  have loc: "h = ring_index c n" "n < k"
    and know: "clock (mem s) Consumer Consumer = n" "k \<le> clock (mem s) Consumer Producer"
    using inv pc w by (simp_all add: inv_parts n_def k_def)
  show room: "length (written s) < length (got s) + c"
    using inv by (cases "push_pc s") (auto simp: inv_parts written_def)
  show slot: "unat h = slot" "slot < c" using loc c pow2_size_pos [OF c] by (simp_all add: slot_def n_def)
  have ep: "epoch_ok c slot (length (written s)) (writes (mem s) slot Producer)"
      "epoch_ok c slot n (writes (mem s) slot Consumer)"
    and rd: "reads (mem s) slot Producer = 0" "reads (mem s) slot Consumer = 0"
    using inv w slot by (simp_all add: inv_parts n_def)
  have "writes (mem s) slot Producer \<le> k"
  proof (cases "writes (mem s) slot Producer")
    case (Suc e)
    with ep(1) have "e mod c = n mod c" "e < n + c" using room by (auto simp: epoch_ok_def slot_def n_def)
    then have "e \<le> n" by (rule same_slot_le)
    with Suc loc(2) show ?thesis by simp
  qed simp
  with ep(2) rd know show "knows (mem s) Consumer (writes (mem s) slot)"
    "knows (mem s) Consumer (reads (mem s) slot)"
    by (auto simp: knows_def epoch_ok_def)
qed

lemma pop_take_inv:
  assumes c: "pow2_size c" and inv: "spsc_inv c s" and pc: "pop_pc s = Pop_Take h"
  shows "\<exists>s'. pop_step c moved i s = Inr s' \<and> spsc_inv c s'"
proof -
  define n where "n = length (got s)"
  define k where "k = seen (mem s) Consumer Tail"
  define slot where "slot = n mod c"
  define out where "out = cells (mem s) slot"
  have w: "taken s = got s" using pc by (simp add: taken_def)
  have loc: "h = ring_index c n" "n < k"
    and know: "clock (mem s) Consumer Consumer = n" "k \<le> clock (mem s) Consumer Producer"
      "k \<le> length (pushed s)" "clock (mem s) Consumer Producer \<le> length (written s)"
    using inv pc w by (simp_all add: inv_parts n_def k_def)
  note slot = pop_take_knows [OF c inv pc, folded n_def, folded slot_def]
  note room = slot(5)
  define m where "m = (count_access Consumer (mem s))\<lparr>cells := (cells (mem s))(slot := moved out),
    writes := (writes (mem s))(slot := (writes (mem s) slot)(Consumer := Suc n))\<rparr>"
  define s' where "s' = s\<lparr>mem := m, pop_pc := Pop_Publish h out\<rparr>"
  have "clock (count_access Consumer (mem s)) Consumer Consumer = Suc n" using know by (simp add: count_access_def)
  with slot(3,4) have "na_move moved Consumer slot (mem s) = Inr (out, m)"
    by (simp add: na_move_def na_write_def m_def Let_def out_def)
  with pc slot have st: "pop_step c moved i s = Inr s'" by (simp add: pop_step_def s'_def)
  have s': "taken s' = got s @ [out]" "written s' = written s" "pushed s' = pushed s" "got s' = got s"
    "hist (mem s') = hist (mem s)"
    and mem': "cells (mem s') = (cells (mem s))(slot := moved out)" "reads (mem s') = reads (mem s)"
    "writes (mem s') = (writes (mem s))(slot := (writes (mem s) slot)(Consumer := Suc n))"
    by (simp_all add: s'_def m_def count_access_def written_def taken_def)
  have nw: "n < length (written s)" using loc know pushed_le_written [of s] by simp
  have outv: "out = written s ! n"
    using inv nw by (simp add: out_def slot_def slots_ok_def spsc_inv_def w n_def)
  have "hist_ok c s' Tail Producer (length (pushed s'))" "hist_ok c s' Head Consumer (length (got s'))"
    unfolding s' using inv by (auto simp: spsc_inv_def s' w intro: hist_ok_mono)
  moreover have "producer_ok c s'" "consumer_ok c s'"
    using inv loc know pc unfolding producer_ok_def consumer_ok_def spsc_inv_def s' Let_def w
    by (simp_all add: s'_def m_def count_access_def n_def k_def)
  moreover have "slots_ok c s'"
  proof -
    have "prefix (got s @ [out]) (written s)"
      using inv nw by (simp add: outv append_one_prefix slots_ok_def spsc_inv_def w n_def)
    moreover have "cells (mem s') (j mod c) = written s ! j"
      if j: "Suc n \<le> j" "j < length (written s)" for j
    proof -
      have "j mod c \<noteq> slot" using j room same_slot_le [of j c n] by (auto simp: slot_def)
      then show ?thesis using inv j by (simp add: mem' slots_ok_def spsc_inv_def w n_def)
    qed
    ultimately show ?thesis by (simp add: slots_ok_def s' n_def)
  qed
  moreover have "epochs_ok c s'"
    using inv by (simp add: epochs_ok_def spsc_inv_def s' mem' n_def slot_def w)
  ultimately have "spsc_inv c s'" by (simp add: spsc_inv_def)
  with st show ?thesis by blast
qed

lemma pop_publish_inv:
  assumes c: "pow2_size c" and inv: "spsc_inv c s" and pc: "pop_pc s = Pop_Publish h out"
  shows "\<exists>s'. pop_step c moved i s = Inr s' \<and> spsc_inv c s'"
proof -
  define n where "n = length (got s)"
  define val where "val = (h + 1) AND (word_of_nat c - 1)"
  define s' where "s' = s\<lparr>mem := atomic_store Release Consumer Head val (mem s), pop_pc := Pop_Idle,
    got := got s @ [out]\<rparr>"
  have st: "pop_step c moved i s = Inr s'" using pc by (simp add: pop_step_def s'_def val_def)
  have w: "taken s = got s @ [out]" using pc by (simp add: taken_def)
  have len: "length (hist (mem s) Head) = Suc n" using inv by (simp add: inv_parts n_def)
  define msg where "msg = Message val ((seen (mem s) Consumer)(Head := Suc n)) (clock (mem s) Consumer)"
  have s': "taken s' = got s @ [out]" "written s' = written s" "got s' = got s @ [out]" "pushed s' = pushed s"
    "pop_pc s' = Pop_Idle" "push_pc s' = push_pc s"
    by (simp_all add: s'_def written_def taken_def)
  have mem': "hist (mem s') Tail = hist (mem s) Tail" "hist (mem s') Head = hist (mem s) Head @ [msg]"
    "seen (mem s') Consumer = (seen (mem s) Consumer)(Head := Suc n)"
    "seen (mem s') Producer = seen (mem s) Producer" "clock (mem s') = clock (mem s)"
    "cells (mem s') = cells (mem s)" "writes (mem s') = writes (mem s)" "reads (mem s') = reads (mem s)"
    using len by (simp_all add: s'_def atomic_store_def Let_def msg_def)
  have loc: "h = ring_index c n" "n < seen (mem s) Consumer Tail"
    and know: "seen (mem s) Consumer Tail \<le> length (pushed s)"
      "clock (mem s) Consumer Consumer = Suc n" "clock (mem s) Consumer Producer \<le> length (written s)"
    using inv pc w by (simp_all add: inv_parts n_def)
  have val: "val = ring_index c (Suc n)" using loc by (simp add: val_def ring_index_next [OF c])
  have old: "hist_ok c s Head Consumer n" "hist_ok c s Tail Producer (length (pushed s))"
    using inv by (simp_all add: spsc_inv_def n_def)
  have "hist_ok c s' Tail Producer (length (pushed s'))"
    unfolding s' by (rule hist_ok_mono [OF old(2)]) (simp_all add: s' mem' w)
  moreover have "hist_ok c s' Head Consumer (Suc n)"
    by (rule hist_ok_append [OF old(1) mem'(2)])
      (use val know in \<open>simp_all add: msg_ok_def msg_def s' w n_def\<close>)
  then have "hist_ok c s' Head Consumer (length (got s'))" by (simp add: s' n_def)
  moreover have "producer_ok c s'" "consumer_ok c s'"
    using inv loc know unfolding producer_ok_def consumer_ok_def spsc_inv_def s' Let_def w mem'
    by (simp_all add: n_def)
  moreover have "slots_ok c s'" "epochs_ok c s'"
    using inv by (simp_all add: slots_ok_def epochs_ok_def spsc_inv_def s' mem' w)
  ultimately have "spsc_inv c s'" by (simp add: spsc_inv_def)
  with st show ?thesis by blast
qed

lemma push_step_inv:
  assumes "pow2_size c" and "spsc_inv c s" and "push_choice i s"
  shows "\<exists>s'. push_step c item i s = Inr s' \<and> spsc_inv c s'"
proof (cases "push_pc s")
  case Push_Idle
  with assms show ?thesis by (intro push_idle_inv)
next
  case (Push_Load_Head x t)
  with assms show ?thesis by (intro push_load_head_inv)
next
  case (Push_Write x t nxt)
  with assms show ?thesis by (intro push_write_inv)
next
  case (Push_Publish x nxt)
  with assms show ?thesis by (intro push_publish_inv)
qed

lemma pop_step_inv:
  assumes "pow2_size c" and "spsc_inv c s" and "pop_choice i s"
  shows "\<exists>s'. pop_step c moved i s = Inr s' \<and> spsc_inv c s'"
proof (cases "pop_pc s")
  case Pop_Idle
  with assms show ?thesis by (intro pop_idle_inv)
next
  case (Pop_Load_Tail h)
  with assms show ?thesis by (intro pop_load_tail_inv)
next
  case (Pop_Take h)
  with assms show ?thesis by (intro pop_take_inv)
next
  case (Pop_Publish h out)
  with assms show ?thesis by (intro pop_publish_inv)
qed

lemma spsc_reach_inv:
  assumes "pow2_size c"
  shows "spsc_reach c moved d s \<Longrightarrow> spsc_inv c s"
proof (induction rule: spsc_reach.induct)
  case start
  show ?case by (rule spsc_inv_init) (rule pow2_size_pos [OF assms])
next
  case (push s i item s')
  then show ?case using push_step_inv [OF assms, of s i item] by auto
next
  case (pop s i s')
  then show ?case using pop_step_inv [OF assms, of s i moved] by auto
qed

section \<open>The calls of a thread that runs alone\<close>

text \<open>
  When the other thread is between two calls and each load returns the newest store, the
  accesses of a call together are the member function of \<open>SpscQueue\<close>.
\<close>

definition newest :: "'a spsc_threads \<Rightarrow> spsc_index \<Rightarrow> nat" where
  "newest s l = length (hist (mem s) l) - 1"

definition push_call :: "nat \<Rightarrow> 'a \<Rightarrow> 'a spsc_threads \<Rightarrow> (bool \<times> 'a spsc_threads) res" where
  "push_call c item s =
     res_bind (push_step c item (newest s Tail) s) (\<lambda>s1.
     res_bind (push_step c item (newest s1 Head) s1) (\<lambda>s2.
     case push_pc s2 of Push_Idle \<Rightarrow> Inr (False, s2)
     | _ \<Rightarrow> res_bind (push_step c item 0 s2) (\<lambda>s3.
           res_bind (push_step c item 0 s3) (\<lambda>s4. Inr (True, s4)))))"

definition pop_call :: "nat \<Rightarrow> ('a \<Rightarrow> 'a) \<Rightarrow> 'a spsc_threads \<Rightarrow> ('a option \<times> 'a spsc_threads) res" where
  "pop_call c moved s =
     res_bind (pop_step c moved (newest s Head) s) (\<lambda>s1.
     res_bind (pop_step c moved (newest s1 Tail) s1) (\<lambda>s2.
     case pop_pc s2 of Pop_Idle \<Rightarrow> Inr (None, s2)
     | _ \<Rightarrow> res_bind (pop_step c moved 0 s2) (\<lambda>s3.
           res_bind (pop_step c moved 0 s3) (\<lambda>s4. Inr (Some (last (got s4)), s4)))))"

definition spsc_of :: "nat \<Rightarrow> 'a spsc_threads \<Rightarrow> 'a spsc" where
  "spsc_of c s = \<lparr>q_head = msg_val (last (hist (mem s) Head)), q_tail = msg_val (last (hist (mem s) Tail)),
     q_slots = map (cells (mem s)) [0..<c]\<rparr>"

lemma hist_ok_last:
  assumes "hist_ok c s l t n"
  shows "msg_val (last (hist (mem s) l)) = ring_index c n" and "newest s l = n"
proof -
  have len: "length (hist (mem s) l) = Suc n" and n: "msg_ok c s l t n (hist (mem s) l ! n)"
    using assms by (simp_all add: hist_ok_def)
  then have "last (hist (mem s) l) = hist (mem s) l ! n" by (subst last_conv_nth) auto
  with n show "msg_val (last (hist (mem s) l)) = ring_index c n" by (simp add: msg_ok_def)
  show "newest s l = n" using len by (simp add: newest_def)
qed

lemma spsc_of_inv:
  assumes "spsc_inv c s"
  shows "q_head (spsc_of c s) = ring_index c (length (got s))"
    and "q_tail (spsc_of c s) = ring_index c (length (pushed s))"
proof -
  have "hist_ok c s Head Consumer (length (got s))" "hist_ok c s Tail Producer (length (pushed s))"
    using assms by (simp_all add: spsc_inv_def)
  note this [THEN hist_ok_last(1)]
  then show "q_head (spsc_of c s) = ring_index c (length (got s))"
    "q_tail (spsc_of c s) = ring_index c (length (pushed s))"
    by (simp_all add: spsc_of_def)
qed

lemma spsc_of_slots [simp]: "length (q_slots (spsc_of c s)) = c"
  by (simp add: spsc_of_def)

lemma spsc_of_mask [simp]: "q_mask (spsc_of c s) = word_of_nat c - 1"
  by (simp add: q_mask_def q_capacity_def)

lemma map_upd_upt: "k < c \<Longrightarrow> map (f(k := v)) [0..<c] = (map f [0..<c])[k := v]"
  by (rule nth_equalityI) (auto simp: nth_list_update)

text \<open>The effect of each step on the ring: loads have none.\<close>

lemma push_step_spsc_of:
  assumes "push_step c item i s = Inr s'"
  shows "push_pc s = Push_Idle \<Longrightarrow> spsc_of c s' = spsc_of c s"
    and "push_pc s = Push_Load_Head x t \<Longrightarrow> spsc_of c s' = spsc_of c s"
    and "push_pc s = Push_Write x t nxt \<Longrightarrow> unat t < c \<and>
      spsc_of c s' = (spsc_of c s)\<lparr>q_slots := (q_slots (spsc_of c s))[unat t := x]\<rparr>
      \<and> push_pc s' = Push_Publish x nxt"
    and "push_pc s = Push_Publish x nxt \<Longrightarrow> spsc_of c s' = (spsc_of c s)\<lparr>q_tail := nxt\<rparr>"
  using assms
  by (auto simp: push_step_def ra_defs spsc_of_def map_upd_upt res_bind_Inr_iff split: if_splits)

lemma pop_step_spsc_of:
  assumes "pop_step c moved i s = Inr s'"
  shows "pop_pc s = Pop_Idle \<Longrightarrow> spsc_of c s' = spsc_of c s"
    and "pop_pc s = Pop_Load_Tail h \<Longrightarrow> spsc_of c s' = spsc_of c s"
    and "pop_pc s = Pop_Take h \<Longrightarrow> unat h < c \<and>
      spsc_of c s' = (spsc_of c s)\<lparr>q_slots :=
        (q_slots (spsc_of c s))[unat h := moved (q_slots (spsc_of c s) ! unat h)]\<rparr>
      \<and> pop_pc s' = Pop_Publish h (q_slots (spsc_of c s) ! unat h)"
    and "pop_pc s = Pop_Publish h out \<Longrightarrow>
      spsc_of c s' = (spsc_of c s)\<lparr>q_head := (h + 1) AND (word_of_nat c - 1)\<rparr>
      \<and> got s' = got s @ [out]"
  using assms
  by (auto simp: pop_step_def ra_defs spsc_of_def map_upd_upt res_bind_Inr_iff split: if_splits)

lemma push_load_pc:
  assumes "push_step c item i s = Inr s'"
  shows "push_pc s = Push_Idle \<Longrightarrow> push_pc s' = Push_Load_Head item (msg_val (hist (mem s) Tail ! i))"
    and "push_pc s = Push_Load_Head x t \<Longrightarrow> push_pc s' =
      (if (t + 1) AND (word_of_nat c - 1) = msg_val (hist (mem s) Head ! i) then Push_Idle
       else Push_Write x t ((t + 1) AND (word_of_nat c - 1)))"
  using assms by (auto simp: push_step_def atomic_load_def Let_def split: if_splits)

lemma pop_load_pc:
  assumes "pop_step c moved i s = Inr s'"
  shows "pop_pc s = Pop_Idle \<Longrightarrow> pop_pc s' = Pop_Load_Tail (msg_val (hist (mem s) Head ! i))"
    and "pop_pc s = Pop_Load_Tail h \<Longrightarrow> pop_pc s' =
      (if h = msg_val (hist (mem s) Tail ! i) then Pop_Idle else Pop_Take h)"
  using assms by (auto simp: pop_step_def atomic_load_def Let_def split: if_splits)

lemma newest_value:
  assumes "spsc_inv c s"
  shows "msg_val (hist (mem s) Head ! newest s Head) = q_head (spsc_of c s)"
    and "msg_val (hist (mem s) Tail ! newest s Tail) = q_tail (spsc_of c s)"
proof -
  have "hist (mem s) Head \<noteq> []" "hist (mem s) Tail \<noteq> []" using assms by (auto simp: inv_parts)
  then show "msg_val (hist (mem s) Head ! newest s Head) = q_head (spsc_of c s)"
    "msg_val (hist (mem s) Tail ! newest s Tail) = q_tail (spsc_of c s)"
    by (simp_all add: newest_def spsc_of_def last_conv_nth)
qed

lemma newest_choice:
  assumes "spsc_inv c s"
  shows "push_pc s = Push_Idle \<Longrightarrow> push_choice (newest s Tail) s"
    and "push_pc s = Push_Load_Head x t \<Longrightarrow> push_choice (newest s Head) s"
    and "pop_pc s = Pop_Idle \<Longrightarrow> pop_choice (newest s Head) s"
    and "pop_pc s = Pop_Load_Tail h \<Longrightarrow> pop_choice (newest s Tail) s"
  using assms by (simp_all add: push_choice_def pop_choice_def can_read_def newest_def inv_parts)

lemma push_call_sequential:
  assumes c: "pow2_size c" and inv: "spsc_inv c s" and pc: "push_pc s = Push_Idle"
  shows "\<exists>b s'. push_call c item s = Inr (b, s') \<and> spsc_inv c s'
    \<and> try_push (spsc_of c s) item = Inr (b, spsc_of c s')"
proof -
  let ?t = "q_tail (spsc_of c s)" and ?nx = "(q_tail (spsc_of c s) + 1) AND (word_of_nat c - 1)"
  obtain s1 where s1: "push_step c item (newest s Tail) s = Inr s1" "spsc_inv c s1"
    using push_step_inv [OF c inv newest_choice(1) [OF inv pc]] by blast
  have e1: "spsc_of c s1 = spsc_of c s" "push_pc s1 = Push_Load_Head item ?t"
    using push_step_spsc_of(1) [OF s1(1) pc] push_load_pc(1) [OF s1(1) pc] newest_value(2) [OF inv] by simp_all
  obtain s2 where s2: "push_step c item (newest s1 Head) s1 = Inr s2" "spsc_inv c s2"
    using push_step_inv [OF c s1(2) newest_choice(2) [OF s1(2) e1(2)]] by blast
  have e2: "spsc_of c s2 = spsc_of c s"
    "push_pc s2 = (if ?nx = q_head (spsc_of c s) then Push_Idle else Push_Write item ?t ?nx)"
    using push_step_spsc_of(2) [OF s2(1) e1(2)] push_load_pc(2) [OF s2(1) e1(2)]
      newest_value(1) [OF s1(2)] e1(1) by simp_all
  show ?thesis
  proof (cases "?nx = q_head (spsc_of c s)")
    case True
    then show ?thesis using s1 s2 e2 by (auto simp: push_call_def try_push_def)
  next
    case False
    then have p2: "push_pc s2 = Push_Write item ?t ?nx" using e2(2) by simp
    obtain s3 where s3: "push_step c item 0 s2 = Inr s3" "spsc_inv c s3"
      using push_step_inv [OF c s2(2), of 0] p2 by (auto simp: push_choice_def)
    note e3 = push_step_spsc_of(3) [OF s3(1) p2]
    obtain s4 where s4: "push_step c item 0 s3 = Inr s4" "spsc_inv c s4"
      using push_step_inv [OF c s3(2), of 0] e3 by (auto simp: push_choice_def)
    have "spsc_of c s4 = (spsc_of c s3)\<lparr>q_tail := ?nx\<rparr>"
      using push_step_spsc_of(4) [OF s4(1)] e3 by blast
    then show ?thesis using s1 s2 s3 s4 p2 e2(1) e3 False
      by (auto simp: push_call_def try_push_def Let_def)
  qed
qed

lemma pop_call_sequential:
  assumes c: "pow2_size c" and inv: "spsc_inv c s" and pc: "pop_pc s = Pop_Idle"
  shows "\<exists>r s'. pop_call c moved s = Inr (r, s') \<and> spsc_inv c s'
    \<and> try_pop moved (spsc_of c s) = Inr (r, spsc_of c s')"
proof -
  let ?h = "q_head (spsc_of c s)"
  obtain s1 where s1: "pop_step c moved (newest s Head) s = Inr s1" "spsc_inv c s1"
    using pop_step_inv [OF c inv newest_choice(3) [OF inv pc]] by blast
  have e1: "spsc_of c s1 = spsc_of c s" "pop_pc s1 = Pop_Load_Tail ?h"
    using pop_step_spsc_of(1) [OF s1(1) pc] pop_load_pc(1) [OF s1(1) pc] newest_value(1) [OF inv] by simp_all
  obtain s2 where s2: "pop_step c moved (newest s1 Tail) s1 = Inr s2" "spsc_inv c s2"
    using pop_step_inv [OF c s1(2) newest_choice(4) [OF s1(2) e1(2)]] by blast
  have e2: "spsc_of c s2 = spsc_of c s"
    "pop_pc s2 = (if ?h = q_tail (spsc_of c s) then Pop_Idle else Pop_Take ?h)"
    using pop_step_spsc_of(2) [OF s2(1) e1(2)] pop_load_pc(2) [OF s2(1) e1(2)]
      newest_value(2) [OF s1(2)] e1(1) by simp_all
  show ?thesis
  proof (cases "?h = q_tail (spsc_of c s)")
    case True
    then show ?thesis using s1 s2 e2 by (simp add: pop_call_def try_pop_def)
  next
    case False
    then have p2: "pop_pc s2 = Pop_Take ?h" using e2(2) by simp
    obtain s3 where s3: "pop_step c moved 0 s2 = Inr s3" "spsc_inv c s3"
      using pop_step_inv [OF c s2(2), of 0] p2 by (auto simp: pop_choice_def)
    note e3 = pop_step_spsc_of(3) [OF s3(1) p2]
    obtain s4 where s4: "pop_step c moved 0 s3 = Inr s4" "spsc_inv c s4"
      using pop_step_inv [OF c s3(2), of 0] e3 by (auto simp: pop_choice_def)
    have e4: "spsc_of c s4 = (spsc_of c s3)\<lparr>q_head := (?h + 1) AND (word_of_nat c - 1)\<rparr>"
      "got s4 = got s3 @ [q_slots (spsc_of c s2) ! unat ?h]"
      using pop_step_spsc_of(4) [OF s4(1)] e3 by blast+
    then show ?thesis using s1 s2 s3 s4 p2 e2(1) e3 False
      by (simp add: pop_call_def try_pop_def Let_def)
  qed
qed

section \<open>A run\<close>

text \<open>A schedule: which thread moves, which store its load returns, the item of a new call.\<close>

datatype 'a sched = Producer_Moves 'a nat | Consumer_Moves nat

fun spsc_sched :: "nat \<Rightarrow> ('a \<Rightarrow> 'a) \<Rightarrow> 'a sched list \<Rightarrow> 'a spsc_threads \<Rightarrow> 'a spsc_threads res" where
  "spsc_sched c moved [] s = Inr s"
| "spsc_sched c moved (Producer_Moves x i # es) s =
     (if push_choice i s then res_bind (push_step c x i s) (spsc_sched c moved es) else Inr s)"
| "spsc_sched c moved (Consumer_Moves i # es) s =
     (if pop_choice i s then res_bind (pop_step c moved i s) (spsc_sched c moved es) else Inr s)"

lemma spsc_sched_reach:
  "spsc_reach c moved d s \<Longrightarrow> spsc_sched c moved es s = Inr s' \<Longrightarrow> spsc_reach c moved d s'"
proof (induction c moved es s rule: spsc_sched.induct)
  case (2 c moved x i es s)
  then show ?case by (auto simp: res_bind_Inr_iff split: if_splits intro: spsc_reach.push)
next
  case (3 c moved i es s)
  then show ?case by (auto simp: res_bind_Inr_iff split: if_splits intro: spsc_reach.pop)
qed simp

lemmas spsc_eval =
  spsc_threads_init_def machine_init_def push_step_def pop_step_def push_choice_def pop_choice_def ra_defs

text \<open>
  On a ring of two slots: a push, a second push that finds the ring full, a pop that overlaps
  them, and a third push up to its load of \<open>head_\<close>.
\<close>

definition demo_sched :: "int sched list" where
  "demo_sched =
     [Producer_Moves 7 0, Producer_Moves 7 0, Consumer_Moves 0, Producer_Moves 7 0, Producer_Moves 7 0,
      Producer_Moves 8 1, Consumer_Moves 1, Producer_Moves 8 0, Consumer_Moves 0, Consumer_Moves 0,
      Producer_Moves 9 1, Consumer_Moves 1]"

lemma demo_run:
  "\<exists>s. spsc_sched 2 id demo_sched (spsc_threads_init 0) = Inr s \<and> pushed s = [7] \<and> got s = [7]
     \<and> push_pc s = Push_Load_Head 9 1 \<and> pop_pc s = Pop_Load_Tail 1
     \<and> seen (mem s) Producer Head = 0"
  by (simp add: demo_sched_def spsc_eval)

lemma demo_reach:
  obtains s where "spsc_reach 2 id (0 :: int) s" and "pushed s = [7]" and "got s = [7]"
    and "push_pc s = Push_Load_Head 9 1" and "pop_pc s = Pop_Load_Tail 1"
    and "seen (mem s) Producer Head = 0"
  using demo_run spsc_sched_reach [OF spsc_reach.start] by metis

lemma pow2_size_2 [simp]: "pow2_size 2"
  by (auto simp: pow2_size_def intro!: exI [of _ 1])

section \<open>Properties\<close>

text \<open>
  C1: with one producer and one consumer thread, no interleaving and no stale read leads to
  undefined behaviour: in every reachable state, whatever store the next load returns, the next
  access of either thread is free of data races and inside the slot array.
\<close>

theorem spsc_race_free:
  assumes "pow2_size c" and "spsc_reach c moved d s"
  shows "(\<forall>i item. push_choice i s \<longrightarrow> (\<exists>s'. push_step c item i s = Inr s'))
    \<and> (\<forall>i. pop_choice i s \<longrightarrow> (\<exists>s'. pop_step c moved i s = Inr s'))"
proof -
  have inv: "spsc_inv c s" using assms by (rule spsc_reach_inv)
  show ?thesis using push_step_inv [OF assms(1) inv] pop_step_inv [OF assms(1) inv, of _ moved] by metis
qed

theorem spsc_race_free_witness:
  "\<exists>s. spsc_reach 2 id (0 :: int) s \<and> pushed s = [7] \<and> push_choice 0 s
     \<and> (\<exists>s'. push_step 2 9 0 s = Inr s')"
proof (rule demo_reach)
  fix s assume s: "spsc_reach 2 id (0 :: int) s" "pushed s = [7]" "push_pc s = Push_Load_Head 9 1"
    "seen (mem s) Producer Head = 0"
  have "spsc_inv 2 s" using spsc_reach_inv [OF pow2_size_2 s(1)] .
  then have "push_choice 0 s" using s(3,4) by (simp add: push_choice_def can_read_def inv_parts)
  with s spsc_race_free [OF pow2_size_2 s(1)] show ?thesis by metis
qed

text \<open>
  C2: in every reachable state the values the consumer got are a prefix of the values the
  producer's successful calls pushed, in the same order, and at most \<open>Capacity - 1\<close> pushed
  values have not been consumed.
\<close>

theorem spsc_threads_fifo:
  assumes "pow2_size c" and "spsc_reach c moved d s"
  shows "prefix (got s) (pushed s) \<and> length (pushed s) - length (got s) \<le> c - 1"
proof -
  have inv: "spsc_inv c s" using assms by (rule spsc_reach_inv)
  moreover have "length (pushed s) < length (got s) + c" using inv by (simp add: inv_parts)
  ultimately show ?thesis using got_prefix_pushed by auto
qed

theorem spsc_threads_fifo_witness:
  "\<exists>s. spsc_reach 2 id (0 :: int) s \<and> got s = [7] \<and> prefix (got s) (pushed s)
     \<and> length (pushed s) - length (got s) \<le> 2 - 1"
proof (rule demo_reach)
  fix s assume s: "spsc_reach 2 id (0 :: int) s" "got s = [7]"
  with spsc_threads_fifo [OF pow2_size_2 s(1)] show ?thesis by metis
qed

lemma push_refuses_iff:
  assumes c: "pow2_size c" and inv: "spsc_inv c s" and pc: "push_pc s = Push_Load_Head x t"
    and ch: "push_choice i s" and st: "push_step c item i s = Inr s'"
  shows "push_pc s' = Push_Idle \<longleftrightarrow> length (pushed s) = i + (c - 1)"
proof -
  have b: "i \<le> length (got s)" "length (pushed s) < i + c" "t = ring_index c (length (pushed s))"
    using pc ch inv by (auto simp: inv_parts push_choice_def can_read_def)
  have v: "msg_val (hist (mem s) Head ! i) = ring_index c i"
    using b inv by (simp add: inv_parts msg_ok_def)
  have le: "i \<le> length (pushed s)" using b taken_le_pushed [OF inv] got_le_taken [of s] by simp
  have "push_pc s' = Push_Idle \<longleftrightarrow> Suc (length (pushed s)) mod c = i mod c"
    using push_load_pc(2) [OF st pc] b(3) v
    by (simp add: ring_index_next [OF c] ring_index_inj [OF c])
  also have "\<dots> \<longleftrightarrow> Suc (length (pushed s)) = i + c"
    using same_slot_lap [of i c "Suc (length (pushed s))"] b(2) le by auto
  finally show ?thesis using pow2_size_pos [OF c] by auto
qed

lemma pop_refuses_iff:
  assumes c: "pow2_size c" and inv: "spsc_inv c s" and pc: "pop_pc s = Pop_Load_Tail h"
    and ch: "pop_choice i s" and st: "pop_step c moved i s = Inr s'"
  shows "pop_pc s' = Pop_Idle \<longleftrightarrow> length (got s) = i"
proof -
  have room: "length (written s) < length (got s) + c"
    using inv by (cases "push_pc s") (auto simp: inv_parts written_def)
  have b: "length (got s) \<le> i" "i \<le> length (pushed s)" "h = ring_index c (length (got s))"
    using pc ch inv by (auto simp: inv_parts pop_choice_def can_read_def)
  have v: "msg_val (hist (mem s) Tail ! i) = ring_index c i"
    using b inv by (simp add: inv_parts msg_ok_def)
  have "pop_pc s' = Pop_Idle \<longleftrightarrow> length (got s) mod c = i mod c"
    using pop_load_pc(2) [OF st pc] b(3) v by (simp add: ring_index_inj [OF c])
  also have "\<dots> \<longleftrightarrow> length (got s) = i"
    using same_slot_lap [of "length (got s)" c i] b room pushed_le_written [of s] by fastforce
  finally show ?thesis .
qed

text \<open>
  C10: \<open>try_push\<close> refuses exactly when \<open>Capacity - 1\<close> elements lie beyond the \<open>i\<close> removals it
  has seen (all removals, when the load of \<open>head_\<close> returns the newest store), and \<open>try_pop\<close>
  returns empty exactly when it has taken all \<open>i\<close> insertions it has seen.
\<close>

theorem spsc_refusal_exact:
  assumes "pow2_size c" and "spsc_reach c moved d s"
  shows "(\<forall>i item x t s'. push_pc s = Push_Load_Head x t \<and> push_choice i s \<and> push_step c item i s = Inr s'
      \<longrightarrow> (push_pc s' = Push_Idle \<longleftrightarrow> length (pushed s) = i + (c - 1)))
    \<and> (\<forall>i h s'. pop_pc s = Pop_Load_Tail h \<and> pop_choice i s \<and> pop_step c moved i s = Inr s'
      \<longrightarrow> (pop_pc s' = Pop_Idle \<longleftrightarrow> length (got s) = i))"
  using push_refuses_iff [OF assms(1) spsc_reach_inv [OF assms]]
    pop_refuses_iff [OF assms(1) spsc_reach_inv [OF assms]] by blast

theorem spsc_refusal_exact_witness:
  "\<exists>s s'. spsc_reach 2 id (0 :: int) s \<and> push_step 2 9 0 s = Inr s' \<and> push_pc s' = Push_Idle
     \<and> length (pushed s) = 0 + (2 - 1)"
proof (rule demo_reach)
  fix s assume s: "spsc_reach 2 id (0 :: int) s" "pushed s = [7]" "push_pc s = Push_Load_Head 9 1"
    "seen (mem s) Producer Head = 0"
  have inv: "spsc_inv 2 s" using spsc_reach_inv [OF pow2_size_2 s(1)] .
  then have ch: "push_choice 0 s" using s(3,4) by (simp add: push_choice_def can_read_def inv_parts)
  obtain s' where st: "push_step 2 9 0 s = Inr s'" using push_step_inv [OF pow2_size_2 inv ch] by metis
  have "push_pc s' = Push_Idle \<longleftrightarrow> length (pushed s) = 0 + (2 - 1)"
    using spsc_refusal_exact [OF pow2_size_2 s(1)] s(3) ch st by blast
  with s(1,2) st show ?thesis by auto
qed

text \<open>
  A call that runs to its end with the newest stores does to the ring what the sequential
  member function does: \<open>try_push\<close> and \<open>try_pop\<close> return the same and leave the same indices
  and slots, from every reachable state in which their thread is between two calls.
\<close>

theorem spsc_calls_sequential:
  assumes "pow2_size c" and "spsc_reach c moved d s"
  shows "(push_pc s = Push_Idle \<longrightarrow> (\<exists>b s'. push_call c item s = Inr (b, s')
      \<and> try_push (spsc_of c s) item = Inr (b, spsc_of c s')))
    \<and> (pop_pc s = Pop_Idle \<longrightarrow> (\<exists>r s'. pop_call c moved s = Inr (r, s')
      \<and> try_pop moved (spsc_of c s) = Inr (r, spsc_of c s')))"
proof -
  have inv: "spsc_inv c s" using assms by (rule spsc_reach_inv)
  show ?thesis
    using push_call_sequential [OF assms(1) inv, of item] pop_call_sequential [OF assms(1) inv, of moved]
    by metis
qed

theorem spsc_calls_sequential_witness:
  "\<exists>b s'. push_call 2 7 (spsc_threads_init (0 :: int)) = Inr (b, s')
     \<and> try_push (spsc_of 2 (spsc_threads_init 0)) 7 = Inr (b, spsc_of 2 s')"
  using spsc_calls_sequential [OF pow2_size_2 spsc_reach.start, where moved = id and d = "0 :: int" and item = 7]
  by (simp add: spsc_threads_init_def)

end
