(* ===== verification/MemoryOrder.thy ===== *)
theory MemoryOrder
  imports RelAcq
begin

text \<open>
  The one-slot handoff of \<open>examples/memory_order/main.cpp\<close> on the release/acquire machine: the
  producer writes the payload and sets the flag, the consumer spins on the flag and reads the
  payload. The two memory orders are parameters, so that the orders the example chooses can be
  compared with weaker ones.
\<close>

section \<open>Program\<close>

datatype ready_flag = Ready

text \<open>The threads' program counters: the numbered steps of the example.\<close>

datatype handoff_producer = Write_Payload | Publish | Producer_Done
datatype handoff_consumer = Spin | Read_Payload | Consumer_Done

record handoff =
  h_mem :: "(ready_flag, bool, unit, int) machine"
  h_producer :: handoff_producer
  h_consumer :: handoff_consumer
  observed :: int

definition handoff_init :: handoff where
  "handoff_init =
     \<lparr>h_mem = machine_init (\<lambda>_. False) (\<lambda>_. 0), h_producer = Write_Payload, h_consumer = Spin,
      observed = 0\<rparr>"

definition handoff_produce :: "memory_order \<Rightarrow> handoff \<Rightarrow> handoff res" where
  "handoff_produce store_mo s = (case h_producer s of
     Write_Payload \<Rightarrow> res_bind (na_write Producer () 42 (h_mem s))
       (\<lambda>m. Inr (s\<lparr>h_mem := m, h_producer := Publish\<rparr>))
   | Publish \<Rightarrow> Inr (s\<lparr>h_mem := atomic_store store_mo Producer Ready True (h_mem s),
                       h_producer := Producer_Done\<rparr>)
   | Producer_Done \<Rightarrow> Inr s)"

text \<open>\<open>i\<close> is the store the load returns; it matters in the spin loop only.\<close>

definition handoff_consume :: "memory_order \<Rightarrow> nat \<Rightarrow> handoff \<Rightarrow> handoff res" where
  "handoff_consume load_mo i s = (case h_consumer s of
     Spin \<Rightarrow> (let (b, m) = atomic_load load_mo Consumer Ready i (h_mem s) in
       Inr (s\<lparr>h_mem := m, h_consumer := (if b then Read_Payload else Spin)\<rparr>))
   | Read_Payload \<Rightarrow> res_bind (na_read Consumer () (h_mem s))
       (\<lambda>(v, m). Inr (s\<lparr>h_mem := m, observed := v, h_consumer := Consumer_Done\<rparr>))
   | Consumer_Done \<Rightarrow> Inr s)"

text \<open>Any interleaving of the two threads, any readable store for each load.\<close>

inductive handoff_reach :: "memory_order \<Rightarrow> memory_order \<Rightarrow> handoff \<Rightarrow> bool"
  for store_mo load_mo where
  start: "handoff_reach store_mo load_mo handoff_init"
| produce: "handoff_reach store_mo load_mo s \<Longrightarrow> handoff_produce store_mo s = Inr s' \<Longrightarrow>
    handoff_reach store_mo load_mo s'"
| consume: "handoff_reach store_mo load_mo s \<Longrightarrow> can_read (h_mem s) Consumer Ready i \<Longrightarrow>
    handoff_consume load_mo i s = Inr s' \<Longrightarrow> handoff_reach store_mo load_mo s'"

text \<open>The exit code of \<open>main\<close>.\<close>

definition handoff_exit :: "handoff \<Rightarrow> int" where
  "handoff_exit s = (if observed s = 42 then 0 else 1)"

section \<open>Invariant\<close>

definition handoff_inv :: "handoff \<Rightarrow> bool" where
  "handoff_inv s \<longleftrightarrow> (let m = h_mem s in
     (case h_producer s of
        Write_Payload \<Rightarrow> writes m () Producer = 0 \<and> clock m Producer Producer = 0
          \<and> map msg_val (hist m Ready) = [False]
      | Publish \<Rightarrow> cells m () = 42 \<and> writes m () Producer = 1 \<and> clock m Producer Producer = 1
          \<and> map msg_val (hist m Ready) = [False]
      | Producer_Done \<Rightarrow> cells m () = 42 \<and> writes m () Producer = 1
          \<and> (\<exists>m0 m1. hist m Ready = [m0, m1] \<and> \<not> msg_val m0 \<and> msg_val m1 \<and> 1 \<le> msg_clock m1 Producer))
   \<and> writes m () Consumer = 0
   \<and> (h_consumer s = Spin \<longrightarrow> reads m () Producer = 0 \<and> reads m () Consumer = 0)
   \<and> (h_consumer s \<noteq> Spin \<longrightarrow> h_producer s = Producer_Done \<and> 1 \<le> clock m Consumer Producer)
   \<and> (h_consumer s = Consumer_Done \<longrightarrow> observed s = 42))"

lemma handoff_inv_init: "handoff_inv handoff_init"
  by (simp add: handoff_inv_def handoff_init_def machine_init_def)

lemma handoff_produce_inv:
  "handoff_inv s \<Longrightarrow> \<exists>s'. handoff_produce Release s = Inr s' \<and> handoff_inv s'"
  by (cases "h_producer s"; cases "h_consumer s")
    (auto simp: handoff_inv_def handoff_produce_def ra_defs)

lemma handoff_consume_inv:
  assumes "handoff_inv s" and "can_read (h_mem s) Consumer Ready i"
  shows "\<exists>s'. handoff_consume Acquire i s = Inr s' \<and> handoff_inv s'"
proof (cases "h_consumer s")
  case Spin
  with assms show ?thesis
    by (cases "h_producer s"; cases i)
      (auto simp: handoff_inv_def handoff_consume_def ra_defs map_eq_Cons_conv le_max_iff_disj nth_Cons'
        split: if_splits)
next
  case Read_Payload
  with assms show ?thesis by (auto simp: handoff_inv_def handoff_consume_def ra_defs)
next
  case Consumer_Done
  with assms show ?thesis by (auto simp: handoff_consume_def)
qed

lemma handoff_reach_inv: "handoff_reach Release Acquire s \<Longrightarrow> handoff_inv s"
proof (induction rule: handoff_reach.induct)
  case start
  show ?case by (rule handoff_inv_init)
next
  case (produce s s')
  then show ?case using handoff_produce_inv [of s] by simp
next
  case (consume s i s')
  then show ?case using handoff_consume_inv [of s i] by simp
qed

section \<open>Properties\<close>

text \<open>
  C18: with the orders of the example, a release store and an acquire load, no interleaving and
  no stale read runs into a data race: in every reachable state the next step of each thread is
  defined, and when the consumer has finished, the program observed 42 and exits with 0.
\<close>

theorem handoff_correct:
  assumes "handoff_reach Release Acquire s"
  shows "(\<exists>s'. handoff_produce Release s = Inr s')
    \<and> (\<forall>i. can_read (h_mem s) Consumer Ready i \<longrightarrow> (\<exists>s'. handoff_consume Acquire i s = Inr s'))
    \<and> (h_consumer s = Consumer_Done \<longrightarrow> observed s = 42 \<and> handoff_exit s = 0)"
proof -
  have inv: "handoff_inv s" using assms by (rule handoff_reach_inv)
  have "h_consumer s = Consumer_Done \<longrightarrow> observed s = 42"
    using inv by (simp add: handoff_inv_def Let_def)
  then show ?thesis
    using handoff_produce_inv [OF inv] handoff_consume_inv [OF inv] by (auto simp: handoff_exit_def)
qed

text \<open>A complete run: write, publish, one stale read, one fresh read, read the payload.\<close>

fun handoff_sched ::
  "memory_order \<Rightarrow> memory_order \<Rightarrow> nat option list \<Rightarrow> handoff \<Rightarrow> handoff res" where
  "handoff_sched store_mo load_mo [] s = Inr s"
| "handoff_sched store_mo load_mo (None # cs) s =
     res_bind (handoff_produce store_mo s) (handoff_sched store_mo load_mo cs)"
| "handoff_sched store_mo load_mo (Some i # cs) s =
     (if can_read (h_mem s) Consumer Ready i
      then res_bind (handoff_consume load_mo i s) (handoff_sched store_mo load_mo cs)
      else Inr s)"

lemma handoff_sched_reach:
  "handoff_reach store_mo load_mo s \<Longrightarrow> handoff_sched store_mo load_mo cs s = Inr s' \<Longrightarrow>
    handoff_reach store_mo load_mo s'"
proof (induction store_mo load_mo cs s rule: handoff_sched.induct)
  case (2 store_mo load_mo cs s)
  then show ?case by (auto simp: res_bind_Inr_iff intro: handoff_reach.produce)
next
  case (3 store_mo load_mo i cs s)
  then show ?case by (auto simp: res_bind_Inr_iff split: if_splits intro: handoff_reach.consume)
qed simp

lemmas handoff_eval =
  handoff_init_def machine_init_def handoff_produce_def handoff_consume_def ra_defs

lemma handoff_full_run:
  "\<exists>s. handoff_sched Release Acquire [None, None, Some 0, Some 1, Some 1] handoff_init = Inr s
     \<and> h_consumer s = Consumer_Done"
  by (simp add: handoff_eval)

theorem handoff_correct_witness:
  "\<exists>s. handoff_reach Release Acquire s \<and> h_consumer s = Consumer_Done \<and> handoff_exit s = 0"
proof -
  obtain s where s: "handoff_sched Release Acquire [None, None, Some 0, Some 1, Some 1] handoff_init = Inr s"
    "h_consumer s = Consumer_Done" using handoff_full_run by blast
  have "handoff_reach Release Acquire s"
    using handoff_sched_reach [OF handoff_reach.start s(1)] .
  with handoff_correct [OF this] s(2) show ?thesis by blast
qed

text \<open>
  C20: neither order can be weakened. With a relaxed store, or with a relaxed load, some
  interleaving leads to a state in which the consumer has seen the flag and its read of the
  payload is a data race.
\<close>

theorem handoff_needs_release_acquire:
  "(\<exists>s i. handoff_reach Relaxed Acquire s \<and> can_read (h_mem s) Consumer Ready i
      \<and> handoff_consume Acquire i s = Inl Data_Race)
   \<and> (\<exists>s i. handoff_reach Release Relaxed s \<and> can_read (h_mem s) Consumer Ready i
      \<and> handoff_consume Relaxed i s = Inl Data_Race)"
proof (rule conjI)
  let ?cs = "[None, None, Some 1]"
  obtain s where s: "handoff_sched Relaxed Acquire ?cs handoff_init = Inr s"
    "handoff_consume Acquire 1 s = Inl Data_Race" "can_read (h_mem s) Consumer Ready 1"
    by (simp add: handoff_eval)
  with handoff_sched_reach [OF handoff_reach.start s(1)]
  show "\<exists>s i. handoff_reach Relaxed Acquire s \<and> can_read (h_mem s) Consumer Ready i
     \<and> handoff_consume Acquire i s = Inl Data_Race" by blast
  obtain s where s: "handoff_sched Release Relaxed ?cs handoff_init = Inr s"
    "handoff_consume Relaxed 1 s = Inl Data_Race" "can_read (h_mem s) Consumer Ready 1"
    by (simp add: handoff_eval)
  with handoff_sched_reach [OF handoff_reach.start s(1)]
  show "\<exists>s i. handoff_reach Release Relaxed s \<and> can_read (h_mem s) Consumer Ready i
     \<and> handoff_consume Relaxed i s = Inl Data_Race" by blast
qed

end
