(* ===== verification/SpscLiveness.thy ===== *)
theory SpscLiveness
  imports SpscThreads MemoryOrder
begin

text \<open>
  Progress of the two-thread programs: the calls of the queue are wait-free, and in every fair
  execution, in which stores become visible in the end, what was pushed is delivered and the spin
  loop of \<open>examples/memory_order\<close> ends.
\<close>

section \<open>Fairness\<close>

text \<open>
  A thread that moves again and again, whose own steps come closer to a goal and whose distance
  the other steps do not change, reaches it.
\<close>

lemma fair_progress:
  fixes d :: "nat \<Rightarrow> nat"
  assumes fair: "\<And>k. \<exists>j\<ge>k. mine j"
    and own: "\<And>k. k0 \<le> k \<Longrightarrow> \<not> goal k \<Longrightarrow> mine k \<Longrightarrow> goal (Suc k) \<or> d (Suc k) < d k"
    and other: "\<And>k. k0 \<le> k \<Longrightarrow> \<not> mine k \<Longrightarrow> d (Suc k) = d k"
  shows "\<exists>j\<ge>k0. goal j"
proof (rule ccontr)
  assume no: "\<not> (\<exists>j\<ge>k0. goal j)"
  have "False" if "k0 \<le> k" for k
    using that
  proof (induction "d k" arbitrary: k rule: less_induct)
    case less
    have same: "d j = d k" if "k \<le> j" "\<forall>l. k \<le> l \<and> l < j \<longrightarrow> \<not> mine l" for j
      using that
    proof (induction j)
      case (Suc j)
      then show ?case using other [of j] less.prems by (cases "k = Suc j") auto
    qed simp
    define j where "j = (LEAST j. k \<le> j \<and> mine j)"
    have j: "k \<le> j \<and> mine j" unfolding j_def by (rule LeastI_ex) (use fair in blast)
    have "\<not> mine l" if "k \<le> l" "l < j" for l using not_less_Least that unfolding j_def by blast
    then have "d j = d k" using same [of j] j by blast
    moreover have "d (Suc j) < d j" using own [of j] no j less.prems by auto
    ultimately show False using less.hyps [of "Suc j"] j less.prems by simp
  qed
  then show False by blast
qed

section \<open>The calls are wait-free\<close>

text \<open>How many steps of its own a call has still to take at most.\<close>

fun push_left :: "'a push_pc \<Rightarrow> nat" where
  "push_left Push_Idle = 0"
| "push_left (Push_Load_Head x t) = 3"
| "push_left (Push_Write x t next) = 2"
| "push_left (Push_Publish x next) = 1"

fun pop_left :: "'a pop_pc \<Rightarrow> nat" where
  "pop_left Pop_Idle = 0"
| "pop_left (Pop_Load_Tail h) = 3"
| "pop_left (Pop_Take h) = 2"
| "pop_left (Pop_Publish h out) = 1"

text \<open>Runs: the labels tell which thread moved.\<close>

inductive spsc_run :: "nat \<Rightarrow> ('a \<Rightarrow> 'a) \<Rightarrow> thread list \<Rightarrow> 'a spsc_threads \<Rightarrow> 'a spsc_threads \<Rightarrow> bool"
  for c moved where
  stop: "spsc_run c moved [] s s"
| push: "push_choice i s \<Longrightarrow> push_step c item i s = Inr s1 \<Longrightarrow> spsc_run c moved ts s1 s' \<Longrightarrow>
    spsc_run c moved (Producer # ts) s s'"
| pop: "pop_choice i s \<Longrightarrow> pop_step c moved i s = Inr s1 \<Longrightarrow> spsc_run c moved ts s1 s' \<Longrightarrow>
    spsc_run c moved (Consumer # ts) s s'"

inductive_cases spsc_run_NilE: "spsc_run c moved [] s s'"
inductive_cases spsc_run_PushE: "spsc_run c moved (Producer # ts) s s'"
inductive_cases spsc_run_PopE: "spsc_run c moved (Consumer # ts) s s'"

lemma push_step_left:
  assumes "push_step c item i s = Inr s'"
  shows "pop_pc s' = pop_pc s" and "got s' = got s"
    and "push_pc s = Push_Idle \<Longrightarrow> push_left (push_pc s') = 3"
    and "push_pc s \<noteq> Push_Idle \<Longrightarrow> push_left (push_pc s') < push_left (push_pc s)"
  using assms
  by (auto simp: push_step_def Let_def res_bind_Inr_iff split: push_pc.splits prod.splits if_splits)

lemma pop_step_left:
  assumes "pop_step c moved i s = Inr s'"
  shows "push_pc s' = push_pc s" and "pushed s' = pushed s"
    and "pop_pc s = Pop_Idle \<Longrightarrow> pop_left (pop_pc s') = 3"
    and "pop_pc s \<noteq> Pop_Idle \<Longrightarrow> pop_left (pop_pc s') < pop_left (pop_pc s)"
  using assms
  by (auto simp: pop_step_def Let_def res_bind_Inr_iff split: pop_pc.splits prod.splits if_splits)

lemma push_returns:
  assumes "spsc_run c moved ts s s'" and "push_left (push_pc s) \<le> count_list ts Producer"
  shows "\<exists>us vs sm. ts = us @ vs \<and> spsc_run c moved us s sm \<and> spsc_run c moved vs sm s'
    \<and> push_pc sm = Push_Idle \<and> count_list us Producer \<le> push_left (push_pc s)"
  using assms
proof (induction rule: spsc_run.induct)
  case (stop s)
  then have "push_pc s = Push_Idle" by (cases "push_pc s") simp_all
  then show ?case by (auto intro: spsc_run.stop)
next
  case (push i s item s1 ts s')
  show ?case
  proof (cases "push_pc s = Push_Idle")
    case True
    then show ?thesis
      by (intro exI [of _ "[]"] exI [of _ "Producer # ts"] exI [of _ s])
        (auto intro: spsc_run.stop spsc_run.push [OF push.hyps])
  next
    case False
    have lt: "push_left (push_pc s1) < push_left (push_pc s)"
      using push_step_left(4) [OF push.hyps(2) False] .
    then obtain us vs sm where "ts = us @ vs" "spsc_run c moved us s1 sm" "spsc_run c moved vs sm s'"
      "push_pc sm = Push_Idle" "count_list us Producer \<le> push_left (push_pc s1)"
      using push.IH push.prems by auto
    with lt show ?thesis
      by (intro exI [of _ "Producer # us"] exI [of _ vs] exI [of _ sm])
        (auto intro: spsc_run.push [OF push.hyps(1,2)])
  qed
next
  case (pop i s s1 ts s')
  have same: "push_pc s1 = push_pc s" using pop_step_left(1) [OF pop.hyps(2)] .
  then obtain us vs sm where "ts = us @ vs" "spsc_run c moved us s1 sm" "spsc_run c moved vs sm s'"
    "push_pc sm = Push_Idle" "count_list us Producer \<le> push_left (push_pc s)"
    using pop.IH pop.prems by auto
  then show ?case
    by (intro exI [of _ "Consumer # us"] exI [of _ vs] exI [of _ sm])
      (auto intro: spsc_run.pop [OF pop.hyps(1,2)])
qed

lemma pop_returns:
  assumes "spsc_run c moved ts s s'" and "pop_left (pop_pc s) \<le> count_list ts Consumer"
  shows "\<exists>us vs sm. ts = us @ vs \<and> spsc_run c moved us s sm \<and> spsc_run c moved vs sm s'
    \<and> pop_pc sm = Pop_Idle \<and> count_list us Consumer \<le> pop_left (pop_pc s)"
  using assms
proof (induction rule: spsc_run.induct)
  case (stop s)
  then have "pop_pc s = Pop_Idle" by (cases "pop_pc s") simp_all
  then show ?case by (auto intro: spsc_run.stop)
next
  case (pop i s s1 ts s')
  show ?case
  proof (cases "pop_pc s = Pop_Idle")
    case True
    then show ?thesis
      by (intro exI [of _ "[]"] exI [of _ "Consumer # ts"] exI [of _ s])
        (auto intro: spsc_run.stop spsc_run.pop [OF pop.hyps])
  next
    case False
    have lt: "pop_left (pop_pc s1) < pop_left (pop_pc s)"
      using pop_step_left(4) [OF pop.hyps(2) False] .
    then obtain us vs sm where "ts = us @ vs" "spsc_run c moved us s1 sm" "spsc_run c moved vs sm s'"
      "pop_pc sm = Pop_Idle" "count_list us Consumer \<le> pop_left (pop_pc s1)"
      using pop.IH pop.prems by auto
    with lt show ?thesis
      by (intro exI [of _ "Consumer # us"] exI [of _ vs] exI [of _ sm])
        (auto intro: spsc_run.pop [OF pop.hyps(1,2)])
  qed
next
  case (push i s item s1 ts s')
  have same: "pop_pc s1 = pop_pc s" using push_step_left(1) [OF push.hyps(2)] .
  then obtain us vs sm where "ts = us @ vs" "spsc_run c moved us s1 sm" "spsc_run c moved vs sm s'"
    "pop_pc sm = Pop_Idle" "count_list us Consumer \<le> pop_left (pop_pc s)"
    using push.IH push.prems by auto
  then show ?case
    by (intro exI [of _ "Producer # us"] exI [of _ vs] exI [of _ sm])
      (auto intro: spsc_run.push [OF push.hyps(1,2)])
qed

section \<open>Executions\<close>

text \<open>
  An infinite execution: the states \<open>\<sigma>\<close> and, for each step, which thread moved, with the store its
  load returned and, for the producer, the item of a call that starts.
\<close>

fun spsc_moves :: "nat \<Rightarrow> ('a \<Rightarrow> 'a) \<Rightarrow> 'a sched \<Rightarrow> 'a spsc_threads \<Rightarrow> 'a spsc_threads \<Rightarrow> bool" where
  "spsc_moves c moved (Producer_Moves x i) s s' \<longleftrightarrow> push_choice i s \<and> push_step c x i s = Inr s'"
| "spsc_moves c moved (Consumer_Moves i) s s' \<longleftrightarrow> pop_choice i s \<and> pop_step c moved i s = Inr s'"

fun consumer_moves :: "'a sched \<Rightarrow> bool" where
  "consumer_moves (Consumer_Moves i) \<longleftrightarrow> True"
| "consumer_moves (Producer_Moves x i) \<longleftrightarrow> False"

definition spsc_exec :: "nat \<Rightarrow> ('a \<Rightarrow> 'a) \<Rightarrow> 'a \<Rightarrow> (nat \<Rightarrow> 'a spsc_threads) \<Rightarrow> (nat \<Rightarrow> 'a sched) \<Rightarrow> bool" where
  "spsc_exec c moved dflt \<sigma> lab \<longleftrightarrow> \<sigma> 0 = spsc_threads_init dflt
     \<and> (\<forall>k. spsc_moves c moved (lab k) (\<sigma> k) (\<sigma> (Suc k)))"

text \<open>
  What C++ promises of a conforming implementation: a thread is not stopped forever, and a store
  becomes visible to the loads of the other thread after finitely many steps.
\<close>

definition consumer_fair :: "(nat \<Rightarrow> 'a sched) \<Rightarrow> bool" where
  "consumer_fair lab \<longleftrightarrow> (\<forall>k. \<exists>j\<ge>k. consumer_moves (lab j))"

definition tail_visible :: "(nat \<Rightarrow> 'a spsc_threads) \<Rightarrow> (nat \<Rightarrow> 'a sched) \<Rightarrow> bool" where
  "tail_visible \<sigma> lab \<longleftrightarrow> (\<forall>k n. n < length (hist (mem (\<sigma> k)) Tail) \<longrightarrow>
     (\<exists>j. \<forall>l\<ge>j. \<forall>h i. lab l = Consumer_Moves i \<and> pop_pc (\<sigma> l) = Pop_Load_Tail h \<longrightarrow> n \<le> i))"

lemma spsc_exec_reach:
  assumes "spsc_exec c moved d \<sigma> lab"
  shows "spsc_reach c moved d (\<sigma> k)"
proof (induction k)
  case 0
  then show ?case using assms by (simp add: spsc_exec_def spsc_reach.start)
next
  case (Suc k)
  have "spsc_moves c moved (lab k) (\<sigma> k) (\<sigma> (Suc k))" using assms by (simp add: spsc_exec_def)
  with Suc show ?case
    by (cases "lab k") (auto intro: spsc_reach.push spsc_reach.pop)
qed

lemma spsc_moves_grows:
  assumes "spsc_moves c moved e s s'"
  shows "prefix (pushed s) (pushed s')" and "prefix (got s) (got s')"
  using assms
  by (cases e; auto simp: push_step_def pop_step_def Let_def res_bind_Inr_iff
      split: push_pc.splits pop_pc.splits prod.splits if_splits)+

lemma spsc_exec_grows:
  assumes "spsc_exec c moved d \<sigma> lab" and "k \<le> j"
  shows "prefix (pushed (\<sigma> k)) (pushed (\<sigma> j))" and "prefix (got (\<sigma> k)) (got (\<sigma> j))"
proof -
  have step: "spsc_moves c moved (lab k) (\<sigma> k) (\<sigma> (Suc k))" for k
    using assms(1) by (simp add: spsc_exec_def)
  show "prefix (pushed (\<sigma> k)) (pushed (\<sigma> j))" and "prefix (got (\<sigma> k)) (got (\<sigma> j))"
    using assms(2)
    by (induction j rule: dec_induct)
      (auto intro: prefix_order.trans [OF _ spsc_moves_grows(1) [OF step]]
        prefix_order.trans [OF _ spsc_moves_grows(2) [OF step]])
qed

section \<open>What was pushed is delivered\<close>

definition pop_distance :: "'a pop_pc \<Rightarrow> nat" where
  "pop_distance pc = (if pc = Pop_Idle then 4 else pop_left pc)"

text \<open>A load that sees a store newer than the consumer's own progress lets the call go on.\<close>

lemma pop_sees_item:
  assumes c: "pow2_size c" and inv: "spsc_inv c s" and pc: "pop_pc s = Pop_Load_Tail h"
    and ch: "pop_choice i s" and new: "length (got s) < i" and st: "pop_step c moved i s = Inr s'"
  shows "pop_pc s' = Pop_Take h"
  using pop_refuses_iff [OF c inv pc ch st] pop_load_pc(2) [OF st pc] new by (auto split: if_splits)

lemma pop_step_advances:
  assumes c: "pow2_size c" and inv: "spsc_inv c s" and ch: "pop_choice i s"
    and st: "pop_step c moved i s = Inr s'"
    and see: "\<And>h. pop_pc s = Pop_Load_Tail h \<Longrightarrow> length (got s) < i"
  shows "length (got s) < length (got s') \<or> pop_distance (pop_pc s') < pop_distance (pop_pc s)"
proof (cases "pop_pc s")
  case Pop_Idle
  then show ?thesis using pop_load_pc(1) [OF st] by (simp add: pop_distance_def)
next
  case (Pop_Load_Tail h)
  then show ?thesis using pop_sees_item [OF c inv _ ch see st] by (simp add: pop_distance_def)
next
  case (Pop_Take h)
  then show ?thesis using st by (auto simp: pop_step_def res_bind_Inr_iff pop_distance_def split: if_splits)
next
  case (Pop_Publish h out)
  then show ?thesis using st by (auto simp: pop_step_def)
qed

lemma got_grows:
  assumes c: "pow2_size c" and ex: "spsc_exec c moved d \<sigma> lab" and fair: "consumer_fair lab"
    and vis: "\<And>l h i. k0 \<le> l \<Longrightarrow> lab l = Consumer_Moves i \<Longrightarrow> pop_pc (\<sigma> l) = Pop_Load_Tail h \<Longrightarrow> n \<le> i"
    and few: "length (got (\<sigma> k0)) < n"
  shows "\<exists>j\<ge>k0. length (got (\<sigma> k0)) < length (got (\<sigma> j))"
proof (rule fair_progress [where mine = "\<lambda>k. consumer_moves (lab k)"
    and d = "\<lambda>k. pop_distance (pop_pc (\<sigma> k))"])
  show "\<exists>j\<ge>k. consumer_moves (lab j)" for k using fair by (simp add: consumer_fair_def)
next
  fix k assume k: "k0 \<le> k" "\<not> consumer_moves (lab k)"
  then obtain x i where "lab k = Producer_Moves x i" by (cases "lab k") auto
  moreover have "spsc_moves c moved (lab k) (\<sigma> k) (\<sigma> (Suc k))" using ex by (simp add: spsc_exec_def)
  ultimately show "pop_distance (pop_pc (\<sigma> (Suc k))) = pop_distance (pop_pc (\<sigma> k))"
    using push_step_left(1) by fastforce
next
  fix k assume k: "k0 \<le> k" "\<not> length (got (\<sigma> k0)) < length (got (\<sigma> k))" "consumer_moves (lab k)"
  have "length (got (\<sigma> k0)) \<le> length (got (\<sigma> k))"
    using spsc_exec_grows(2) [OF ex k(1)] by (rule prefix_length_le)
  with k(2) have g: "length (got (\<sigma> k)) = length (got (\<sigma> k0))" by simp
  obtain i where i: "lab k = Consumer_Moves i" using k(3) by (cases "lab k") auto
  have st: "pop_choice i (\<sigma> k)" "pop_step c moved i (\<sigma> k) = Inr (\<sigma> (Suc k))"
    using ex i unfolding spsc_exec_def by (metis spsc_moves.simps(2))+
  have inv: "spsc_inv c (\<sigma> k)" using spsc_reach_inv [OF c spsc_exec_reach [OF ex]] .
  have "length (got (\<sigma> k)) < i" if "pop_pc (\<sigma> k) = Pop_Load_Tail h" for h
    using vis [OF k(1) i that] few g by simp
  from pop_step_advances [OF c inv st this]
  show "length (got (\<sigma> k0)) < length (got (\<sigma> (Suc k)))
    \<or> pop_distance (pop_pc (\<sigma> (Suc k))) < pop_distance (pop_pc (\<sigma> k))" by (simp add: g)
qed

lemma got_reaches:
  assumes c: "pow2_size c" and ex: "spsc_exec c moved d \<sigma> lab" and fair: "consumer_fair lab"
    and vis: "tail_visible \<sigma> lab" and n: "n < length (hist (mem (\<sigma> k)) Tail)" and m: "m \<le> n"
  shows "\<exists>j. m \<le> length (got (\<sigma> j))"
  using m
proof (induction m)
  case (Suc m)
  then obtain j where j: "m \<le> length (got (\<sigma> j))" by auto
  obtain j' where j': "\<And>l h i. j' \<le> l \<Longrightarrow> lab l = Consumer_Moves i \<Longrightarrow> pop_pc (\<sigma> l) = Pop_Load_Tail h \<Longrightarrow> n \<le> i"
    using vis n unfolding tail_visible_def by blast
  let ?k = "max j j'"
  have "m \<le> length (got (\<sigma> ?k))"
    using j prefix_length_le [OF spsc_exec_grows(2) [OF ex, of j ?k]] by simp
  then consider "Suc m \<le> length (got (\<sigma> ?k))" | "length (got (\<sigma> ?k)) = m" by linarith
  then show ?case
  proof cases
    case 2
    have "\<exists>i\<ge>?k. length (got (\<sigma> ?k)) < length (got (\<sigma> i))"
      by (rule got_grows [OF c ex fair, of ?k n]) (use j' Suc.prems 2 in auto)
    with 2 show ?thesis by (metis Suc_leI)
  qed blast
qed simp

section \<open>An execution for every schedule\<close>

text \<open>\<open>who\<close> says which thread moves when, and every load returns the newest store.\<close>

fun newest_label :: "'a \<Rightarrow> thread \<Rightarrow> 'a spsc_threads \<Rightarrow> 'a sched" where
  "newest_label x Producer s = Producer_Moves x (case push_pc s of
     Push_Idle \<Rightarrow> newest s Tail | Push_Load_Head _ _ \<Rightarrow> newest s Head | _ \<Rightarrow> 0)"
| "newest_label x Consumer s = Consumer_Moves (case pop_pc s of
     Pop_Idle \<Rightarrow> newest s Head | Pop_Load_Tail _ \<Rightarrow> newest s Tail | _ \<Rightarrow> 0)"

fun sched_step :: "nat \<Rightarrow> ('a \<Rightarrow> 'a) \<Rightarrow> 'a sched \<Rightarrow> 'a spsc_threads \<Rightarrow> 'a spsc_threads" where
  "sched_step c moved (Producer_Moves x i) s = projr (push_step c x i s)"
| "sched_step c moved (Consumer_Moves i) s = projr (pop_step c moved i s)"

primrec newest_states :: "nat \<Rightarrow> ('a \<Rightarrow> 'a) \<Rightarrow> 'a \<Rightarrow> 'a \<Rightarrow> (nat \<Rightarrow> thread) \<Rightarrow> nat \<Rightarrow> 'a spsc_threads" where
  "newest_states c moved d x who 0 = spsc_threads_init d"
| "newest_states c moved d x who (Suc k) =
     (let s = newest_states c moved d x who k in sched_step c moved (newest_label x (who k) s) s)"

definition newest_labels :: "nat \<Rightarrow> ('a \<Rightarrow> 'a) \<Rightarrow> 'a \<Rightarrow> 'a \<Rightarrow> (nat \<Rightarrow> thread) \<Rightarrow> nat \<Rightarrow> 'a sched" where
  "newest_labels c moved d x who k = newest_label x (who k) (newest_states c moved d x who k)"

lemma newest_label_moves:
  assumes c: "pow2_size c" and inv: "spsc_inv c s"
  shows "spsc_moves c moved (newest_label x t s) s (sched_step c moved (newest_label x t s) s)"
proof (cases t)
  case Producer
  let ?i = "case push_pc s of Push_Idle \<Rightarrow> newest s Tail | Push_Load_Head _ _ \<Rightarrow> newest s Head | _ \<Rightarrow> 0"
  have "push_choice ?i s"
    using newest_choice(1,2) [OF inv] by (cases "push_pc s") (simp_all add: push_choice_def)
  with push_step_inv [OF c inv this, of x] Producer show ?thesis by auto
next
  case Consumer
  let ?i = "case pop_pc s of Pop_Idle \<Rightarrow> newest s Head | Pop_Load_Tail _ \<Rightarrow> newest s Tail | _ \<Rightarrow> 0"
  have "pop_choice ?i s"
    using newest_choice(3,4) [OF inv] by (cases "pop_pc s") (simp_all add: pop_choice_def)
  with pop_step_inv [OF c inv this, of moved] Consumer show ?thesis by auto
qed

lemma spsc_moves_inv:
  "pow2_size c \<Longrightarrow> spsc_inv c s \<Longrightarrow> spsc_moves c moved e s s' \<Longrightarrow> spsc_inv c s'"
proof (cases e)
  case (Producer_Moves x i)
  assume "pow2_size c" "spsc_inv c s" "spsc_moves c moved e s s'"
  with push_step_inv [of c s i x] Producer_Moves show ?thesis by auto
next
  case (Consumer_Moves i)
  assume "pow2_size c" "spsc_inv c s" "spsc_moves c moved e s s'"
  with pop_step_inv [of c s i moved] Consumer_Moves show ?thesis by auto
qed

lemma newest_exec:
  assumes c: "pow2_size c"
  shows "spsc_exec c moved d (newest_states c moved d x who) (newest_labels c moved d x who)"
proof -
  let ?s = "newest_states c moved d x who"
  have step: "spsc_moves c moved (newest_labels c moved d x who k) (?s k) (?s (Suc k))"
    if "spsc_inv c (?s k)" for k
    using newest_label_moves [OF c that] by (simp add: newest_labels_def Let_def)
  have "spsc_inv c (?s k)" for k
  proof (induction k)
    case 0
    then show ?case by (simp add: spsc_inv_init pow2_size_pos [OF c])
  next
    case (Suc k)
    show ?case by (rule spsc_moves_inv [OF c Suc step [OF Suc]])
  qed
  with step show ?thesis by (simp add: spsc_exec_def)
qed

lemma newest_visible:
  assumes c: "pow2_size c"
  shows "tail_visible (newest_states c moved d x who) (newest_labels c moved d x who)"
  unfolding tail_visible_def
proof (intro allI impI)
  let ?s = "newest_states c moved d x who" and ?lab = "newest_labels c moved d x who"
  fix k n assume n: "n < length (hist (mem (?s k)) Tail)"
  note ex = newest_exec [OF c, of moved d x who]
  have len: "length (hist (mem (?s l)) Tail) = Suc (length (pushed (?s l)))" for l
    using spsc_reach_inv [OF c spsc_exec_reach [OF ex, of l]] by (simp add: inv_parts)
  have "n \<le> i" if "k \<le> l" "?lab l = Consumer_Moves i" "pop_pc (?s l) = Pop_Load_Tail h" for l h i
  proof -
    have "length (pushed (?s k)) \<le> length (pushed (?s l))"
      using spsc_exec_grows(1) [OF ex that(1)] by (rule prefix_length_le)
    moreover have "i = length (hist (mem (?s l)) Tail) - 1"
      using that(2,3) by (cases "who l") (simp_all add: newest_labels_def newest_def)
    ultimately show ?thesis using n len by simp
  qed
  then show "\<exists>j. \<forall>l\<ge>j. \<forall>h i. ?lab l = Consumer_Moves i \<and> pop_pc (?s l) = Pop_Load_Tail h \<longrightarrow> n \<le> i"
    by blast
qed

section \<open>Properties of the queue\<close>

text \<open>
  C6: The calls are wait-free. In every reachable state each thread can take its next step, whatever
  the other does, and in every run, however the other thread interleaves, a call of \<open>try_push\<close> or
  \<open>try_pop\<close> that has begun returns after at most three more steps of its own.
\<close>

theorem spsc_wait_free:
  assumes c: "pow2_size c" and s: "spsc_reach c moved d s"
  shows "(\<exists>i s'. push_choice i s \<and> push_step c item i s = Inr s')
    \<and> (\<exists>i s'. pop_choice i s \<and> pop_step c moved i s = Inr s')
    \<and> (\<forall>ts s'. spsc_run c moved ts s s' \<and> 3 \<le> count_list ts Producer \<longrightarrow>
        (\<exists>us vs sm. ts = us @ vs \<and> spsc_run c moved us s sm \<and> spsc_run c moved vs sm s'
           \<and> push_pc sm = Push_Idle \<and> count_list us Producer \<le> 3))
    \<and> (\<forall>ts s'. spsc_run c moved ts s s' \<and> 3 \<le> count_list ts Consumer \<longrightarrow>
        (\<exists>us vs sm. ts = us @ vs \<and> spsc_run c moved us s sm \<and> spsc_run c moved vs sm s'
           \<and> pop_pc sm = Pop_Idle \<and> count_list us Consumer \<le> 3))"
proof (intro conjI allI impI)
  have inv: "spsc_inv c s" using spsc_reach_inv [OF c s] .
  from newest_label_moves [OF c inv, of moved item Producer] newest_label_moves [OF c inv, of moved item Consumer]
  show "\<exists>i s'. push_choice i s \<and> push_step c item i s = Inr s'"
    "\<exists>i s'. pop_choice i s \<and> pop_step c moved i s = Inr s'" by auto
next
  fix ts s' assume r: "spsc_run c moved ts s s' \<and> 3 \<le> count_list ts Producer"
  have "push_left (push_pc s) \<le> 3" by (cases "push_pc s") simp_all
  then show "\<exists>us vs sm. ts = us @ vs \<and> spsc_run c moved us s sm \<and> spsc_run c moved vs sm s'
      \<and> push_pc sm = Push_Idle \<and> count_list us Producer \<le> 3"
    using push_returns [of c moved ts s s'] r by (meson order_trans)
next
  fix ts s' assume r: "spsc_run c moved ts s s' \<and> 3 \<le> count_list ts Consumer"
  have "pop_left (pop_pc s) \<le> 3" by (cases "pop_pc s") simp_all
  then show "\<exists>us vs sm. ts = us @ vs \<and> spsc_run c moved us s sm \<and> spsc_run c moved vs sm s'
      \<and> pop_pc sm = Pop_Idle \<and> count_list us Consumer \<le> 3"
    using pop_returns [of c moved ts s s'] r by (meson order_trans)
qed

theorem spsc_wait_free_witness:
  "\<exists>s i s'. spsc_reach 2 id (0 :: int) s \<and> push_pc s = Push_Load_Head 9 1
     \<and> push_choice i s \<and> push_step 2 5 i s = Inr s'"
proof (rule demo_reach)
  fix s assume s: "spsc_reach 2 id (0 :: int) s" "push_pc s = Push_Load_Head 9 1"
  from spsc_wait_free [OF pow2_size_2 s(1), of 5] s show ?thesis by blast
qed

lemma prefix_nth: "prefix xs ys \<Longrightarrow> n < length xs \<Longrightarrow> ys ! n = xs ! n"
  by (auto simp: prefix_def nth_append)

text \<open>
  C3: Whatever was pushed is delivered, in its place: in every infinite execution in which the
  consumer keeps calling \<open>try_pop\<close> and stores become visible after finitely many steps, the
  \<open>n\<close>-th item the producer pushed is the \<open>n\<close>-th value the consumer gets at some time, whether the
  producer goes on or stops.
\<close>

theorem spsc_delivers:
  assumes c: "pow2_size c" and ex: "spsc_exec c moved d \<sigma> lab" and fair: "consumer_fair lab"
    and vis: "tail_visible \<sigma> lab" and n: "n < length (pushed (\<sigma> k))"
  shows "\<exists>j. n < length (got (\<sigma> j)) \<and> got (\<sigma> j) ! n = pushed (\<sigma> k) ! n"
proof -
  have inv: "spsc_inv c (\<sigma> i)" for i using spsc_reach_inv [OF c spsc_exec_reach [OF ex]] .
  have "Suc n < length (hist (mem (\<sigma> k)) Tail)" using inv [of k] n by (simp add: inv_parts)
  from got_reaches [OF c ex fair vis this order_refl] obtain j where j: "n < length (got (\<sigma> j))" by (auto simp: Suc_le_eq)
  let ?m = "max j k"
  have "prefix (got (\<sigma> ?m)) (pushed (\<sigma> ?m))" by (rule got_prefix_pushed [OF inv])
  moreover have "prefix (pushed (\<sigma> k)) (pushed (\<sigma> ?m))" "prefix (got (\<sigma> j)) (got (\<sigma> ?m))"
    using spsc_exec_grows [OF ex, of k ?m] spsc_exec_grows [OF ex, of j ?m] by simp_all
  ultimately have "got (\<sigma> j) ! n = pushed (\<sigma> k) ! n"
    using j n prefix_nth prefix_length_le by (metis order_less_le_trans)
  with j show ?thesis by blast
qed

text \<open>The producer pushes 7 in its first four steps, and then only the consumer moves.\<close>

theorem spsc_delivers_witness:
  "\<exists>j. got (newest_states 2 id (0 :: int) 7 (\<lambda>k. if k < 4 then Producer else Consumer) j) ! 0 = 7"
proof -
  let ?who = "\<lambda>k. if k < (4 :: nat) then Producer else Consumer"
  let ?s = "newest_states 2 id (0 :: int) 7 ?who" and ?lab = "newest_labels 2 id (0 :: int) 7 ?who"
  have fair: "consumer_fair ?lab"
    unfolding consumer_fair_def
  proof
    fix k
    have "consumer_moves (?lab (max 4 k))" by (simp add: newest_labels_def)
    then show "\<exists>j\<ge>k. consumer_moves (?lab j)" by (meson max.cobounded2)
  qed
  have "pushed (?s 4) = [7]"
    by (simp add: eval_nat_numeral spsc_eval newest_def)
  then have "0 < length (pushed (?s 4))" "pushed (?s 4) ! 0 = 7" by simp_all
  from spsc_delivers [OF pow2_size_2 newest_exec [OF pow2_size_2] fair newest_visible [OF pow2_size_2] this(1)] this(2)
  show ?thesis by metis
qed

section \<open>The spin loop ends\<close>

text \<open>An infinite execution of the handoff: \<open>None\<close> moves the producer, \<open>Some i\<close> the consumer.\<close>

fun handoff_moves :: "nat option \<Rightarrow> handoff \<Rightarrow> handoff \<Rightarrow> bool" where
  "handoff_moves None s s' \<longleftrightarrow> handoff_produce Release s = Inr s'"
| "handoff_moves (Some i) s s' \<longleftrightarrow> can_read (h_mem s) Consumer Ready i \<and> handoff_consume Acquire i s = Inr s'"

definition handoff_exec :: "(nat \<Rightarrow> handoff) \<Rightarrow> (nat \<Rightarrow> nat option) \<Rightarrow> bool" where
  "handoff_exec \<sigma> lab \<longleftrightarrow> \<sigma> 0 = handoff_init \<and> (\<forall>k. handoff_moves (lab k) (\<sigma> k) (\<sigma> (Suc k)))"

definition handoff_fair :: "(nat \<Rightarrow> nat option) \<Rightarrow> bool" where
  "handoff_fair lab \<longleftrightarrow> (\<forall>k. \<exists>j\<ge>k. lab j = None) \<and> (\<forall>k. \<exists>j\<ge>k. lab j \<noteq> None)"

definition flag_visible :: "(nat \<Rightarrow> handoff) \<Rightarrow> (nat \<Rightarrow> nat option) \<Rightarrow> bool" where
  "flag_visible \<sigma> lab \<longleftrightarrow> (\<forall>k n. n < length (hist (h_mem (\<sigma> k)) Ready) \<longrightarrow>
     (\<exists>j. \<forall>l\<ge>j. \<forall>i. lab l = Some i \<and> h_consumer (\<sigma> l) = Spin \<longrightarrow> n \<le> i))"

fun producer_left :: "handoff_producer \<Rightarrow> nat" where
  "producer_left Write_Payload = 2"
| "producer_left Publish = 1"
| "producer_left Producer_Done = 0"

fun consumer_left :: "handoff_consumer \<Rightarrow> nat" where
  "consumer_left Spin = 2"
| "consumer_left Read_Payload = 1"
| "consumer_left Consumer_Done = 0"

lemma handoff_exec_reach:
  assumes "handoff_exec \<sigma> lab"
  shows "handoff_reach Release Acquire (\<sigma> k)"
proof (induction k)
  case 0
  then show ?case using assms by (simp add: handoff_exec_def handoff_reach.start)
next
  case (Suc k)
  have "handoff_moves (lab k) (\<sigma> k) (\<sigma> (Suc k))" using assms by (simp add: handoff_exec_def)
  with Suc show ?case
    by (cases "lab k") (auto intro: handoff_reach.produce handoff_reach.consume)
qed

lemma handoff_produce_moves:
  assumes "handoff_produce mo s = Inr s'"
  shows "h_consumer s' = h_consumer s" and "h_producer s = Producer_Done \<Longrightarrow> s' = s"
    and "h_producer s \<noteq> Producer_Done \<Longrightarrow> producer_left (h_producer s') < producer_left (h_producer s)"
  using assms
  by (auto simp: handoff_produce_def res_bind_Inr_iff split: handoff_producer.splits)

lemma handoff_consume_moves:
  assumes "handoff_consume mo i s = Inr s'"
  shows "h_producer s' = h_producer s"
    and "h_consumer s = Read_Payload \<Longrightarrow> h_consumer s' = Consumer_Done"
    and "h_consumer s = Spin \<Longrightarrow> msg_val (hist (h_mem s) Ready ! i) \<Longrightarrow> h_consumer s' = Read_Payload"
  using assms
  by (auto simp: handoff_consume_def atomic_load_def Let_def res_bind_Inr_iff split: handoff_consumer.splits)

lemma handoff_producer_ends:
  assumes ex: "handoff_exec \<sigma> lab" and fair: "handoff_fair lab"
  obtains k where "\<And>l. k \<le> l \<Longrightarrow> h_producer (\<sigma> l) = Producer_Done"
proof -
  have move: "handoff_moves (lab k) (\<sigma> k) (\<sigma> (Suc k))" for k using ex by (simp add: handoff_exec_def)
  have "\<exists>j\<ge>0. h_producer (\<sigma> j) = Producer_Done"
  proof (rule fair_progress [where mine = "\<lambda>k. lab k = None" and d = "\<lambda>k. producer_left (h_producer (\<sigma> k))"])
    show "\<exists>j\<ge>k. lab j = None" for k using fair by (simp add: handoff_fair_def)
    show "h_producer (\<sigma> (Suc k)) = Producer_Done
        \<or> producer_left (h_producer (\<sigma> (Suc k))) < producer_left (h_producer (\<sigma> k))"
      if "h_producer (\<sigma> k) \<noteq> Producer_Done" "lab k = None" for k
      using move [of k] that handoff_produce_moves(3) by auto
    show "producer_left (h_producer (\<sigma> (Suc k))) = producer_left (h_producer (\<sigma> k))" if "lab k \<noteq> None" for k
      using move [of k] that handoff_consume_moves(1) by fastforce
  qed
  then obtain k where k: "h_producer (\<sigma> k) = Producer_Done" by blast
  have "h_producer (\<sigma> l) = Producer_Done" if "k \<le> l" for l
    using that
  proof (induction l rule: dec_induct)
    case (step l)
    then show ?case
      using move [of l] handoff_produce_moves(2) handoff_consume_moves(1) by (cases "lab l") fastforce+
  qed (rule k)
  with that show thesis by blast
qed

text \<open>Once only the store of the flag is left to read, every step of the consumer brings it closer to its end.\<close>

lemma handoff_consumer_progress:
  assumes st: "can_read (h_mem s) Consumer Ready i" "handoff_consume Acquire i s = Inr s'"
    and two: "length (hist (h_mem s) Ready) = 2" "msg_val (hist (h_mem s) Ready ! 1)"
    and i: "h_consumer s = Spin \<Longrightarrow> 1 \<le> i" and running: "h_consumer s \<noteq> Consumer_Done"
  shows "h_consumer s' = Consumer_Done \<or> consumer_left (h_consumer s') < consumer_left (h_consumer s)"
proof (cases "h_consumer s")
  case Spin
  have "i < 2" using st(1) two(1) by (simp add: can_read_def)
  with i [OF Spin] have "i = 1" by simp
  with two handoff_consume_moves(3) [OF st(2) Spin] Spin show ?thesis by simp
next
  case Read_Payload
  with handoff_consume_moves(2) [OF st(2)] show ?thesis by simp
qed (use running in simp)

text \<open>
  C19: The example terminates: in every infinite execution in which both threads keep running and
  the flag becomes visible after finitely many steps, the spin loop ends, the consumer finishes,
  and the program exits with 0.
\<close>

theorem handoff_terminates:
  assumes ex: "handoff_exec \<sigma> lab" and fair: "handoff_fair lab" and vis: "flag_visible \<sigma> lab"
  shows "\<exists>j. h_consumer (\<sigma> j) = Consumer_Done \<and> handoff_exit (\<sigma> j) = 0"
proof -
  have move: "handoff_moves (lab k) (\<sigma> k) (\<sigma> (Suc k))" for k using ex by (simp add: handoff_exec_def)
  have inv: "handoff_inv (\<sigma> k)" for k using handoff_reach_inv [OF handoff_exec_reach [OF ex]] .
  obtain k where k: "\<And>l. k \<le> l \<Longrightarrow> h_producer (\<sigma> l) = Producer_Done"
    using handoff_producer_ends [OF ex fair] by metis
  have two: "length (hist (h_mem (\<sigma> l)) Ready) = 2" "msg_val (hist (h_mem (\<sigma> l)) Ready ! 1)" if "k \<le> l" for l
    using inv [of l] k [OF that] by (auto simp: handoff_inv_def Let_def)
  have "1 < length (hist (h_mem (\<sigma> k)) Ready)" using two [of k] by simp
  then obtain j where j: "\<And>l i. j \<le> l \<Longrightarrow> lab l = Some i \<Longrightarrow> h_consumer (\<sigma> l) = Spin \<Longrightarrow> 1 \<le> i"
    using vis unfolding flag_visible_def by blast
  have "\<exists>l\<ge>max j k. h_consumer (\<sigma> l) = Consumer_Done"
  proof (rule fair_progress [where mine = "\<lambda>k. lab k \<noteq> None" and d = "\<lambda>k. consumer_left (h_consumer (\<sigma> k))"])
    show "\<exists>j\<ge>k. lab j \<noteq> None" for k using fair by (simp add: handoff_fair_def)
    show "consumer_left (h_consumer (\<sigma> (Suc l))) = consumer_left (h_consumer (\<sigma> l))" if "\<not> lab l \<noteq> None" for l
      using move [of l] that handoff_produce_moves(1) by auto
    show "h_consumer (\<sigma> (Suc l)) = Consumer_Done
        \<or> consumer_left (h_consumer (\<sigma> (Suc l))) < consumer_left (h_consumer (\<sigma> l))"
      if l: "max j k \<le> l" "h_consumer (\<sigma> l) \<noteq> Consumer_Done" "lab l \<noteq> None" for l
    proof -
      obtain i where i: "lab l = Some i" using l(3) by blast
      show ?thesis using move [of l] l i two [of l] j [of l i] by (intro handoff_consumer_progress) simp_all
    qed
  qed
  then obtain l where l: "h_consumer (\<sigma> l) = Consumer_Done" by blast
  then have "observed (\<sigma> l) = 42" using inv [of l] by (simp add: handoff_inv_def Let_def)
  with l show ?thesis by (auto simp: handoff_exit_def)
qed

text \<open>The two threads take turns, and every load returns the newest store.\<close>

definition handoff_label :: "nat \<Rightarrow> handoff \<Rightarrow> nat option" where
  "handoff_label k s = (if even k then None else Some (length (hist (h_mem s) Ready) - 1))"

fun handoff_sched_step :: "nat option \<Rightarrow> handoff \<Rightarrow> handoff" where
  "handoff_sched_step None s = projr (handoff_produce Release s)"
| "handoff_sched_step (Some i) s = projr (handoff_consume Acquire i s)"

primrec turns :: "nat \<Rightarrow> handoff" where
  "turns 0 = handoff_init"
| "turns (Suc k) = handoff_sched_step (handoff_label k (turns k)) (turns k)"

definition turn_label :: "nat \<Rightarrow> nat option" where
  "turn_label k = handoff_label k (turns k)"

text \<open>No thread can know of more stores than there are.\<close>

definition known_stores :: "handoff \<Rightarrow> bool" where
  "known_stores s \<longleftrightarrow> hist (h_mem s) Ready \<noteq> []
     \<and> (\<forall>t. seen (h_mem s) t Ready < length (hist (h_mem s) Ready))
     \<and> (\<forall>m \<in> set (hist (h_mem s) Ready). msg_seen m Ready < length (hist (h_mem s) Ready))"

lemma known_stores_init: "known_stores handoff_init"
  by (simp add: known_stores_def handoff_init_def machine_init_def)

lemma known_stores_moves:
  assumes "known_stores s" and "handoff_moves e s s'"
  shows "known_stores s' \<and> length (hist (h_mem s) Ready) \<le> length (hist (h_mem s') Ready)"
  using assms
  by (cases e) (fastforce simp: known_stores_def handoff_produce_def handoff_consume_def ra_defs
      res_bind_Inr_iff less_Suc_eq split: handoff_producer.splits handoff_consumer.splits if_splits)+

lemma turns_move:
  assumes "handoff_inv (turns k)" and "known_stores (turns k)"
  shows "handoff_moves (turn_label k) (turns k) (turns (Suc k))"
proof (cases "turn_label k")
  case None
  with handoff_produce_inv [OF assms(1)] show ?thesis by (auto simp: turn_label_def)
next
  case (Some i)
  then have "i = length (hist (h_mem (turns k)) Ready) - 1"
    by (auto simp: turn_label_def handoff_label_def split: if_splits)
  then have "can_read (h_mem (turns k)) Consumer Ready i"
    using assms(2) by (auto simp: known_stores_def can_read_def less_diff_conv2 Suc_le_eq)
      (metis Suc_pred length_greater_0_conv less_Suc_eq_le)
  with handoff_consume_inv [OF assms(1) this] Some show ?thesis by (auto simp: turn_label_def)
qed

lemma turns_exec: "handoff_exec turns turn_label"
  and turns_known: "known_stores (turns k)"
proof -
  have "handoff_reach Release Acquire (turns k) \<and> known_stores (turns k)" for k
  proof (induction k)
    case 0
    then show ?case using known_stores_init by (simp add: handoff_reach.start)
  next
    case (Suc k)
    have "handoff_inv (turns k)" using Suc handoff_reach_inv by blast
    from turns_move [OF this] Suc have m: "handoff_moves (turn_label k) (turns k) (turns (Suc k))" by blast
    then have "handoff_reach Release Acquire (turns (Suc k))"
      using Suc by (cases "turn_label k") (auto intro: handoff_reach.produce handoff_reach.consume simp del: turns.simps)
    then show ?case using known_stores_moves [OF _ m] Suc by blast
  qed
  then show "handoff_exec turns turn_label" "known_stores (turns k)"
    using turns_move handoff_reach_inv by (auto simp: handoff_exec_def simp del: turns.simps(2))
qed

theorem handoff_terminates_witness:
  "\<exists>j. h_consumer (turns j) = Consumer_Done \<and> handoff_exit (turns j) = 0"
proof (rule handoff_terminates [OF turns_exec])
  have "turn_label (2 * k) = None" "turn_label (2 * k + 1) \<noteq> None" for k
    by (simp_all add: turn_label_def handoff_label_def)
  then show "handoff_fair turn_label"
    unfolding handoff_fair_def by (metis le_add1 mult_2 trans_le_add1)
next
  show "flag_visible turns turn_label"
    unfolding flag_visible_def
  proof (intro allI impI)
    fix k n assume n: "n < length (hist (h_mem (turns k)) Ready)"
    have "length (hist (h_mem (turns k)) Ready) \<le> length (hist (h_mem (turns l)) Ready)" if "k \<le> l" for l
      using that
    proof (induction l rule: dec_induct)
      case (step l)
      have "handoff_moves (turn_label l) (turns l) (turns (Suc l))"
        using turns_exec unfolding handoff_exec_def by blast
      with step known_stores_moves [OF turns_known] show ?case by (meson order_trans)
    qed simp
    then have "n \<le> i" if "k \<le> l" "turn_label l = Some i" for l i
      using that n by (fastforce simp: turn_label_def handoff_label_def split: if_splits)
    then show "\<exists>j. \<forall>l\<ge>j. \<forall>i. turn_label l = Some i \<and> h_consumer (turns l) = Spin \<longrightarrow> n \<le> i" by blast
  qed
qed

end
