(* ===== verification/SpscEmpty.thy ===== *)
theory SpscEmpty
  imports SpscThreads
begin

text \<open>
  \<open>SpscQueue::empty()\<close> while the other thread runs. It loads both indices with acquire order, in
  the order the compiler chooses for the operands of \<open>==\<close>, and each load may return a stale value.
  The producer and the consumer may call it between their calls of \<open>try_push\<close> and \<open>try_pop\<close>.
\<close>

section \<open>The call\<close>

text \<open>A thread is not in the call, or has loaded one index, or the call has returned.\<close>

datatype empty_pc = Empty_Idle | Empty_Loaded spsc_index size_t | Empty_Returned bool

record 'a spsc_observed =
  oq :: "'a spsc_threads"
  o_pc :: "thread \<Rightarrow> empty_pc"

definition observed_init :: "'a \<Rightarrow> 'a spsc_observed" where
  "observed_init dflt = \<lparr>oq = spsc_threads_init dflt, o_pc = (\<lambda>_. Empty_Idle)\<rparr>"

fun other_index :: "spsc_index \<Rightarrow> spsc_index" where
  "other_index Head = Tail"
| "other_index Tail = Head"

text \<open>Which index the next load of the call reads, when \<open>l\<close> is the operand evaluated first.\<close>

fun empty_reads :: "spsc_index \<Rightarrow> empty_pc \<Rightarrow> spsc_index" where
  "empty_reads l (Empty_Loaded first v) = other_index first"
| "empty_reads l _ = l"

definition empty_step :: "thread \<Rightarrow> spsc_index \<Rightarrow> nat \<Rightarrow> 'a spsc_observed \<Rightarrow> 'a spsc_observed" where
  "empty_step t l i s =
     (let (v, m) = atomic_load Acquire t (empty_reads l (o_pc s t)) i (mem (oq s)) in
      s\<lparr>oq := (oq s)\<lparr>mem := m\<rparr>,
        o_pc := (o_pc s)(t := (case o_pc s t of
          Empty_Loaded first w \<Rightarrow> Empty_Returned (w = v)
        | _ \<Rightarrow> Empty_Loaded l v))\<rparr>)"

definition empty_choice :: "thread \<Rightarrow> spsc_index \<Rightarrow> nat \<Rightarrow> 'a spsc_observed \<Rightarrow> bool" where
  "empty_choice t l i s \<longleftrightarrow>
     (case t of Producer \<Rightarrow> push_pc (oq s) = Push_Idle | Consumer \<Rightarrow> pop_pc (oq s) = Pop_Idle)
   \<and> can_read (mem (oq s)) t (empty_reads l (o_pc s t)) i"

fun in_empty :: "empty_pc \<Rightarrow> bool" where
  "in_empty (Empty_Loaded l v) \<longleftrightarrow> True"
| "in_empty _ \<longleftrightarrow> False"

text \<open>
  A thread that is not inside \<open>empty\<close> may take steps of its queue call. What \<open>empty\<close> returned is
  remembered until the thread publishes a change of the queue itself.
\<close>

definition after_push :: "'a spsc_observed \<Rightarrow> 'a spsc_threads \<Rightarrow> 'a spsc_observed" where
  "after_push s q = s\<lparr>oq := q, o_pc := (if push_publishing (push_pc (oq s))
     then (o_pc s)(Producer := Empty_Idle) else o_pc s)\<rparr>"

definition after_pop :: "'a spsc_observed \<Rightarrow> 'a spsc_threads \<Rightarrow> 'a spsc_observed" where
  "after_pop s q = s\<lparr>oq := q, o_pc := (if pop_publishing (pop_pc (oq s))
     then (o_pc s)(Consumer := Empty_Idle) else o_pc s)\<rparr>"

inductive obs_reach :: "nat \<Rightarrow> ('a \<Rightarrow> 'a) \<Rightarrow> 'a \<Rightarrow> 'a spsc_observed \<Rightarrow> bool"
  for c moved dflt where
  start: "obs_reach c moved dflt (observed_init dflt)"
| push: "obs_reach c moved dflt s \<Longrightarrow> \<not> in_empty (o_pc s Producer) \<Longrightarrow> push_choice i (oq s) \<Longrightarrow>
    push_step c item i (oq s) = Inr q \<Longrightarrow>
    obs_reach c moved dflt (after_push s q)"
| pop: "obs_reach c moved dflt s \<Longrightarrow> \<not> in_empty (o_pc s Consumer) \<Longrightarrow> pop_choice i (oq s) \<Longrightarrow>
    pop_step c moved i (oq s) = Inr q \<Longrightarrow>
    obs_reach c moved dflt (after_pop s q)"
| empty: "obs_reach c moved dflt s \<Longrightarrow> empty_choice t l i s \<Longrightarrow>
    obs_reach c moved dflt (empty_step t l i s)"

section \<open>Invariant\<close>

text \<open>A thread knows at least what its own stores carry.\<close>

definition own_known :: "thread \<Rightarrow> spsc_index \<Rightarrow> (spsc_index, size_t, nat, 'a) machine \<Rightarrow> bool" where
  "own_known t l m \<longleftrightarrow> (\<forall>msg \<in> set (hist m l).
     (\<forall>l'. msg_seen msg l' \<le> seen m t l') \<and> (\<forall>t'. msg_clock msg t' \<le> clock m t t'))"

lemma own_known_mono:
  assumes "own_known t l m" and "hist m' l = hist m l"
    and "\<And>l'. seen m t l' \<le> seen m' t l'" and "\<And>t'. clock m t t' \<le> clock m' t t'"
  shows "own_known t l m'"
proof -
  have "msg_seen msg l' \<le> seen m' t l'" if "msg \<in> set (hist m l)" for msg l'
    using assms(1,3) that unfolding own_known_def by (meson order_trans)
  moreover have "msg_clock msg t' \<le> clock m' t t'" if "msg \<in> set (hist m l)" for msg t'
    using assms(1,4) that unfolding own_known_def by (meson order_trans)
  ultimately show ?thesis using assms(2) by (simp add: own_known_def)
qed

lemma own_known_load:
  assumes "own_known t l m" and "can_read m t' l' i"
  shows "own_known t l (snd (atomic_load mo t' l' i m))"
  by (rule own_known_mono [OF assms(1)])
    (use assms(2) in \<open>auto simp: can_read_def atomic_load_def Let_def le_max_iff_disj\<close>)

lemma own_known_store:
  assumes "own_known t l m" and "seen m t l \<le> length (hist m l)" and "t = t' \<longleftrightarrow> l = l'"
  shows "own_known t l (atomic_store Release t' l' v m)"
proof (cases "l = l'")
  case True
  have "msg_seen msg k \<le> ((seen m t)(l := length (hist m l))) k" if "msg \<in> set (hist m l)" for msg k
    using assms(1,2) that by (cases "k = l") (auto simp: own_known_def intro: order_trans)
  with True assms show ?thesis by (auto simp: own_known_def atomic_store_def Let_def)
next
  case False
  with assms(3) show ?thesis by (intro own_known_mono [OF assms(1)]) (auto simp: atomic_store_def Let_def)
qed

lemma own_known_write:
  assumes "own_known t l m" and "na_write t' x v m = Inr m'"
  shows "own_known t l m'"
  by (rule own_known_mono [OF assms(1)])
    (use assms(2) in \<open>auto simp: na_write_def count_access_def Let_def split: if_splits\<close>)

definition owners_known :: "'a spsc_threads \<Rightarrow> bool" where
  "owners_known s \<longleftrightarrow> own_known Producer Tail (mem s) \<and> own_known Consumer Head (mem s)"

lemma owners_known_push:
  assumes inv: "spsc_inv c s" and own: "owners_known s" and st: "push_step c item i s = Inr s'"
    and ch: "push_choice i s"
  shows "owners_known s'"
proof (cases "push_pc s")
  case Push_Idle
  then have "mem s' = snd (atomic_load Relaxed Producer Tail i (mem s))" "can_read (mem s) Producer Tail i"
    using st ch by (auto simp: push_step_def push_choice_def atomic_load_def Let_def)
  then show ?thesis using own by (auto simp: owners_known_def intro: own_known_load)
next
  case (Push_Load_Head x t)
  then have "mem s' = snd (atomic_load Acquire Producer Head i (mem s))" "can_read (mem s) Producer Head i"
    using st ch by (auto simp: push_step_def push_choice_def atomic_load_def Let_def)
  then show ?thesis using own by (auto simp: owners_known_def intro: own_known_load)
next
  case (Push_Write x t nxt)
  then obtain m where "na_write Producer (unat t) x (mem s) = Inr m" "mem s' = m"
    using st by (auto simp: push_step_def res_bind_Inr_iff split: if_splits)
  then show ?thesis using own by (auto simp: owners_known_def intro: own_known_write)
next
  case (Push_Publish x nxt)
  then have "mem s' = atomic_store Release Producer Tail nxt (mem s)" using st by (auto simp: push_step_def)
  moreover have "seen (mem s) Producer Tail \<le> length (hist (mem s) Tail)"
    "seen (mem s) Consumer Head \<le> length (hist (mem s) Head)" using inv by (simp_all add: inv_parts)
  ultimately show ?thesis using own by (simp add: owners_known_def own_known_store)
qed

lemma owners_known_pop:
  assumes inv: "spsc_inv c s" and own: "owners_known s" and st: "pop_step c moved i s = Inr s'"
    and ch: "pop_choice i s"
  shows "owners_known s'"
proof (cases "pop_pc s")
  case Pop_Idle
  then have "mem s' = snd (atomic_load Relaxed Consumer Head i (mem s))" "can_read (mem s) Consumer Head i"
    using st ch by (auto simp: pop_step_def pop_choice_def atomic_load_def Let_def)
  then show ?thesis using own by (auto simp: owners_known_def intro: own_known_load)
next
  case (Pop_Load_Tail h)
  then have "mem s' = snd (atomic_load Acquire Consumer Tail i (mem s))" "can_read (mem s) Consumer Tail i"
    using st ch by (auto simp: pop_step_def pop_choice_def atomic_load_def Let_def)
  then show ?thesis using own by (auto simp: owners_known_def intro: own_known_load)
next
  case (Pop_Take h)
  then obtain m where "na_write Consumer (unat h) (moved (cells (mem s) (unat h))) (mem s) = Inr m" "mem s' = m"
    using st by (auto simp: pop_step_def na_move_def res_bind_Inr_iff split: if_splits)
  then show ?thesis using own by (auto simp: owners_known_def intro: own_known_write)
next
  case (Pop_Publish h out)
  then have "mem s' = atomic_store Release Consumer Head ((h + 1) AND (word_of_nat c - 1)) (mem s)"
    using st by (auto simp: pop_step_def)
  moreover have "seen (mem s) Producer Tail \<le> length (hist (mem s) Tail)"
    "seen (mem s) Consumer Head \<le> length (hist (mem s) Head)" using inv by (simp_all add: inv_parts)
  ultimately show ?thesis using own by (simp add: owners_known_def own_known_store)
qed

text \<open>
  What a thread that is in the call, or remembers its result, knows: the value it loaded is the
  one of a store it may still rely on.
\<close>

fun empty_ok :: "nat \<Rightarrow> thread \<Rightarrow> 'a spsc_threads \<Rightarrow> empty_pc \<Rightarrow> bool" where
  "empty_ok c t q Empty_Idle \<longleftrightarrow> True"
| "empty_ok c Producer q (Empty_Loaded l v) \<longleftrightarrow> push_pc q = Push_Idle
     \<and> (case l of Tail \<Rightarrow> v = ring_index c (length (pushed q))
        | Head \<Rightarrow> \<exists>i \<le> seen (mem q) Producer Head. length (pushed q) < i + c \<and> v = ring_index c i)"
| "empty_ok c Consumer q (Empty_Loaded l v) \<longleftrightarrow> pop_pc q = Pop_Idle
     \<and> (case l of Head \<Rightarrow> v = ring_index c (length (got q))
        | Tail \<Rightarrow> \<exists>i \<le> seen (mem q) Consumer Tail. length (got q) \<le> i \<and> v = ring_index c i)"
| "empty_ok c Producer q (Empty_Returned b) \<longleftrightarrow> (b \<longrightarrow> length (pushed q) \<le> seen (mem q) Producer Head)"
| "empty_ok c Consumer q (Empty_Returned b) \<longleftrightarrow> (\<not> b \<longrightarrow> length (got q) < seen (mem q) Consumer Tail)"

definition obs_inv :: "nat \<Rightarrow> 'a spsc_observed \<Rightarrow> bool" where
  "obs_inv c s \<longleftrightarrow> spsc_inv c (oq s) \<and> owners_known (oq s) \<and> (\<forall>t. empty_ok c t (oq s) (o_pc s t))"

lemma obs_inv_init: "0 < c \<Longrightarrow> obs_inv c (observed_init d)"
  using spsc_inv_init [of c d]
  by (simp add: obs_inv_def observed_init_def owners_known_def own_known_def spsc_threads_init_def machine_init_def)

text \<open>
  A thread that loads its own index learns nothing, and a load of the other index between two calls
  keeps the invariant of the queue.
\<close>

lemma own_load_same:
  assumes "own_known t l m" and "i = seen m t l" and "i < length (hist m l)"
  shows "snd (atomic_load Acquire t l i m) = m"
proof -
  have k: "msg_seen (hist m l ! i) l' \<le> seen m t l'" "msg_clock (hist m l ! i) t' \<le> clock m t t'" for l' t'
    using assms(1,3) by (simp_all add: own_known_def)
  have "(\<lambda>l'. max (((seen m t)(l := i)) l') (msg_seen (hist m l ! i) l')) = seen m t"
    "(\<lambda>t'. max (clock m t t') (msg_clock (hist m l ! i) t')) = clock m t"
    using k assms(2) by (auto simp: fun_eq_iff intro!: max_absorb1)
  then show ?thesis by (simp add: atomic_load_def Let_def)
qed

lemma producer_loads:
  assumes inv: "spsc_inv c q" and own: "owners_known q" and pc: "push_pc q = Push_Idle"
    and ch: "can_read (mem q) Producer l i"
  shows "spsc_inv c (q\<lparr>mem := snd (atomic_load Acquire Producer l i (mem q))\<rparr>)"
proof (cases l)
  case Head
  have w: "written q = pushed q" using pc by (simp add: written_def)
  have i: "seen (mem q) Producer Head \<le> i" "i \<le> length (got q)"
    using inv ch Head by (simp_all add: inv_parts can_read_def)
  have msg: "msg_ok c q Head Consumer i (hist (mem q) Head ! i)" using inv i by (simp add: inv_parts)
  have p: "producer_ok c q" using inv by (simp add: spsc_inv_def)
  have "spsc_inv c (q\<lparr>mem := snd (atomic_load Acquire Producer Head i (mem q)), push_pc := Push_Idle\<rparr>)"
    by (rule push_load_inv [OF inv])
      (use i msg p pc w in \<open>auto simp: atomic_load_def Let_def msg_ok_def producer_ok_def\<close>)
  moreover have "q\<lparr>mem := m, push_pc := Push_Idle\<rparr> = q\<lparr>mem := m\<rparr>" for m using pc by simp
  ultimately show ?thesis using Head by simp
next
  case Tail
  have "i = seen (mem q) Producer Tail" "i < length (hist (mem q) Tail)"
    using inv ch Tail by (auto simp: inv_parts can_read_def)
  with own inv Tail show ?thesis by (simp add: owners_known_def own_load_same)
qed

lemma consumer_loads:
  assumes inv: "spsc_inv c q" and own: "owners_known q" and pc: "pop_pc q = Pop_Idle"
    and ch: "can_read (mem q) Consumer l i"
  shows "spsc_inv c (q\<lparr>mem := snd (atomic_load Acquire Consumer l i (mem q))\<rparr>)"
proof (cases l)
  case Tail
  have w: "taken q = got q" using pc by (simp add: taken_def)
  have i: "seen (mem q) Consumer Tail \<le> i" "i \<le> length (pushed q)"
    using inv ch Tail by (simp_all add: inv_parts can_read_def)
  have msg: "msg_ok c q Tail Producer i (hist (mem q) Tail ! i)" using inv i by (simp add: inv_parts)
  have p: "consumer_ok c q" using inv by (simp add: spsc_inv_def)
  have "spsc_inv c (q\<lparr>mem := snd (atomic_load Acquire Consumer Tail i (mem q)), pop_pc := Pop_Idle\<rparr>)"
    by (rule pop_load_inv [OF inv])
      (use i msg p pc w in \<open>auto simp: atomic_load_def Let_def msg_ok_def consumer_ok_def\<close>)
  moreover have "q\<lparr>mem := m, pop_pc := Pop_Idle\<rparr> = q\<lparr>mem := m\<rparr>" for m using pc by simp
  ultimately show ?thesis using Tail by simp
next
  case Head
  have "i = seen (mem q) Consumer Head" "i < length (hist (mem q) Head)"
    using inv ch Head by (auto simp: inv_parts can_read_def)
  with own inv Head show ?thesis by (simp add: owners_known_def own_load_same)
qed

section \<open>Preservation\<close>

lemma owners_known_load:
  "owners_known q \<Longrightarrow> can_read (mem q) t l i
    \<Longrightarrow> owners_known (q\<lparr>mem := snd (atomic_load Acquire t l i (mem q))\<rparr>)"
  by (simp add: owners_known_def own_known_load)

text \<open>What the call rests on stays true: only the thread itself moves what it compares.\<close>

lemma empty_ok_mono:
  assumes "empty_ok c t q e"
    and "\<And>l. seen (mem q) t l \<le> seen (mem q') t l"
    and "case t of Producer \<Rightarrow> pushed q' = pushed q \<and> (in_empty e \<longrightarrow> push_pc q' = push_pc q)
      | Consumer \<Rightarrow> got q' = got q \<and> (in_empty e \<longrightarrow> pop_pc q' = pop_pc q)"
  shows "empty_ok c t q' e"
  using assms by (cases "(c, t, q, e)" rule: empty_ok.cases)
    (auto split: spsc_index.splits intro: order_trans less_le_trans)

lemma load_seen_mono:
  "can_read m t' l' i \<Longrightarrow> seen m t l \<le> seen (snd (atomic_load mo t' l' i m)) t l"
  by (auto simp: can_read_def atomic_load_def Let_def le_max_iff_disj)

lemma push_step_seen:
  assumes "spsc_inv c q" and "push_step c x i q = Inr q'" and "push_choice i q"
  shows "seen (mem q) t l \<le> seen (mem q') t l" and "got q' = got q" and "pop_pc q' = pop_pc q"
    and "\<not> push_publishing (push_pc q) \<Longrightarrow> pushed q' = pushed q"
  using assms by (auto simp: push_step_def push_choice_def ra_defs inv_parts res_bind_Inr_iff le_max_iff_disj
      split: push_pc.splits if_splits)

lemma pop_step_seen:
  assumes "spsc_inv c q" and "pop_step c moved i q = Inr q'" and "pop_choice i q"
  shows "seen (mem q) t l \<le> seen (mem q') t l" and "pushed q' = pushed q" and "push_pc q' = push_pc q"
    and "\<not> pop_publishing (pop_pc q) \<Longrightarrow> got q' = got q"
  using assms by (auto simp: pop_step_def pop_choice_def ra_defs inv_parts res_bind_Inr_iff le_max_iff_disj
      split: pop_pc.splits if_splits)

text \<open>The value a load of the call returns.\<close>

lemma ring_index_eq:
  assumes "pow2_size c" and "j \<le> k" and "k < j + c"
  shows "ring_index c j = ring_index c k \<longleftrightarrow> j = k"
  using assms(2,3) same_slot_lap [of j c k] by (fastforce simp: ring_index_inj [OF assms(1)])

lemma producer_reads:
  assumes inv: "spsc_inv c q" and ch: "can_read (mem q) Producer l i"
    and ld: "atomic_load Acquire Producer l i (mem q) = (v, m)"
  shows "case l of Tail \<Rightarrow> v = ring_index c (length (pushed q))
    | Head \<Rightarrow> i \<le> seen m Producer Head \<and> i \<le> length (pushed q) \<and> length (pushed q) < i + c \<and> v = ring_index c i"
proof (cases l)
  case Head
  have i: "seen (mem q) Producer Head \<le> i" "i \<le> length (got q)"
    using inv ch Head by (simp_all add: inv_parts can_read_def)
  moreover have "length (got q) \<le> length (pushed q)"
    using taken_le_pushed [OF inv] got_le_taken [of q] by simp
  moreover have "msg_val (hist (mem q) Head ! i) = ring_index c i"
    using inv i by (simp add: inv_parts msg_ok_def)
  ultimately show ?thesis using inv ld Head by (auto simp: inv_parts atomic_load_def le_max_iff_disj)
next
  case Tail
  then have "i = length (pushed q)" using inv ch by (simp add: inv_parts can_read_def)
  then show ?thesis using inv ld Tail by (auto simp: inv_parts msg_ok_def atomic_load_def)
qed

lemma consumer_reads:
  assumes inv: "spsc_inv c q" and ch: "can_read (mem q) Consumer l i"
    and ld: "atomic_load Acquire Consumer l i (mem q) = (v, m)"
  shows "case l of Head \<Rightarrow> v = ring_index c (length (got q))
    | Tail \<Rightarrow> i \<le> seen m Consumer Tail \<and> length (got q) \<le> i \<and> v = ring_index c i"
proof (cases l)
  case Tail
  have i: "seen (mem q) Consumer Tail \<le> i" "i \<le> length (pushed q)" "length (got q) \<le> i"
    using inv ch Tail by (auto simp: inv_parts can_read_def)
  moreover have "msg_val (hist (mem q) Tail ! i) = ring_index c i"
    using inv i by (simp add: inv_parts msg_ok_def)
  ultimately show ?thesis using ld Tail by (auto simp: atomic_load_def Let_def le_max_iff_disj)
next
  case Head
  then have "i = length (got q)" using inv ch by (simp add: inv_parts can_read_def)
  then show ?thesis using inv ld Head by (auto simp: inv_parts msg_ok_def atomic_load_def)
qed

lemma producer_concludes:
  assumes c: "pow2_size c" and inv: "spsc_inv c q" and pc: "push_pc q = Push_Idle"
    and ok: "empty_ok c Producer q e" and ch: "can_read (mem q) Producer (empty_reads l e) i"
    and ld: "atomic_load Acquire Producer (empty_reads l e) i (mem q) = (v, m)"
  shows "empty_ok c Producer (q\<lparr>mem := m\<rparr>)
    (case e of Empty_Loaded first w \<Rightarrow> Empty_Returned (w = v) | _ \<Rightarrow> Empty_Loaded l v)"
proof -
  have seen: "seen (mem q) Producer k \<le> seen m Producer k" for k
    using load_seen_mono [OF ch, of Producer k Acquire] ld by simp
  have got: "seen (mem q) Producer Head \<le> length (pushed q)"
    using inv taken_le_pushed [OF inv] got_le_taken [of q] by (simp add: inv_parts)
  note rd = producer_reads [OF inv ch ld]
  show ?thesis
  proof (cases e)
    case (Empty_Loaded first w)
    show ?thesis
    proof (cases first)
      case Head
      then obtain j where j: "j \<le> seen (mem q) Producer Head" "length (pushed q) < j + c" "w = ring_index c j"
        using ok Empty_Loaded by auto
      have "length (pushed q) \<le> seen m Producer Head" if "w = v"
        using that j rd got seen [of Head] ring_index_eq [OF c, of j "length (pushed q)"] Head Empty_Loaded by simp
      then show ?thesis using Empty_Loaded by simp
    next
      case Tail
      then show ?thesis using ok rd Empty_Loaded ring_index_eq [OF c, of i "length (pushed q)"] by auto
    qed
  qed (use rd pc in \<open>auto split: spsc_index.splits\<close>)
qed

lemma consumer_concludes:
  assumes inv: "spsc_inv c q" and pc: "pop_pc q = Pop_Idle"
    and ok: "empty_ok c Consumer q e" and ch: "can_read (mem q) Consumer (empty_reads l e) i"
    and ld: "atomic_load Acquire Consumer (empty_reads l e) i (mem q) = (v, m)"
  shows "empty_ok c Consumer (q\<lparr>mem := m\<rparr>)
    (case e of Empty_Loaded first w \<Rightarrow> Empty_Returned (w = v) | _ \<Rightarrow> Empty_Loaded l v)"
proof -
  have seen: "seen (mem q) Consumer k \<le> seen m Consumer k" for k
    using load_seen_mono [OF ch, of Consumer k Acquire] ld by simp
  note rd = consumer_reads [OF inv ch ld]
  show ?thesis
  proof (cases e)
    case (Empty_Loaded first w)
    show ?thesis
    proof (cases first)
      case Tail
      then obtain j where j: "j \<le> seen (mem q) Consumer Tail" "length (got q) \<le> j" "w = ring_index c j"
        using ok Empty_Loaded by auto
      have "length (got q) < seen m Consumer Tail" if "w \<noteq> v"
        using that j rd seen [of Tail] Tail Empty_Loaded by (cases "j = length (got q)") auto
      then show ?thesis using Empty_Loaded by simp
    next
      case Head
      then show ?thesis using ok rd Empty_Loaded by (cases "i = length (got q)") auto
    qed
  qed (use rd pc in \<open>auto split: spsc_index.splits\<close>)
qed

lemma empty_step_inv:
  assumes c: "pow2_size c" and inv: "obs_inv c s" and ch: "empty_choice t l i s"
  shows "obs_inv c (empty_step t l i s)"
proof -
  let ?q = "oq s" and ?l = "empty_reads l (o_pc s t)"
  obtain v m where ld: "atomic_load Acquire t ?l i (mem ?q) = (v, m)" by (cases "atomic_load Acquire t ?l i (mem ?q)")
  then have m: "m = snd (atomic_load Acquire t ?l i (mem ?q))" by simp
  have rd: "can_read (mem ?q) t ?l i" using ch by (simp add: empty_choice_def)
  have q: "spsc_inv c ?q" "owners_known ?q" and ok: "\<And>t. empty_ok c t ?q (o_pc s t)"
    using inv by (simp_all add: obs_inv_def)
  have "spsc_inv c (?q\<lparr>mem := m\<rparr>)"
    using ch rd producer_loads [OF q] consumer_loads [OF q] by (cases t) (simp_all add: m empty_choice_def)
  moreover have "owners_known (?q\<lparr>mem := m\<rparr>)" using owners_known_load [OF q(2) rd] by (simp add: m)
  moreover have "empty_ok c t' (?q\<lparr>mem := m\<rparr>) (o_pc s t')" for t'
    by (rule empty_ok_mono [OF ok]) (use load_seen_mono [OF rd] in \<open>auto simp: m split: thread.splits\<close>)
  moreover have "empty_ok c t (?q\<lparr>mem := m\<rparr>) (case o_pc s t of
      Empty_Loaded first w \<Rightarrow> Empty_Returned (w = v) | _ \<Rightarrow> Empty_Loaded l v)"
    using ch rd ld ok [of t] producer_concludes [OF c q(1)] consumer_concludes [OF q(1)]
    by (cases t) (auto simp: empty_choice_def)
  ultimately show ?thesis by (simp add: obs_inv_def empty_step_def ld)
qed

lemma push_observed_inv:
  assumes c: "pow2_size c" and inv: "obs_inv c s" and free: "\<not> in_empty (o_pc s Producer)"
    and ch: "push_choice i (oq s)" and st: "push_step c item i (oq s) = Inr q"
  shows "obs_inv c (after_push s q)"
proof -
  let ?o = "if push_publishing (push_pc (oq s)) then (o_pc s)(Producer := Empty_Idle) else o_pc s"
  have q: "spsc_inv c (oq s)" "owners_known (oq s)" and ok: "\<And>t. empty_ok c t (oq s) (o_pc s t)"
    using inv by (simp_all add: obs_inv_def)
  have "spsc_inv c q" using push_step_inv [OF c q(1) ch, of item] st by simp
  moreover have "owners_known q" using owners_known_push [OF q st ch] .
  moreover note mono = push_step_seen [OF q(1) st ch]
  have "empty_ok c Consumer q (o_pc s Consumer)"
    by (rule empty_ok_mono [OF ok]) (use mono in auto)
  moreover have "empty_ok c Producer q (o_pc s Producer)" if "\<not> push_publishing (push_pc (oq s))"
    by (rule empty_ok_mono [OF ok]) (use mono free that in auto)
  then have "empty_ok c Producer q (?o Producer)" by simp
  ultimately have "empty_ok c t q (?o t)" for t by (cases t) simp_all
  with \<open>spsc_inv c q\<close> \<open>owners_known q\<close> show ?thesis by (simp add: obs_inv_def after_push_def)
qed

lemma pop_observed_inv:
  assumes c: "pow2_size c" and inv: "obs_inv c s" and free: "\<not> in_empty (o_pc s Consumer)"
    and ch: "pop_choice i (oq s)" and st: "pop_step c moved i (oq s) = Inr q"
  shows "obs_inv c (after_pop s q)"
proof -
  let ?o = "if pop_publishing (pop_pc (oq s)) then (o_pc s)(Consumer := Empty_Idle) else o_pc s"
  have q: "spsc_inv c (oq s)" "owners_known (oq s)" and ok: "\<And>t. empty_ok c t (oq s) (o_pc s t)"
    using inv by (simp_all add: obs_inv_def)
  have "spsc_inv c q" using pop_step_inv [OF c q(1) ch, of moved] st by simp
  moreover have "owners_known q" using owners_known_pop [OF q st ch] .
  moreover note mono = pop_step_seen [OF q(1) st ch]
  have "empty_ok c Producer q (o_pc s Producer)"
    by (rule empty_ok_mono [OF ok]) (use mono in auto)
  moreover have "empty_ok c Consumer q (o_pc s Consumer)" if "\<not> pop_publishing (pop_pc (oq s))"
    by (rule empty_ok_mono [OF ok]) (use mono free that in auto)
  then have "empty_ok c Consumer q (?o Consumer)" by simp
  ultimately have "empty_ok c t q (?o t)" for t by (cases t) simp_all
  with \<open>spsc_inv c q\<close> \<open>owners_known q\<close> show ?thesis by (simp add: obs_inv_def after_pop_def)
qed

lemma obs_reach_inv:
  assumes "pow2_size c" and "obs_reach c moved d s"
  shows "obs_inv c s"
  using assms(2)
proof induction
  case start
  show ?case using pow2_size_pos [OF assms(1)] by (rule obs_inv_init)
next
  case (push s i item q)
  then show ?case by (intro push_observed_inv [OF assms(1)])
next
  case (pop s i q)
  then show ?case by (intro pop_observed_inv [OF assms(1)])
next
  case (empty s t l i)
  then show ?case by (intro empty_step_inv [OF assms(1)])
qed

section \<open>Properties\<close>

text \<open>A run with calls of \<open>empty\<close>, and one of it.\<close>

datatype obs_sched = Queue_Moves thread int nat | Empty_Moves thread spsc_index nat

fun obs_sched_run :: "nat \<Rightarrow> (int \<Rightarrow> int) \<Rightarrow> obs_sched list \<Rightarrow> int spsc_observed \<Rightarrow> int spsc_observed res" where
  "obs_sched_run c moved [] s = Inr s"
| "obs_sched_run c moved (Empty_Moves t l i # es) s =
     (if empty_choice t l i s then obs_sched_run c moved es (empty_step t l i s) else Inr s)"
| "obs_sched_run c moved (Queue_Moves Producer x i # es) s =
     (if \<not> in_empty (o_pc s Producer) \<and> push_choice i (oq s)
      then res_bind (push_step c x i (oq s)) (\<lambda>q. obs_sched_run c moved es (after_push s q))
      else Inr s)"
| "obs_sched_run c moved (Queue_Moves Consumer x i # es) s =
     (if \<not> in_empty (o_pc s Consumer) \<and> pop_choice i (oq s)
      then res_bind (pop_step c moved i (oq s)) (\<lambda>q. obs_sched_run c moved es (after_pop s q))
      else Inr s)"

lemma obs_sched_reach:
  "obs_reach c moved d s \<Longrightarrow> obs_sched_run c moved es s = Inr s' \<Longrightarrow> obs_reach c moved d s'"
proof (induction c moved es s rule: obs_sched_run.induct)
  case (2 c moved t l i es s)
  then show ?case by (auto split: if_splits intro: obs_reach.empty)
next
  case (3 c moved x i es s)
  then show ?case by (auto simp: res_bind_Inr_iff split: if_splits intro: obs_reach.push)
next
  case (4 c moved x i es s)
  then show ?case by (auto simp: res_bind_Inr_iff split: if_splits intro: obs_reach.pop)
qed simp

text \<open>
  A push; the consumer finds \<open>empty()\<close> false, the producer too; the consumer starts its pop.
\<close>

definition obs_demo :: "obs_sched list" where
  "obs_demo = [Queue_Moves Producer 7 0, Queue_Moves Producer 7 0, Queue_Moves Producer 7 0,
     Queue_Moves Producer 7 0, Empty_Moves Consumer Head 0, Empty_Moves Consumer Head 1,
     Empty_Moves Producer Tail 1, Empty_Moves Producer Tail 0, Queue_Moves Consumer 0 0]"

lemma obs_demo_run:
  "\<exists>s. obs_sched_run 2 id obs_demo (observed_init 0) = Inr s \<and> o_pc s Consumer = Empty_Returned False
     \<and> o_pc s Producer = Empty_Returned False \<and> pop_pc (oq s) = Pop_Load_Tail 0 \<and> pop_choice 1 (oq s)"
  by (simp add: obs_demo_def observed_init_def after_push_def after_pop_def empty_choice_def empty_step_def spsc_eval)

text \<open>
  C11: calls of \<open>empty()\<close> by the two threads between their other calls leave the queue as safe as
  it is (every next access is defined, and what was popped is a prefix of what was pushed), and its
  result can be relied on as far as staleness lets it: after the consumer's call returned false the
  ring holds an element and the consumer's next \<open>try_pop\<close> returns one; after the producer's call
  returned true the ring is empty and the producer's next \<open>try_push\<close> is not refused.
\<close>

theorem spsc_empty_advice:
  assumes "pow2_size c" and "2 \<le> c" and "obs_reach c moved d s"
  shows "(\<forall>i item. push_choice i (oq s) \<longrightarrow> (\<exists>q. push_step c item i (oq s) = Inr q))
    \<and> (\<forall>i. pop_choice i (oq s) \<longrightarrow> (\<exists>q. pop_step c moved i (oq s) = Inr q))
    \<and> prefix (got (oq s)) (pushed (oq s))
    \<and> (o_pc s Consumer = Empty_Returned False \<longrightarrow> got (oq s) \<noteq> pushed (oq s)
      \<and> (\<forall>i h q. pop_pc (oq s) = Pop_Load_Tail h \<and> pop_choice i (oq s) \<and> pop_step c moved i (oq s) = Inr q
        \<longrightarrow> pop_pc q = Pop_Take h))
    \<and> (o_pc s Producer = Empty_Returned True \<longrightarrow> got (oq s) = pushed (oq s)
      \<and> (\<forall>i item x t q. push_pc (oq s) = Push_Load_Head x t \<and> push_choice i (oq s)
        \<and> push_step c item i (oq s) = Inr q \<longrightarrow> (\<exists>nxt. push_pc q = Push_Write x t nxt)))"
proof -
  let ?q = "oq s"
  have inv: "spsc_inv c ?q" and ok: "\<And>t. empty_ok c t ?q (o_pc s t)"
    using obs_reach_inv [OF assms(1,3)] by (simp_all add: obs_inv_def)
  have seen: "seen (mem ?q) Producer Head \<le> length (got ?q)" "seen (mem ?q) Consumer Tail \<le> length (pushed ?q)"
    using inv by (simp_all add: inv_parts)
  have pre: "prefix (got ?q) (pushed ?q)" using got_prefix_pushed [OF inv] .
  have pop: "length (got ?q) < seen (mem ?q) Consumer Tail" if "o_pc s Consumer = Empty_Returned False"
    using ok [of Consumer] that by simp
  have push: "length (pushed ?q) \<le> seen (mem ?q) Producer Head" if "o_pc s Producer = Empty_Returned True"
    using ok [of Producer] that by simp
  have "pop_pc q = Pop_Take h"
    if "o_pc s Consumer = Empty_Returned False" "pop_pc ?q = Pop_Load_Tail h" "pop_choice i ?q"
      "pop_step c moved i ?q = Inr q" for i h q
    using pop_refuses_iff [OF assms(1) inv that(2,3,4)] pop_load_pc(2) [OF that(4,2)] pop [OF that(1)] that(2,3)
    by (auto simp: pop_choice_def can_read_def split: if_splits)
  moreover have "\<exists>nxt. push_pc q = Push_Write x t nxt"
    if "o_pc s Producer = Empty_Returned True" "push_pc ?q = Push_Load_Head x t" "push_choice i ?q"
      "push_step c item i ?q = Inr q" for i item x t q
    using push_refuses_iff [OF assms(1) inv that(2,3,4)] push_load_pc(2) [OF that(4,2)] push [OF that(1)] that(2,3) assms(2)
    by (auto simp: push_choice_def can_read_def split: if_splits)
  moreover have "got ?q = pushed ?q" if "o_pc s Producer = Empty_Returned True"
    using prefix_length_le [OF pre] pre push [OF that] seen(1) by (metis le_antisym le_trans not_equal_is_parallel parallelE)
  moreover have "got ?q \<noteq> pushed ?q" if "o_pc s Consumer = Empty_Returned False"
    using pop [OF that] seen(2) by auto
  ultimately show ?thesis
    using pre push_step_inv [OF assms(1) inv] pop_step_inv [OF assms(1) inv, where moved = moved] by metis
qed

theorem spsc_empty_advice_witness:
  "\<exists>s q. obs_reach 2 id (0 :: int) s \<and> o_pc s Consumer = Empty_Returned False \<and> got (oq s) \<noteq> pushed (oq s)
     \<and> pop_step 2 id 1 (oq s) = Inr q \<and> pop_pc q = Pop_Take 0"
proof -
  obtain s where run: "obs_sched_run 2 id obs_demo (observed_init 0) = Inr s"
    and s: "o_pc s Consumer = Empty_Returned False" "pop_pc (oq s) = Pop_Load_Tail 0" "pop_choice 1 (oq s)"
    using obs_demo_run by blast
  have reach: "obs_reach 2 id 0 s" using obs_sched_reach [OF obs_reach.start run] .
  have two: "(2::nat) \<le> 2" by simp
  note adv = spsc_empty_advice [OF pow2_size_2 two reach]
  obtain q where q: "pop_step 2 id 1 (oq s) = Inr q" using adv s(3) by blast
  have "pop_pc q = Pop_Take 0" using adv s q by blast
  moreover have "got (oq s) \<noteq> pushed (oq s)" using adv s(1) by blast
  ultimately show ?thesis using reach s(1) q by blast
qed

end
