(* ===== verification/SpscMove.thy ===== *)
theory SpscMove
  imports SpscThreads
begin

text \<open>
  The overload \<open>try_push(T&&)\<close> of \<open>SpscQueue\<close> while the consumer runs. It makes the accesses of
  \<open>try_push(const T&)\<close>, and moves from the variable its argument refers to when it writes the slot:
  the producer may call it again with the same variable after a refusal.
\<close>

section \<open>The call\<close>

text \<open>
  \<open>mv_item\<close> is the variable of the producer; \<open>mv_calls\<close> records of each call that returned what it was
  given, what it returned and what it left in the variable.
\<close>

record 'a spsc_move =
  mq :: "'a spsc_threads"
  mv_item :: 'a
  mv_calls :: "('a \<times> bool \<times> 'a) list"

definition spsc_move_init :: "'a \<Rightarrow> 'a \<Rightarrow> 'a spsc_move" where
  "spsc_move_init dflt x = \<lparr>mq = spsc_threads_init dflt, mv_item = x, mv_calls = []\<rparr>"

fun move_writes :: "'a push_pc \<Rightarrow> bool" where
  "move_writes (Push_Write x t next) \<longleftrightarrow> True"
| "move_writes _ \<longleftrightarrow> False"

text \<open>What a call that is at this point was given, and what it returns if this step is its last one.\<close>

fun push_argument :: "'a push_pc \<Rightarrow> ('a \<times> bool) option" where
  "push_argument Push_Idle = None"
| "push_argument (Push_Load_Head x t) = Some (x, False)"
| "push_argument (Push_Write x t next) = None"
| "push_argument (Push_Publish x next) = Some (x, True)"

definition push_move_step :: "nat \<Rightarrow> ('a \<Rightarrow> 'a) \<Rightarrow> nat \<Rightarrow> 'a spsc_move \<Rightarrow> 'a spsc_move res" where
  "push_move_step c moved i s =
     res_bind (push_step c (mv_item s) i (mq s)) (\<lambda>q.
       let item = (if move_writes (push_pc (mq s)) then moved (mv_item s) else mv_item s)
       in Inr (s\<lparr>mq := q, mv_item := item,
                 mv_calls := mv_calls s @ (case push_argument (push_pc (mq s)) of
                     Some (x, ok) \<Rightarrow> if push_pc q = Push_Idle then [(x, ok, item)] else []
                   | None \<Rightarrow> [])\<rparr>))"

text \<open>Between two calls the producer may assign to its variable, or leave it for the next attempt.\<close>

inductive move_reach :: "nat \<Rightarrow> ('a \<Rightarrow> 'a) \<Rightarrow> 'a \<Rightarrow> 'a spsc_move \<Rightarrow> bool"
  for c moved dflt where
  start: "move_reach c moved dflt (spsc_move_init dflt x)"
| assign: "move_reach c moved dflt s \<Longrightarrow> push_pc (mq s) = Push_Idle \<Longrightarrow>
    move_reach c moved dflt (s\<lparr>mv_item := x\<rparr>)"
| push: "move_reach c moved dflt s \<Longrightarrow> push_choice i (mq s) \<Longrightarrow>
    push_move_step c moved i s = Inr s' \<Longrightarrow> move_reach c moved dflt s'"
| pop: "move_reach c moved dflt s \<Longrightarrow> pop_choice i (mq s) \<Longrightarrow>
    pop_step c moved i (mq s) = Inr q \<Longrightarrow> move_reach c moved dflt (s\<lparr>mq := q\<rparr>)"

section \<open>Invariant\<close>

text \<open>The variable holds the argument until the slot is written, and what the move left after.\<close>

fun item_ok :: "('a \<Rightarrow> 'a) \<Rightarrow> 'a \<Rightarrow> 'a push_pc \<Rightarrow> bool" where
  "item_ok moved v Push_Idle \<longleftrightarrow> True"
| "item_ok moved v (Push_Load_Head x t) \<longleftrightarrow> v = x"
| "item_ok moved v (Push_Write x t next) \<longleftrightarrow> v = x"
| "item_ok moved v (Push_Publish x next) \<longleftrightarrow> v = moved x"

text \<open>A call leaves a moved-from variable exactly when it was accepted.\<close>

fun call_ok :: "('a \<Rightarrow> 'a) \<Rightarrow> 'a \<times> bool \<times> 'a \<Rightarrow> bool" where
  "call_ok moved (x, ok, y) \<longleftrightarrow> y = (if ok then moved x else x)"

definition calls_ok :: "('a \<Rightarrow> 'a) \<Rightarrow> 'a spsc_move \<Rightarrow> bool" where
  "calls_ok moved s \<longleftrightarrow>
     (\<forall>r \<in> set (mv_calls s). call_ok moved r)
     \<and> pushed (mq s) = map fst (filter (fst \<circ> snd) (mv_calls s))"

lemma pop_step_keeps_push:
  "pop_step c moved i q = Inr q' \<Longrightarrow> push_pc q' = push_pc q \<and> pushed q' = pushed q"
  by (auto simp: pop_step_def Let_def res_bind_Inr_iff split: pop_pc.splits prod.splits if_splits)

lemma push_move_step_ok:
  assumes "push_move_step c moved i s = Inr s'" and "item_ok moved (mv_item s) (push_pc (mq s))"
    and "calls_ok moved s"
  shows "item_ok moved (mv_item s') (push_pc (mq s')) \<and> calls_ok moved s'"
  using assms
  by (cases "push_pc (mq s)")
    (auto simp: push_move_step_def push_step_def calls_ok_def Let_def res_bind_Inr_iff
      split: prod.splits if_splits)

lemma move_reach_ok:
  assumes "move_reach c moved dflt s"
  shows "spsc_reach c moved dflt (mq s) \<and> item_ok moved (mv_item s) (push_pc (mq s)) \<and> calls_ok moved s"
  using assms
proof (induction rule: move_reach.induct)
  case (push s i s')
  from push.hyps(3) have "push_step c (mv_item s) i (mq s) = Inr (mq s')"
    by (auto simp: push_move_step_def Let_def res_bind_Inr_iff)
  with push show ?case using push_move_step_ok spsc_reach.push by metis
next
  case (pop s i q)
  then show ?case using pop_step_keeps_push [OF pop.hyps(3)] spsc_reach.pop
    by (fastforce simp: calls_ok_def)
next
  case (start x)
  then show ?case
    using spsc_reach.start by (simp add: spsc_move_init_def calls_ok_def spsc_threads_init_def)
qed (simp_all add: calls_ok_def)

section \<open>An example\<close>

datatype 'a move_event = Assign 'a | Push_Moves nat | Pop_Moves nat

fun move_run :: "nat \<Rightarrow> ('a \<Rightarrow> 'a) \<Rightarrow> 'a move_event list \<Rightarrow> 'a spsc_move \<Rightarrow> 'a spsc_move res" where
  "move_run c moved [] s = Inr s"
| "move_run c moved (Assign x # es) s =
     (if push_pc (mq s) = Push_Idle then move_run c moved es (s\<lparr>mv_item := x\<rparr>) else Inr s)"
| "move_run c moved (Push_Moves i # es) s =
     (if push_choice i (mq s) then res_bind (push_move_step c moved i s) (move_run c moved es) else Inr s)"
| "move_run c moved (Pop_Moves i # es) s =
     (if pop_choice i (mq s)
      then res_bind (pop_step c moved i (mq s)) (\<lambda>q. move_run c moved es (s\<lparr>mq := q\<rparr>)) else Inr s)"

lemma move_run_reach:
  "move_reach c moved d s \<Longrightarrow> move_run c moved es s = Inr s' \<Longrightarrow> move_reach c moved d s'"
proof (induction c moved es s rule: move_run.induct)
  case (2 c moved x es s)
  then show ?case by (auto split: if_splits intro: move_reach.assign)
next
  case (3 c moved i es s)
  then show ?case by (auto simp: res_bind_Inr_iff split: if_splits intro: move_reach.push)
next
  case (4 c moved i es s)
  then show ?case by (auto simp: res_bind_Inr_iff split: if_splits intro: move_reach.pop)
qed simp

text \<open>On a ring of two slots: 7 is moved in, 8 is refused, the consumer takes 7, and 8 is accepted.\<close>

definition move_demo :: "int move_event list" where
  "move_demo = map Push_Moves [0, 0, 0, 0] @ Assign 8 # map Push_Moves [1, 0]
     @ map Pop_Moves [0, 1, 0, 0] @ map Push_Moves [1, 1, 0, 0]"

lemma move_demo_run:
  "\<exists>s. move_run 2 (\<lambda>_. - 1) move_demo (spsc_move_init 0 7) = Inr s
     \<and> mv_calls s = [(7, True, - 1), (8, False, 8), (8, True, - 1)] \<and> got (mq s) = [7]"
  by (simp add: move_demo_def spsc_move_init_def push_move_step_def spsc_eval)

section \<open>Properties\<close>

text \<open>
  Moving into the queue is as safe as copying, and a refusal costs nothing: every state of the two
  threads is one the copying overload reaches too, a call that was refused has left the variable as
  it was, one that was accepted has moved from it, and the accepted arguments, in order, are what was
  pushed. So \<open>while (!q.try_push(std::move(x)));\<close> never loses \<open>x\<close>.
\<close>

theorem spsc_move_calls:
  assumes "pow2_size c" and "2 \<le> c" and "move_reach c moved dflt s"
  shows "spsc_reach c moved dflt (mq s)
    \<and> (\<forall>r \<in> set (mv_calls s). call_ok moved r)
    \<and> pushed (mq s) = map fst (filter (fst \<circ> snd) (mv_calls s))
    \<and> prefix (got (mq s)) (pushed (mq s))
    \<and> (\<forall>i. push_choice i (mq s) \<longrightarrow> (\<exists>s'. push_move_step c moved i s = Inr s'))"
proof -
  have reach: "spsc_reach c moved dflt (mq s)" "calls_ok moved s"
    using move_reach_ok [OF assms(3)] by simp_all
  have inv: "spsc_inv c (mq s)" using spsc_reach_inv [OF assms(1) reach(1)] .
  have "\<exists>s'. push_move_step c moved i s = Inr s'" if "push_choice i (mq s)" for i
    using push_step_inv [OF assms(1) inv that, of "mv_item s"]
    by (auto simp: push_move_step_def Let_def simp del: split_paired_Ex)
  with reach got_prefix_pushed [OF inv] show ?thesis by (auto simp: calls_ok_def)
qed

theorem spsc_move_calls_witness:
  "\<exists>s. move_reach 2 (\<lambda>_. - 1) (0 :: int) s \<and> got (mq s) = [7]
     \<and> mv_calls s = [(7, True, - 1), (8, False, 8), (8, True, - 1)] \<and> pushed (mq s) = [7, 8]"
proof -
  obtain s where s: "move_run 2 (\<lambda>_. - 1) move_demo (spsc_move_init 0 7) = Inr s" "got (mq s) = [7]"
    "mv_calls s = [(7, True, - 1), (8, False, 8), (8, True, - 1)]"
    using move_demo_run by blast
  have reach: "move_reach 2 (\<lambda>_. - 1) 0 s" using move_run_reach [OF move_reach.start s(1)] .
  from spsc_move_calls [OF pow2_size_2 _ reach] s(3) have "pushed (mq s) = [7, 8]" by simp
  with s reach show ?thesis by blast
qed

end
