(* ===== verification/SpscOrders.thy ===== *)
theory SpscOrders
  imports SpscThreads
begin

text \<open>
  The memory orders of \<open>ll::SpscQueue\<close> as parameters: the steps of \<open>SpscThreads\<close> with an order for
  each of the six atomic accesses of \<open>try_push\<close> and \<open>try_pop\<close>. With the orders of the code they are
  those steps, so the queue is free of data races; with any one of the two acquire loads and two
  release stores made relaxed, some run of a queue of two slots ends in a data race. The loads of
  a thread's own index are relaxed already.
\<close>

section \<open>Steps with given orders\<close>

record spsc_orders =
  push_load_tail :: memory_order
  push_load_head :: memory_order
  push_store_tail :: memory_order
  pop_load_head :: memory_order
  pop_load_tail :: memory_order
  pop_store_head :: memory_order

definition code_orders :: spsc_orders where
  "code_orders = \<lparr>push_load_tail = Relaxed, push_load_head = Acquire, push_store_tail = Release,
     pop_load_head = Relaxed, pop_load_tail = Acquire, pop_store_head = Release\<rparr>"

definition push_step_with ::
  "spsc_orders \<Rightarrow> nat \<Rightarrow> 'a \<Rightarrow> nat \<Rightarrow> 'a spsc_threads \<Rightarrow> 'a spsc_threads res" where
  "push_step_with mo c item i s = (case push_pc s of
     Push_Idle \<Rightarrow>
       (let (t, m) = atomic_load (push_load_tail mo) Producer Tail i (mem s) in
        Inr (s\<lparr>mem := m, push_pc := Push_Load_Head item t\<rparr>))
   | Push_Load_Head x t \<Rightarrow>
       (let next = (t + 1) AND (word_of_nat c - 1);
            (h, m) = atomic_load (push_load_head mo) Producer Head i (mem s) in
        Inr (s\<lparr>mem := m, push_pc := (if next = h then Push_Idle else Push_Write x t next)\<rparr>))
   | Push_Write x t next \<Rightarrow>
       if unat t < c
       then res_bind (na_write Producer (unat t) x (mem s))
              (\<lambda>m. Inr (s\<lparr>mem := m, push_pc := Push_Publish x next\<rparr>))
       else Inl Out_Of_Bounds
   | Push_Publish x next \<Rightarrow>
       Inr (s\<lparr>mem := atomic_store (push_store_tail mo) Producer Tail next (mem s), push_pc := Push_Idle,
             pushed := pushed s @ [x]\<rparr>))"

definition pop_step_with ::
  "spsc_orders \<Rightarrow> nat \<Rightarrow> ('a \<Rightarrow> 'a) \<Rightarrow> nat \<Rightarrow> 'a spsc_threads \<Rightarrow> 'a spsc_threads res" where
  "pop_step_with mo c moved i s = (case pop_pc s of
     Pop_Idle \<Rightarrow>
       (let (h, m) = atomic_load (pop_load_head mo) Consumer Head i (mem s) in
        Inr (s\<lparr>mem := m, pop_pc := Pop_Load_Tail h\<rparr>))
   | Pop_Load_Tail h \<Rightarrow>
       (let (t, m) = atomic_load (pop_load_tail mo) Consumer Tail i (mem s) in
        Inr (s\<lparr>mem := m, pop_pc := (if h = t then Pop_Idle else Pop_Take h)\<rparr>))
   | Pop_Take h \<Rightarrow>
       if unat h < c
       then res_bind (na_move moved Consumer (unat h) (mem s))
              (\<lambda>(out, m). Inr (s\<lparr>mem := m, pop_pc := Pop_Publish h out\<rparr>))
       else Inl Out_Of_Bounds
   | Pop_Publish h out \<Rightarrow>
       Inr (s\<lparr>mem := atomic_store (pop_store_head mo) Consumer Head
                       ((h + 1) AND (word_of_nat c - 1)) (mem s),
             pop_pc := Pop_Idle, got := got s @ [out]\<rparr>))"

text \<open>The orders of the code.\<close>

lemma code_orders_sel:
  "push_load_tail code_orders = Relaxed" "push_load_head code_orders = Acquire"
  "push_store_tail code_orders = Release" "pop_load_head code_orders = Relaxed"
  "pop_load_tail code_orders = Acquire" "pop_store_head code_orders = Release"
  by (simp_all add: code_orders_def)

lemma steps_with_code_orders:
  "push_step_with code_orders = push_step" "pop_step_with code_orders = pop_step"
  unfolding push_step_with_def [abs_def] push_step_def [abs_def] pop_step_with_def [abs_def]
    pop_step_def [abs_def] code_orders_sel by (rule refl)+

section \<open>Runs\<close>

inductive spsc_reach_with :: "spsc_orders \<Rightarrow> nat \<Rightarrow> ('a \<Rightarrow> 'a) \<Rightarrow> 'a \<Rightarrow> 'a spsc_threads \<Rightarrow> bool"
  for mo c moved dflt where
  start_with: "spsc_reach_with mo c moved dflt (spsc_threads_init dflt)"
| push_with: "spsc_reach_with mo c moved dflt s \<Longrightarrow> push_choice i s \<Longrightarrow>
    push_step_with mo c item i s = Inr s' \<Longrightarrow> spsc_reach_with mo c moved dflt s'"
| pop_with: "spsc_reach_with mo c moved dflt s \<Longrightarrow> pop_choice i s \<Longrightarrow>
    pop_step_with mo c moved i s = Inr s' \<Longrightarrow> spsc_reach_with mo c moved dflt s'"

lemma spsc_reach_with_code: "spsc_reach_with code_orders c moved dflt s \<Longrightarrow> spsc_reach c moved dflt s"
  by (induction rule: spsc_reach_with.induct)
    (auto simp: steps_with_code_orders intro: spsc_reach.intros)

fun sched_with :: "spsc_orders \<Rightarrow> nat \<Rightarrow> ('a \<Rightarrow> 'a) \<Rightarrow> 'a sched list \<Rightarrow> 'a spsc_threads \<Rightarrow> 'a spsc_threads res"
  where
  "sched_with mo c moved [] s = Inr s"
| "sched_with mo c moved (Producer_Moves x i # es) s =
     (if push_choice i s then res_bind (push_step_with mo c x i s) (sched_with mo c moved es) else Inr s)"
| "sched_with mo c moved (Consumer_Moves i # es) s =
     (if pop_choice i s then res_bind (pop_step_with mo c moved i s) (sched_with mo c moved es) else Inr s)"

lemma sched_with_reach:
  "spsc_reach_with mo c moved d s \<Longrightarrow> sched_with mo c moved es s = Inr s' \<Longrightarrow> spsc_reach_with mo c moved d s'"
proof (induction mo c moved es s rule: sched_with.induct)
  case (2 mo c moved x i es s)
  then show ?case by (auto simp: res_bind_Inr_iff split: if_splits intro: spsc_reach_with.push_with)
next
  case (3 mo c moved i es s)
  then show ?case by (auto simp: res_bind_Inr_iff split: if_splits intro: spsc_reach_with.pop_with)
qed simp

section \<open>Loads of a thread's own index\<close>

text \<open>
  Acquiring a store of one's own teaches nothing: what it carries was known to its thread when it
  was made, and a thread does not forget.
\<close>

definition own_msgs :: "thread \<Rightarrow> 'l \<Rightarrow> ('l, 'v, 'x, 'a) machine \<Rightarrow> bool" where
  "own_msgs t l m \<longleftrightarrow> (\<forall>i < length (hist m l). msg_seen (hist m l ! i) l \<le> i
     \<and> (\<forall>l'. l' \<noteq> l \<longrightarrow> msg_seen (hist m l ! i) l' \<le> seen m t l')
     \<and> (\<forall>t'. msg_clock (hist m l ! i) t' \<le> clock m t t'))"

lemma own_load:
  assumes "own_msgs t l m" and "can_read m t l i"
  shows "atomic_load Acquire t l i m = atomic_load Relaxed t l i m"
proof -
  have m: "msg_seen (hist m l ! i) l \<le> i" "\<And>l'. l' \<noteq> l \<Longrightarrow> msg_seen (hist m l ! i) l' \<le> seen m t l'"
    "\<And>t'. msg_clock (hist m l ! i) t' \<le> clock m t t'"
    using assms by (simp_all add: own_msgs_def can_read_def)
  have "(\<lambda>l'. max (((seen m t)(l := i)) l') (msg_seen (hist m l ! i) l')) = (seen m t)(l := i)"
    using m(1,2) by (auto simp: fun_eq_iff max_def intro: antisym)
  moreover have "(\<lambda>t'. max (clock m t t') (msg_clock (hist m l ! i) t')) = clock m t"
    using m(3) by (simp add: fun_eq_iff max_absorb1)
  ultimately show ?thesis by (simp add: atomic_load_def Let_def)
qed

lemma own_msgs_init: "own_msgs t l (machine_init v0 a0)"
  by (simp add: own_msgs_def machine_init_def)

text \<open>Knowledge only grows.\<close>

lemma own_msgs_mono:
  assumes "own_msgs t l m" and "hist m' l = hist m l" and "\<And>l'. seen m t l' \<le> seen m' t l'"
    and "\<And>t'. clock m t t' \<le> clock m' t t'"
  shows "own_msgs t l m'"
  using assms(1) unfolding own_msgs_def assms(2)
  by (simp, blast intro: order_trans [OF _ assms(3)] order_trans [OF _ assms(4)])

lemma own_msgs_load:
  "own_msgs t l m \<Longrightarrow> atomic_load mo t' l' i m = (v, m') \<Longrightarrow> can_read m t' l' i \<Longrightarrow> own_msgs t l m'"
  by (erule own_msgs_mono)
    (auto simp: atomic_load_def can_read_def Let_def le_max_iff_disj split: if_splits)

lemma own_msgs_store:
  assumes "own_msgs t l m" and "t' = t \<and> l' = l \<or> t' \<noteq> t \<and> l' \<noteq> l"
  shows "own_msgs t l (atomic_store mo t' l' v m)"
  using assms by (auto simp: own_msgs_def atomic_store_def Let_def nth_append less_Suc_eq)

lemma own_msgs_access:
  "own_msgs t l m \<Longrightarrow> na_write t' x v m = Inr m' \<Longrightarrow> own_msgs t l m'"
  by (erule own_msgs_mono) (auto simp: na_write_def count_access_def Let_def split: if_splits)

text \<open>In every run, whatever the orders.\<close>

definition own_inv :: "'a spsc_threads \<Rightarrow> bool" where
  "own_inv s \<longleftrightarrow> own_msgs Producer Tail (mem s) \<and> own_msgs Consumer Head (mem s)"

lemma own_inv_push:
  assumes "own_inv s" and "push_choice i s" and "push_step_with mo c item i s = Inr s'"
  shows "own_inv s'"
  using assms
  by (cases "push_pc s")
    (auto simp: own_inv_def push_step_with_def push_choice_def own_msgs_store Let_def res_bind_Inr_iff
      split: prod.splits if_splits intro: own_msgs_load own_msgs_access)

lemma own_inv_pop:
  assumes "own_inv s" and "pop_choice i s" and "pop_step_with mo c moved i s = Inr s'"
  shows "own_inv s'"
  using assms
  by (cases "pop_pc s")
    (auto simp: own_inv_def pop_step_with_def pop_choice_def own_msgs_store Let_def res_bind_Inr_iff
      na_move_def split: prod.splits if_splits intro: own_msgs_load own_msgs_access)

lemma own_inv_reach: "spsc_reach_with mo c moved d s \<Longrightarrow> own_inv s"
proof (induction rule: spsc_reach_with.induct)
  case start_with
  show ?case by (simp add: own_inv_def spsc_threads_init_def own_msgs_init)
qed (auto intro: own_inv_push own_inv_pop)

text \<open>So the orders of these loads make no difference.\<close>

definition relax_own :: "spsc_orders \<Rightarrow> spsc_orders" where
  "relax_own mo = mo\<lparr>push_load_tail := Relaxed, pop_load_head := Relaxed\<rparr>"

lemma own_load_any:
  assumes "own_msgs t l m" and "can_read m t l i"
  shows "atomic_load mo t l i m = atomic_load Relaxed t l i m"
proof (cases mo)
  case Acquire
  then show ?thesis by (simp add: own_load [OF assms])
qed (simp_all add: atomic_load_def)

lemma steps_relax_own:
  "own_inv s \<Longrightarrow> push_choice i s \<Longrightarrow> push_step_with (relax_own mo) c item i s = push_step_with mo c item i s"
  "own_inv s \<Longrightarrow> pop_choice i s \<Longrightarrow> pop_step_with (relax_own mo) c moved i s = pop_step_with mo c moved i s"
proof -
  assume "own_inv s" "push_choice i s"
  then show "push_step_with (relax_own mo) c item i s = push_step_with mo c item i s"
    using own_load_any [of Producer Tail "mem s" i "push_load_tail mo"]
    by (cases "push_pc s") (simp_all add: own_inv_def push_step_with_def push_choice_def relax_own_def)
next
  assume "own_inv s" "pop_choice i s"
  then show "pop_step_with (relax_own mo) c moved i s = pop_step_with mo c moved i s"
    using own_load_any [of Consumer Head "mem s" i "pop_load_head mo"]
    by (cases "pop_pc s") (simp_all add: own_inv_def pop_step_with_def pop_choice_def relax_own_def)
qed

lemma reach_relax_own: "spsc_reach_with (relax_own mo) c moved d s \<longleftrightarrow> spsc_reach_with mo c moved d s"
proof
  show "spsc_reach_with (relax_own mo) c moved d s \<Longrightarrow> spsc_reach_with mo c moved d s"
    by (induction rule: spsc_reach_with.induct)
      (metis spsc_reach_with.intros own_inv_reach steps_relax_own)+
  show "spsc_reach_with mo c moved d s \<Longrightarrow> spsc_reach_with (relax_own mo) c moved d s"
    by (induction rule: spsc_reach_with.induct)
      (metis spsc_reach_with.intros own_inv_reach steps_relax_own)+
qed

text \<open>A race the consumer, or the producer, runs into.\<close>

definition pop_races :: "spsc_orders \<Rightarrow> nat \<Rightarrow> bool" where
  "pop_races mo c \<longleftrightarrow> (\<exists>(s :: int spsc_threads) i.
     spsc_reach_with mo c id 0 s \<and> pop_choice i s \<and> pop_step_with mo c id i s = Inl Data_Race)"

definition push_races :: "spsc_orders \<Rightarrow> nat \<Rightarrow> bool" where
  "push_races mo c \<longleftrightarrow> (\<exists>(s :: int spsc_threads) i item.
     spsc_reach_with mo c id 0 s \<and> push_choice i s \<and> push_step_with mo c item i s = Inl Data_Race)"

lemma pop_racesI:
  "sched_with mo c id es (spsc_threads_init (0 :: int)) = Inr s \<Longrightarrow> pop_choice 0 s \<Longrightarrow>
    pop_step_with mo c id 0 s = Inl Data_Race \<Longrightarrow> pop_races mo c"
  unfolding pop_races_def by (intro exI conjI, erule sched_with_reach [OF spsc_reach_with.start_with])

lemma push_racesI:
  "sched_with mo c id es (spsc_threads_init (0 :: int)) = Inr s \<Longrightarrow> push_choice 0 s \<Longrightarrow>
    push_step_with mo c 9 0 s = Inl Data_Race \<Longrightarrow> push_races mo c"
  unfolding push_races_def by (intro exI conjI, erule sched_with_reach [OF spsc_reach_with.start_with])

lemmas orders_eval =
  spsc_threads_init_def machine_init_def push_step_with_def pop_step_with_def push_choice_def
  pop_choice_def code_orders_def ra_defs

text \<open>
  The consumer takes an item without knowing that it was written: a push, and a pop up to its
  access to the slot.
\<close>

definition first_item :: "int sched list" where
  "first_item = [Producer_Moves 7 0, Producer_Moves 7 0, Producer_Moves 7 0, Producer_Moves 7 0,
     Consumer_Moves 0, Consumer_Moves 1]"

text \<open>
  The producer comes round to a slot without knowing that it was read: two pushes and pops in turn,
  and a third push up to its access.
\<close>

definition second_round :: "int sched list" where
  "second_round =
     [Producer_Moves 7 0, Producer_Moves 7 0, Producer_Moves 7 0, Producer_Moves 7 0,
      Consumer_Moves 0, Consumer_Moves 1, Consumer_Moves 0, Consumer_Moves 0,
      Producer_Moves 8 1, Producer_Moves 8 1, Producer_Moves 8 0, Producer_Moves 8 0,
      Consumer_Moves 1, Consumer_Moves 2, Consumer_Moves 0, Consumer_Moves 0,
      Producer_Moves 9 2, Producer_Moves 9 2]"

lemma races_relax_own:
  "pop_races (relax_own mo) c \<longleftrightarrow> pop_races mo c" "push_races (relax_own mo) c \<longleftrightarrow> push_races mo c"
  unfolding pop_races_def push_races_def reach_relax_own
  by (metis own_inv_reach steps_relax_own)+

lemma relaxed_tail_races:
  assumes "push_store_tail mo \<noteq> Release \<or> pop_load_tail mo \<noteq> Acquire"
  shows "pop_races mo 2"
proof -
  obtain plh pst olt osh where mo: "relax_own mo = \<lparr>push_load_tail = Relaxed, push_load_head = plh,
      push_store_tail = pst, pop_load_head = Relaxed, pop_load_tail = olt, pop_store_head = osh\<rparr>"
    by (cases mo) (simp add: relax_own_def)
  have weak: "pst \<noteq> Release \<or> olt \<noteq> Acquire"
    using assms arg_cong [OF mo, of push_store_tail] arg_cong [OF mo, of pop_load_tail]
    by (auto simp: relax_own_def)
  have "\<exists>s. sched_with (relax_own mo) 2 id first_item (spsc_threads_init 0) = Inr s \<and> pop_choice 0 s
      \<and> pop_step_with (relax_own mo) 2 id 0 s = Inl Data_Race"
    using weak unfolding mo
    by (cases plh; cases pst; cases olt) (simp_all add: first_item_def orders_eval)
  then have "pop_races (relax_own mo) 2" using pop_racesI by blast
  then show ?thesis by (simp add: races_relax_own)
qed

lemma relaxed_head_races:
  assumes "push_store_tail mo = Release" "pop_load_tail mo = Acquire"
    and "pop_store_head mo \<noteq> Release \<or> push_load_head mo \<noteq> Acquire"
  shows "push_races mo 2"
proof -
  obtain plh osh where mo: "relax_own mo = \<lparr>push_load_tail = Relaxed, push_load_head = plh,
      push_store_tail = Release, pop_load_head = Relaxed, pop_load_tail = Acquire, pop_store_head = osh\<rparr>"
    using assms by (cases mo) (simp add: relax_own_def)
  have weak: "osh \<noteq> Release \<or> plh \<noteq> Acquire"
    using assms arg_cong [OF mo, of pop_store_head] arg_cong [OF mo, of push_load_head]
    by (auto simp: relax_own_def)
  have "\<exists>s. sched_with (relax_own mo) 2 id second_round (spsc_threads_init 0) = Inr s \<and> push_choice 0 s
      \<and> push_step_with (relax_own mo) 2 9 0 s = Inl Data_Race"
    using weak unfolding mo
    by (cases plh; cases osh) (simp_all add: second_round_def orders_eval)
  then have "push_races (relax_own mo) 2" using push_racesI by blast
  then show ?thesis by (simp add: races_relax_own)
qed

section \<open>Which orders are enough\<close>

lemma code_orders_race_free:
  assumes "pow2_size c"
  shows "\<not> pop_races code_orders c" and "\<not> push_races code_orders c"
proof -
  have inv: "spsc_inv c s" if "spsc_reach_with code_orders c id (0 :: int) s" for s
    using spsc_reach_inv [OF assms spsc_reach_with_code [OF that]] .
  have "\<exists>s'. pop_step c id i s = Inr s'" if "spsc_inv c s" "pop_choice i s" for i and s :: "int spsc_threads"
    using pop_step_inv [OF assms that, of id] by blast
  then show "\<not> pop_races code_orders c"
    using inv unfolding pop_races_def steps_with_code_orders by (metis sum.simps(4))
  have "\<exists>s'. push_step c x i s = Inr s'" if "spsc_inv c s" "push_choice i s" for i x and s :: "int spsc_threads"
    using push_step_inv [OF assms that] by blast
  then show "\<not> push_races code_orders c"
    using inv unfolding push_races_def steps_with_code_orders by (metis sum.simps(4))
qed

text \<open>
  C4: Which memory orders the queue needs. Whatever orders its six atomic accesses are given, the
  queue is free of data races at every capacity if and only if the two loads of the other
  thread's index are acquire loads and both stores are release stores; the orders of the loads of
  a thread's own index do not matter. The orders of the code are the weakest ones: with any of the
  four relaxed, a queue of two slots has a run that ends in a data race. (An order that an access
  must not have, such as a release load, counts as relaxed.)
\<close>

theorem spsc_orders_exact:
  "(\<forall>c. pow2_size c \<longrightarrow> \<not> pop_races mo c \<and> \<not> push_races mo c) \<longleftrightarrow>
     push_load_head mo = push_load_head code_orders \<and> push_store_tail mo = push_store_tail code_orders
     \<and> pop_load_tail mo = pop_load_tail code_orders \<and> pop_store_head mo = pop_store_head code_orders"
  (is "?free \<longleftrightarrow> ?orders")
proof
  assume ?orders
  then have "relax_own mo = code_orders" by (cases mo) (simp add: relax_own_def code_orders_def)
  then show ?free using code_orders_race_free races_relax_own [of mo] by simp
next
  assume ?free
  then have "\<not> pop_races mo 2" "\<not> push_races mo 2" using pow2_size_2 by blast+
  then show ?orders
    using relaxed_tail_races [of mo] relaxed_head_races [of mo] by (auto simp: code_orders_sel)
qed

theorem spsc_orders_exact_witness:
  "\<not> pop_races code_orders 4 \<and> \<not> push_races code_orders 4
   \<and> (\<exists>c. pow2_size c \<and> (pop_races (code_orders\<lparr>pop_store_head := Relaxed\<rparr>) c
        \<or> push_races (code_orders\<lparr>pop_store_head := Relaxed\<rparr>) c))"
proof -
  have "pow2_size 4" by (auto simp: pow2_size_def intro!: exI [of _ 2])
  moreover have "pop_store_head (code_orders\<lparr>pop_store_head := Relaxed\<rparr>) \<noteq> pop_store_head code_orders"
    by (simp add: code_orders_def)
  ultimately show ?thesis
    using spsc_orders_exact [of code_orders] spsc_orders_exact [of "code_orders\<lparr>pop_store_head := Relaxed\<rparr>"]
    by blast
qed

end
