(* ===== verification/Bytes.thy ===== *)
theory Bytes
  imports Prelude
begin

text \<open>
  Bytes in memory: the two directions of \<open>std::memcpy\<close> between an object and a buffer, the
  object representation of the unsigned integers on a little-endian and on a big-endian host,
  and the interface of a field at a fixed place of a buffer.
\<close>

section \<open>Copying from and to a buffer\<close>

text \<open>
  \<open>mem_read buf at n\<close> is \<open>memcpy(&obj, p, n)\<close> and \<open>mem_write buf at bs\<close> is
  \<open>memcpy(p, &obj, n)\<close>, where \<open>p\<close> points \<open>at\<close> bytes into the object \<open>buf\<close>. Outside the
  object both are undefined.
\<close>

definition mem_read :: "u8 list \<Rightarrow> nat \<Rightarrow> nat \<Rightarrow> u8 list res" where
  "mem_read buf at n =
     (if at + n \<le> length buf then Inr (take n (drop at buf)) else Inl Out_Of_Bounds)"

definition mem_write :: "u8 list \<Rightarrow> nat \<Rightarrow> u8 list \<Rightarrow> u8 list res" where
  "mem_write buf at bs =
     (if at + length bs \<le> length buf
      then Inr (take at buf @ bs @ drop (at + length bs) buf) else Inl Out_Of_Bounds)"

lemma mem_read_ok [buf_simps]:
  "at + n \<le> length buf \<Longrightarrow> mem_read buf at n = Inr (take n (drop at buf))"
  by (simp add: mem_read_def)

lemma mem_write_ok [buf_simps]:
  "at + length bs \<le> length buf \<Longrightarrow>
    mem_write buf at bs = Inr (take at buf @ bs @ drop (at + length bs) buf)"
  by (simp add: mem_write_def)

lemma mem_write_length: "mem_write buf at bs = Inr buf' \<Longrightarrow> length buf' = length buf"
  by (auto simp: mem_write_def split: if_splits)

lemma mem_write_Inr_iff:
  "(\<exists>buf'. mem_write buf at bs = Inr buf') \<longleftrightarrow> at + length bs \<le> length buf"
  by (simp add: mem_write_def)

lemma mem_write_nth:
  assumes "mem_write buf at bs = Inr buf'" and "k < length buf"
  shows "buf' ! k = (if at \<le> k \<and> k < at + length bs then bs ! (k - at) else buf ! k)"
  using assms by (auto simp: mem_write_def nth_append split: if_splits)

text \<open>A read gives the bytes last written there, and nothing written elsewhere.\<close>

lemma read_after_write:
  assumes "mem_write buf at bs = Inr buf'"
  shows "mem_read buf' at (length bs) = Inr bs"
  using assms by (auto simp: mem_write_def mem_read_def split: if_splits)

lemma read_other:
  assumes w: "mem_write buf at bs = Inr buf'" and dis: "at' + n \<le> at \<or> at + length bs \<le> at'"
  shows "mem_read buf' at' n = mem_read buf at' n"
proof (cases "at' + n \<le> length buf")
  case True
  have len: "length buf' = length buf" using w by (rule mem_write_length)
  have "take n (drop at' buf') = take n (drop at' buf)"
    using True len dis by (intro nth_equalityI) (auto simp: mem_write_nth [OF w])
  with True len show ?thesis by (simp add: mem_read_def)
next
  case False
  then show ?thesis using mem_write_length [OF w] by (simp add: mem_read_def)
qed

text \<open>Writes side by side are one write.\<close>

lemma write_write_adjacent:
  assumes "mem_write buf at bs = Inr buf'" and "at + length bs + length cs \<le> length buf"
  shows "mem_write buf' (at + length bs) cs = mem_write buf at (bs @ cs)"
proof -
  have "at + length bs \<le> length buf" "buf' = take at buf @ bs @ drop (at + length bs) buf"
    using assms(1) by (auto simp: mem_write_def split: if_splits)
  with assms(2) show ?thesis by (simp add: mem_write_def min_absorb2 ac_simps)
qed

text \<open>The same along a chain of writes, each where the one before it ended.\<close>

lemma write_chain:
  assumes "at' = at + length bs" and "at + length bs + length cs \<le> length buf"
  shows "res_bind (mem_write buf at bs) (\<lambda>b. mem_write b at' cs) = mem_write buf at (bs @ cs)"
    and "res_bind (mem_write buf at bs) (\<lambda>b. res_bind (mem_write b at' cs) f)
       = res_bind (mem_write buf at (bs @ cs)) f"
proof -
  show one: "res_bind (mem_write buf at bs) (\<lambda>b. mem_write b at' cs) = mem_write buf at (bs @ cs)"
    using assms write_write_adjacent [of buf at bs _ cs] by (simp add: mem_write_def)
  show "res_bind (mem_write buf at bs) (\<lambda>b. res_bind (mem_write b at' cs) f)
       = res_bind (mem_write buf at (bs @ cs)) f"
    by (simp only: one flip: res_bind_assoc)
qed

lemma write_commute:
  assumes "at + length bs \<le> at' \<or> at' + length cs \<le> at"
  shows "res_bind (mem_write buf at bs) (\<lambda>b. mem_write b at' cs)
       = res_bind (mem_write buf at' cs) (\<lambda>b. mem_write b at bs)"
proof -
  have eq: "b1 = b2" if w: "mem_write buf at bs = Inr b" "mem_write b at' cs = Inr b1"
    "mem_write buf at' cs = Inr b'" "mem_write b' at bs = Inr b2" for b b' b1 b2
  proof (rule nth_equalityI)
    note len = w [THEN mem_write_length]
    show "length b1 = length b2" using len by simp
    fix k assume "k < length b1"
    then show "b1 ! k = b2 ! k"
      using len assms by (auto simp: mem_write_nth [OF w(1)] mem_write_nth [OF w(2)]
          mem_write_nth [OF w(3)] mem_write_nth [OF w(4)])
  qed
  show ?thesis
  proof (cases "at + length bs \<le> length buf \<and> at' + length cs \<le> length buf")
    case True
    then obtain b b' where w: "mem_write buf at bs = Inr b" "mem_write buf at' cs = Inr b'"
      by (simp add: mem_write_def)
    then have "length b = length buf" "length b' = length buf" by (auto dest: mem_write_length)
    with True obtain b1 b2 where w2: "mem_write b at' cs = Inr b1" "mem_write b' at bs = Inr b2"
      by (simp add: mem_write_def)
    with eq [OF w(1) w2(1) w(2) w2(2)] w show ?thesis by simp
  next
    case False
    then show ?thesis by (auto simp: mem_write_def)
  qed
qed

section \<open>Little-endian bytes\<close>

fun le_bytes :: "nat \<Rightarrow> 'a::len word \<Rightarrow> u8 list" where
  "le_bytes 0 w = []"
| "le_bytes (Suc n) w = ucast w # le_bytes n (drop_bit 8 w)"

fun le_word :: "u8 list \<Rightarrow> 'a::len word" where
  "le_word [] = 0"
| "le_word (b # bs) = ucast b OR push_bit 8 (le_word bs)"

lemma length_le_bytes [simp]: "length (le_bytes n w) = n"
  by (induction n arbitrary: w) simp_all

lemma le_word_le_bytes: "(le_word (le_bytes n w) :: 'a::len word) = take_bit (8 * n) w"
proof (induction n arbitrary: w)
  case (Suc n)
  have "(ucast (ucast w :: u8) :: 'a word) OR push_bit 8 (take_bit (8 * n) (drop_bit 8 w))
      = take_bit (8 * Suc n) w"
    by (rule bit_word_eqI) (auto simp: bit_simps)
  with Suc show ?case by simp
qed simp

lemma le_bytes_le_word:
  "8 * length bs \<le> LENGTH('a::len) \<Longrightarrow> le_bytes (length bs) (le_word bs :: 'a word) = bs"
proof (induction bs)
  case (Cons b bs)
  let ?w = "le_word bs :: 'a word"
  have len: "8 * length bs \<le> LENGTH('a)" "8 \<le> LENGTH('a)" using Cons.prems by simp_all
  have w: "?w = take_bit (8 * length bs) ?w"
    using Cons.IH len(1) le_word_le_bytes [of "length bs" ?w] by simp
  have high: "\<not> bit ?w k" if "8 * length bs \<le> k" for k
    using that by (subst w) (simp add: bit_take_bit_iff)
  have "ucast (ucast b OR push_bit 8 ?w :: 'a word) = b"
    by (rule bit_word_eqI) (use len in \<open>auto simp: bit_simps\<close>)
  moreover have "drop_bit 8 (ucast b OR push_bit 8 ?w :: 'a word) = ?w"
    by (rule bit_word_eqI) (use Cons.prems high in \<open>auto simp: bit_simps dest: bit_imp_le_length\<close>)
  ultimately show ?case using Cons.IH len by simp
qed simp

text \<open>The bytes of an unsigned integer as the host keeps them.\<close>

datatype byte_order = Little_Endian | Big_Endian

definition host_order :: "byte_order \<Rightarrow> u8 list \<Rightarrow> u8 list" where
  "host_order bo bs = (case bo of Little_Endian \<Rightarrow> bs | Big_Endian \<Rightarrow> rev bs)"

definition host_bytes :: "byte_order \<Rightarrow> 'a::len word \<Rightarrow> u8 list" where
  "host_bytes bo w = host_order bo (le_bytes (LENGTH('a) div 8) w)"

definition host_word :: "byte_order \<Rightarrow> u8 list \<Rightarrow> 'a::len word" where
  "host_word bo bs = le_word (host_order bo bs)"

text \<open>\<open>__builtin_bswap16\<close>, \<open>32\<close> and \<open>64\<close>: the bytes in the opposite order.\<close>

definition bswap :: "'a::len word \<Rightarrow> 'a word" where
  "bswap w = le_word (rev (le_bytes (LENGTH('a) div 8) w))"

lemma host_order_simps [simp]:
  "length (host_order bo bs) = length bs"
  "host_order bo (host_order bo bs) = bs"
  by (cases bo; simp add: host_order_def)+

lemma length_host_bytes [simp]: "length (host_bytes bo (w :: 'a::len word)) = LENGTH('a) div 8"
  by (simp add: host_bytes_def)

text \<open>Types whose width is a whole number of bytes.\<close>

definition byte_sized :: "'a::len itself \<Rightarrow> bool" where
  "byte_sized t \<longleftrightarrow> 8 dvd LENGTH('a)"

lemma byte_sized_simps [simp]:
  "byte_sized TYPE(8)" "byte_sized TYPE(16)" "byte_sized TYPE(32)" "byte_sized TYPE(64)"
  by (simp_all add: byte_sized_def)

lemma le_word_all_bytes:
  assumes "byte_sized TYPE('a::len)"
  shows "(le_word (le_bytes (LENGTH('a) div 8) w) :: 'a word) = w"
  using assms by (simp add: le_word_le_bytes byte_sized_def)

lemma le_bytes_all_bytes:
  "length bs = LENGTH('a::len) div 8 \<Longrightarrow> le_bytes (LENGTH('a) div 8) (le_word bs :: 'a word) = bs"
  using le_bytes_le_word [of bs, where 'a = 'a] by simp

lemma host_word_bytes:
  "byte_sized TYPE('a::len) \<Longrightarrow> (host_word bo (host_bytes bo w) :: 'a word) = w"
  by (simp add: host_word_def host_bytes_def le_word_all_bytes)

lemma host_bytes_word:
  assumes "length bs = LENGTH('a::len) div 8"
  shows "host_bytes bo (host_word bo bs :: 'a word) = bs"
  using assms le_bytes_all_bytes [of "host_order bo bs", where 'a = 'a]
  by (simp add: host_word_def host_bytes_def)

section \<open>Fields\<close>

text \<open>
  A value encoded in \<open>width\<close> bytes, read from and written to a place of a buffer. The locale
  \<open>wire_codec\<close> is what the users of an encoding rely on.
\<close>

definition field_get :: "(u8 list \<Rightarrow> 'v) \<Rightarrow> nat \<Rightarrow> u8 list \<Rightarrow> nat \<Rightarrow> 'v res" where
  "field_get dec width buf at = res_bind (mem_read buf at width) (\<lambda>bs. Inr (dec bs))"

definition field_put :: "('v \<Rightarrow> u8 list) \<Rightarrow> u8 list \<Rightarrow> nat \<Rightarrow> 'v \<Rightarrow> u8 list res" where
  "field_put enc buf at v = mem_write buf at (enc v)"

locale wire_codec =
  fixes enc :: "'v \<Rightarrow> u8 list"
    and dec :: "u8 list \<Rightarrow> 'v"
    and width :: nat
  assumes length_enc: "length (enc v) = width"
    and dec_enc: "dec (enc v) = v"
    and enc_dec: "length bs = width \<Longrightarrow> enc (dec bs) = bs"
begin

lemma enc_inj: "enc v = enc v' \<Longrightarrow> v = v'"
  using dec_enc by metis

lemma put_defined: "(\<exists>buf'. field_put enc buf at v = Inr buf') \<longleftrightarrow> at + width \<le> length buf"
  by (simp add: field_put_def mem_write_Inr_iff length_enc)

lemma put_outside: "\<not> at + width \<le> length buf \<Longrightarrow> field_put enc buf at v = Inl Out_Of_Bounds"
  by (simp add: field_put_def mem_write_def length_enc)

lemma get_value:
  "field_get dec width buf at =
     (if at + width \<le> length buf then Inr (dec (take width (drop at buf))) else Inl Out_Of_Bounds)"
  by (simp add: field_get_def mem_read_def)

lemma get_put: "field_put enc buf at v = Inr buf' \<Longrightarrow> field_get dec width buf' at = Inr v"
  unfolding field_put_def field_get_def
  using read_after_write [of buf at "enc v" buf'] by (simp add: length_enc dec_enc)

lemma put_get: "field_get dec width buf at = Inr v \<Longrightarrow> field_put enc buf at v = Inr buf"
  by (auto simp: get_value field_put_def mem_write_def length_enc enc_dec split: if_splits)
    (metis append_take_drop_id drop_drop add.commute)

lemma get_other:
  "field_put enc buf at v = Inr buf' \<Longrightarrow> at' + width' \<le> at \<or> at + width \<le> at' \<Longrightarrow>
    field_get dec' width' buf' at' = field_get dec' width' buf at'"
  unfolding field_put_def field_get_def using read_other [of buf at "enc v" buf' at' width']
  by (simp add: length_enc)

lemma get_at: "length pre = at \<Longrightarrow> field_get dec width (pre @ enc v @ post) at = Inr v"
  by (simp add: get_value length_enc dec_enc)

end

text \<open>Host integers are such an encoding.\<close>

interpretation host8: wire_codec "host_bytes bo :: u8 \<Rightarrow> _" "host_word bo" 1 for bo
  by unfold_locales (simp_all add: host_word_bytes host_bytes_word)

interpretation host16: wire_codec "host_bytes bo :: u16 \<Rightarrow> _" "host_word bo" 2 for bo
  by unfold_locales (simp_all add: host_word_bytes host_bytes_word)

interpretation host32: wire_codec "host_bytes bo :: u32 \<Rightarrow> _" "host_word bo" 4 for bo
  by unfold_locales (simp_all add: host_word_bytes host_bytes_word)

interpretation host64: wire_codec "host_bytes bo :: u64 \<Rightarrow> _" "host_word bo" 8 for bo
  by unfold_locales (simp_all add: host_word_bytes host_bytes_word)

end
