(* ===== verification/Decimal.thy ===== *)
theory Decimal
  imports Prelude
begin

text \<open>
  Decimal output: what \<open>operator<<\<close> of a \<open>std::ostream\<close> with its default formatting (base ten,
  no padding) and \<open>%u\<close>/\<open>%d\<close> of \<open>printf\<close> write for an integer, with the facts the printers of
  the flyweights rest on: the digits of a number can be read back, also from the front of a
  longer text.
\<close>

definition digit_char :: "nat \<Rightarrow> char" where
  "digit_char d = char_of (48 + d)"

definition is_digit :: "char \<Rightarrow> bool" where
  "is_digit c \<longleftrightarrow> 48 \<le> (of_char c :: nat) \<and> (of_char c :: nat) \<le> 57"

definition digit_value :: "char \<Rightarrow> nat" where
  "digit_value c = of_char c - 48"

fun show_nat :: "nat \<Rightarrow> string" where
  "show_nat n = (if n < 10 then [digit_char n] else show_nat (n div 10) @ [digit_char (n mod 10)])"

declare show_nat.simps [simp del]

definition show_int :: "int \<Rightarrow> string" where
  "show_int i = (if i < 0 then CHR ''-'' # show_nat (nat (- i)) else show_nat (nat i))"

definition read_nat :: "string \<Rightarrow> nat" where
  "read_nat s = foldl (\<lambda>n c. 10 * n + digit_value c) 0 s"

lemma of_char_digit [simp]: "d < 10 \<Longrightarrow> (of_char (digit_char d) :: nat) = 48 + d"
  by (simp add: digit_char_def)

lemma digit_char_simps [simp]:
  assumes "d < 10"
  shows "is_digit (digit_char d)" and "digit_value (digit_char d) = d"
  using assms by (simp_all add: is_digit_def digit_value_def)

lemma show_nat_digits: "\<forall>c \<in> set (show_nat n). is_digit c"
proof (induction n rule: show_nat.induct)
  case (1 n)
  then show ?case by (subst show_nat.simps) auto
qed

lemma show_nat_not_Nil [simp]: "show_nat n \<noteq> []"
  by (subst show_nat.simps) simp

lemma read_show_nat: "read_nat (show_nat n) = n"
proof (induction n rule: show_nat.induct)
  case (1 n)
  then show ?case by (subst show_nat.simps) (simp add: read_nat_def)
qed

text \<open>A number is cut off the front of a text by the first character that is no digit.\<close>

lemma takeWhile_show_nat:
  assumes "\<not> is_digit c"
  shows "takeWhile is_digit (show_nat n @ c # rest) = show_nat n"
    and "dropWhile is_digit (show_nat n @ c # rest) = c # rest"
  using assms show_nat_digits [of n]
  by simp_all

lemma show_nat_split:
  assumes "\<not> is_digit c" and "show_nat m @ c # rest = show_nat n @ c # rest'"
  shows "m = n \<and> rest = rest'"
proof -
  have "show_nat m = show_nat n" "c # rest = c # rest'"
    using takeWhile_show_nat [OF assms(1), of m rest] takeWhile_show_nat [OF assms(1), of n rest']
      assms(2) by simp_all
  then show ?thesis using read_show_nat by (metis list.inject)
qed

lemma show_nat_hd: "\<exists>c cs. show_nat n = c # cs \<and> is_digit c"
  using show_nat_digits [of n] by (cases "show_nat n") auto

lemma show_int_split:
  assumes c: "\<not> is_digit c" and eq: "show_int i @ c # rest = show_int j @ c # rest'"
  shows "i = j \<and> rest = rest'"
proof -
  have minus: "\<not> is_digit (CHR ''-'')" by (simp add: is_digit_def)
  have sign: "show_nat m @ xs \<noteq> CHR ''-'' # ys" for m xs ys
    using show_nat_hd [of m] minus by auto
  show ?thesis
  proof (cases "i < 0"; cases "j < 0")
    assume "i < 0" "j < 0"
    with eq show_nat_split [OF c, of "nat (- i)" rest "nat (- j)" rest'] show ?thesis
      by (auto simp: show_int_def nat_eq_iff2)
  next
    assume "\<not> i < 0" "\<not> j < 0"
    with eq show_nat_split [OF c, of "nat i" rest "nat j" rest'] show ?thesis
      by (auto simp: show_int_def nat_eq_iff2)
  next
    assume "i < 0" "\<not> j < 0"
    with eq sign [of "nat j"] show ?thesis by (simp add: show_int_def) (metis append_Cons)
  next
    assume "\<not> i < 0" "j < 0"
    with eq sign [of "nat i"] show ?thesis by (simp add: show_int_def)
  qed
qed

text \<open>Output of a literal.\<close>

lemma show_nat_step:
  "n < 10 \<Longrightarrow> show_nat n = [digit_char n]"
  "10 \<le> n \<Longrightarrow> show_nat n = show_nat (n div 10) @ [digit_char (n mod 10)]"
  by (subst show_nat.simps, simp)+

lemma digit_chars:
  "digit_char 0 = CHR ''0''" "digit_char (Suc 0) = CHR ''1''" "digit_char 2 = CHR ''2''"
  "digit_char 3 = CHR ''3''" "digit_char 4 = CHR ''4''" "digit_char 6 = CHR ''6''" "digit_char 7 = CHR ''7''"
  "digit_char 8 = CHR ''8''"
  "digit_char 5 = CHR ''5''" "digit_char 9 = CHR ''9''"
  by code_simp+

end
