(* ===== verification/SbeHeader.thy ===== *)
theory SbeHeader
  imports Bytes Decimal
begin

text \<open>
  The generated flyweight of the SBE message header,
  \<open>generated/sbe/market_sbe/MessageHeader.h\<close>: the byte-order macros, the flyweight's state,
  its constructors and \<open>wrap\<close> with their bounds check, one reader and one writer per field, and
  the metadata the class publishes for each field. A flyweight holds a pointer into memory it
  does not own: the model passes that memory, the bytes of the object pointed into, beside it.
\<close>

section \<open>Byte order on the wire\<close>

text \<open>
  \<open>SBE_LITTLE_ENDIAN_ENCODE_16\<close>, \<open>32\<close> and \<open>64\<close>: nothing on a little-endian host, a byte
  swap on a big-endian one.
\<close>

definition sbe_little_endian_encode :: "byte_order \<Rightarrow> 'a::len word \<Rightarrow> 'a word" where
  "sbe_little_endian_encode bo w =
     (case bo of Little_Endian \<Rightarrow> w | Big_Endian \<Rightarrow> bswap w)"

text \<open>
  What every writer stores (the host bytes of the encoded value) and every reader returns (the
  encoding of the host value of the bytes).
\<close>

definition sbe_enc :: "byte_order \<Rightarrow> 'a::len word \<Rightarrow> u8 list" where
  "sbe_enc bo v = host_bytes bo (sbe_little_endian_encode bo v)"

definition sbe_dec :: "byte_order \<Rightarrow> u8 list \<Rightarrow> 'a::len word" where
  "sbe_dec bo bs = sbe_little_endian_encode bo (host_word bo bs)"

text \<open>On every host the stored bytes are the little-endian ones.\<close>

lemma sbe_enc_le:
  "byte_sized TYPE('a::len) \<Longrightarrow> sbe_enc bo (v :: 'a word) = le_bytes (LENGTH('a) div 8) v"
  by (cases bo)
    (simp_all add: sbe_enc_def sbe_little_endian_encode_def host_bytes_def host_order_def
      bswap_def le_bytes_all_bytes)

lemma sbe_dec_le:
  "length bs = LENGTH('a::len) div 8 \<Longrightarrow> (sbe_dec bo bs :: 'a word) = le_word bs"
  using le_bytes_all_bytes [of "rev bs", where 'a = 'a]
  by (cases bo)
    (simp_all add: sbe_dec_def sbe_little_endian_encode_def host_word_def host_order_def
      bswap_def)

lemma sbe_codec_laws:
  assumes "byte_sized TYPE('a::len)"
  shows "length (sbe_enc bo (v :: 'a word)) = LENGTH('a) div 8"
    and "sbe_dec bo (sbe_enc bo' v) = v"
    and "length bs = LENGTH('a) div 8 \<Longrightarrow> sbe_enc bo' (sbe_dec bo bs :: 'a word) = bs"
  using assms by (simp_all add: sbe_enc_le sbe_dec_le le_word_all_bytes le_bytes_all_bytes)

text \<open>
  Writer and reader need not agree on the host's byte order: both are the codec of the
  little-endian bytes.
\<close>

interpretation sbe16: wire_codec "sbe_enc bo :: u16 \<Rightarrow> _" "sbe_dec bo'" 2 for bo bo'
  by unfold_locales (simp_all add: sbe_codec_laws)

interpretation sbe32: wire_codec "sbe_enc bo :: u32 \<Rightarrow> _" "sbe_dec bo'" 4 for bo bo'
  by unfold_locales (simp_all add: sbe_codec_laws)

interpretation sbe64: wire_codec "sbe_enc bo :: u64 \<Rightarrow> _" "sbe_dec bo'" 8 for bo bo'
  by unfold_locales (simp_all add: sbe_codec_laws)

section \<open>The flyweight\<close>

text \<open>
  A \<open>char*\<close> is null or a position in the object it points into. \<open>m_buffer + m_offset + k\<close> is
  the place of a field.
\<close>

type_synonym buffer_ptr = "nat option"

definition field_addr :: "buffer_ptr \<Rightarrow> u64 \<Rightarrow> nat \<Rightarrow> nat res" where
  "field_addr p off k = (case p of None \<Rightarrow> Inl Null_Deref | Some base \<Rightarrow> Inr (base + unat off + k))"

lemma field_addr_Some [simp]: "field_addr (Some base) off k = Inr (base + unat off + k)"
  by (simp add: field_addr_def)

record message_header =
  h_buffer :: buffer_ptr
  h_bufferLength :: u64
  h_offset :: u64
  h_actingVersion :: u64

definition header_default :: message_header where
  "header_default = \<lparr>h_buffer = None, h_bufferLength = 0, h_offset = 0, h_actingVersion = 0\<rparr>"

definition header_sbeSchemaId :: u16 where
  "header_sbeSchemaId = 77"

definition header_sbeSchemaVersion :: u16 where
  "header_sbeSchemaVersion = 0"

definition header_encodedLength :: u64 where
  "header_encodedLength = 8"

text \<open>
  The bounds check is computed on 64-bit unsigned integers: \<open>m_offset + 8\<close> can wrap around.
\<close>

definition header_too_short :: "u64 \<Rightarrow> u64 \<Rightarrow> bool" where
  "header_too_short off len \<longleftrightarrow> off + 8 > len"

definition header_new ::
  "buffer_ptr \<Rightarrow> u64 \<Rightarrow> u64 \<Rightarrow> u64 \<Rightarrow> message_header res" where
  "header_new buffer off len ver =
     (if header_too_short off len
      then Inl (Runtime_Error ''buffer too short for flyweight [E107]'')
      else Inr \<lparr>h_buffer = buffer, h_bufferLength = len, h_offset = off, h_actingVersion = ver\<rparr>)"

definition header_new_at_start :: "buffer_ptr \<Rightarrow> u64 \<Rightarrow> u64 \<Rightarrow> message_header res" where
  "header_new_at_start buffer len ver = header_new buffer 0 len ver"

definition header_new_current :: "buffer_ptr \<Rightarrow> u64 \<Rightarrow> message_header res" where
  "header_new_current buffer len = header_new buffer 0 len (ucast header_sbeSchemaVersion)"

text \<open>
  \<open>wrap\<close> assigns the fields before it checks: when it throws, the flyweight is left over the
  short buffer. It returns what it throws, if anything, and the flyweight.
\<close>

definition header_wrap ::
  "message_header \<Rightarrow> buffer_ptr \<Rightarrow> u64 \<Rightarrow> u64 \<Rightarrow> u64 \<Rightarrow> unit res \<times> message_header" where
  "header_wrap h buffer off ver len =
     (let h' = h\<lparr>h_buffer := buffer, h_bufferLength := len, h_offset := off, h_actingVersion := ver\<rparr>
      in (if header_too_short (h_offset h') (h_bufferLength h')
          then Inl (Runtime_Error ''buffer too short for flyweight [E107]'') else Inr (), h'))"

section \<open>Readers and writers\<close>

definition header_get16 :: "byte_order \<Rightarrow> message_header \<Rightarrow> u8 list \<Rightarrow> nat \<Rightarrow> u16 res" where
  "header_get16 bo h mem k =
     res_bind (field_addr (h_buffer h) (h_offset h) k) (field_get (sbe_dec bo) 2 mem)"

definition header_put16 ::
  "byte_order \<Rightarrow> message_header \<Rightarrow> u8 list \<Rightarrow> nat \<Rightarrow> u16 \<Rightarrow> u8 list res" where
  "header_put16 bo h mem k v =
     res_bind (field_addr (h_buffer h) (h_offset h) k) (\<lambda>at. field_put (sbe_enc bo) mem at v)"

definition blockLength :: "byte_order \<Rightarrow> message_header \<Rightarrow> u8 list \<Rightarrow> u16 res" where
  "blockLength bo h mem = header_get16 bo h mem 0"

definition set_blockLength ::
  "byte_order \<Rightarrow> message_header \<Rightarrow> u16 \<Rightarrow> u8 list \<Rightarrow> u8 list res" where
  "set_blockLength bo h v mem = header_put16 bo h mem 0 v"

definition templateId :: "byte_order \<Rightarrow> message_header \<Rightarrow> u8 list \<Rightarrow> u16 res" where
  "templateId bo h mem = header_get16 bo h mem 2"

definition set_templateId ::
  "byte_order \<Rightarrow> message_header \<Rightarrow> u16 \<Rightarrow> u8 list \<Rightarrow> u8 list res" where
  "set_templateId bo h v mem = header_put16 bo h mem 2 v"

definition schemaId :: "byte_order \<Rightarrow> message_header \<Rightarrow> u8 list \<Rightarrow> u16 res" where
  "schemaId bo h mem = header_get16 bo h mem 4"

definition set_schemaId ::
  "byte_order \<Rightarrow> message_header \<Rightarrow> u16 \<Rightarrow> u8 list \<Rightarrow> u8 list res" where
  "set_schemaId bo h v mem = header_put16 bo h mem 4 v"

definition version :: "byte_order \<Rightarrow> message_header \<Rightarrow> u8 list \<Rightarrow> u16 res" where
  "version bo h mem = header_get16 bo h mem 6"

definition set_version ::
  "byte_order \<Rightarrow> message_header \<Rightarrow> u16 \<Rightarrow> u8 list \<Rightarrow> u8 list res" where
  "set_version bo h v mem = header_put16 bo h mem 6 v"

lemmas header_field_defs =
  blockLength_def templateId_def schemaId_def version_def
  set_blockLength_def set_templateId_def set_schemaId_def set_version_def
  header_get16_def header_put16_def

section \<open>Metadata\<close>

datatype meta_attribute = EPOCH | TIME_UNIT | SEMANTIC_TYPE | PRESENCE

text \<open>
  What the class publishes for one field, as static functions \<open><field>MetaAttribute\<close>,
  \<open><field>Id\<close>, \<open><field>SinceVersion\<close>, \<open><field>InActingVersion\<close>, \<open><field>EncodingOffset\<close>,
  \<open><field>NullValue\<close>, \<open><field>MinValue\<close>, \<open><field>MaxValue\<close> and \<open><field>EncodingLength\<close>.
\<close>

record 'v field_meta =
  m_attribute :: "meta_attribute \<Rightarrow> string"
  m_id :: u16
  m_since :: u64
  m_in_acting_version :: bool
  m_offset :: size_t
  m_null :: 'v
  m_min :: 'v
  m_max :: 'v
  m_length :: size_t

definition required_attribute :: "meta_attribute \<Rightarrow> string" where
  "required_attribute a = (case a of PRESENCE \<Rightarrow> ''required'' | _ \<Rightarrow> '''')"

definition blockLength_meta :: "u16 field_meta" where
  "blockLength_meta = \<lparr>m_attribute = required_attribute, m_id = - 1, m_since = 0,
     m_in_acting_version = True, m_offset = 0, m_null = - 1, m_min = 0, m_max = 65534,
     m_length = 2\<rparr>"

definition templateId_meta :: "u16 field_meta" where
  "templateId_meta = \<lparr>m_attribute = required_attribute, m_id = - 1, m_since = 0,
     m_in_acting_version = True, m_offset = 2, m_null = - 1, m_min = 0, m_max = 65534,
     m_length = 2\<rparr>"

definition schemaId_meta :: "u16 field_meta" where
  "schemaId_meta = \<lparr>m_attribute = required_attribute, m_id = - 1, m_since = 0,
     m_in_acting_version = True, m_offset = 4, m_null = - 1, m_min = 0, m_max = 65534,
     m_length = 2\<rparr>"

definition version_meta :: "u16 field_meta" where
  "version_meta = \<lparr>m_attribute = required_attribute, m_id = - 1, m_since = 0,
     m_in_acting_version = True, m_offset = 6, m_null = - 1, m_min = 0, m_max = 65534,
     m_length = 2\<rparr>"

lemmas header_meta_defs =
  blockLength_meta_def templateId_meta_def schemaId_meta_def version_meta_def

section \<open>Text output\<close>

definition header_text :: "u16 \<Rightarrow> u16 \<Rightarrow> u16 \<Rightarrow> u16 \<Rightarrow> string" where
  "header_text bl t s v =
     ''{'' @ ''\"blockLength\": '' @ show_nat (unat bl) @ '', ''
     @ ''\"templateId\": '' @ show_nat (unat t) @ '', ''
     @ ''\"schemaId\": '' @ show_nat (unat s) @ '', ''
     @ ''\"version\": '' @ show_nat (unat v) @ ''}''"

definition header_show :: "byte_order \<Rightarrow> message_header \<Rightarrow> u8 list \<Rightarrow> string res" where
  "header_show bo h mem =
     res_bind (blockLength bo h mem) (\<lambda>bl.
     res_bind (templateId bo h mem) (\<lambda>t.
     res_bind (schemaId bo h mem) (\<lambda>s.
     res_bind (version bo h mem) (\<lambda>v. Inr (header_text bl t s v)))))"

section \<open>Properties\<close>

lemma field_get_le16:
  "at + 2 \<le> length mem \<Longrightarrow>
    field_get (sbe_dec bo) 2 mem at = Inr (le_word (take 2 (drop at mem)) :: u16)"
  by (simp add: field_get_def mem_read_def sbe_dec_le)

lemma le_word_all_bytes16: "le_word (le_bytes 2 (v :: u16)) = v"
  using le_word_all_bytes [of v] by simp

text \<open>The four writers in the order of the fields are one write of the eight header bytes.\<close>

definition header_bytes :: "u16 \<Rightarrow> u16 \<Rightarrow> u16 \<Rightarrow> u16 \<Rightarrow> u8 list" where
  "header_bytes bl t s v = le_bytes 2 bl @ le_bytes 2 t @ le_bytes 2 s @ le_bytes 2 v"

lemma length_header_bytes [simp]: "length (header_bytes bl t s v) = 8"
  by (simp add: header_bytes_def)

lemma header_write_all:
  assumes h: "h_buffer h = Some base" and room: "base + unat (h_offset h) + 8 \<le> length mem"
  shows "res_bind (set_blockLength bo h bl mem) (\<lambda>mem. res_bind (set_templateId bo h t mem)
           (\<lambda>mem. res_bind (set_schemaId bo h s mem) (set_version bo h v)))
       = mem_write mem (base + unat (h_offset h)) (header_bytes bl t s v)"
proof -
  let ?at = "base + unat (h_offset h)"
  have put: "header_put16 bo h m k w = mem_write m (?at + k) (le_bytes 2 w)" for m k w
    using h by (simp add: header_put16_def field_put_def sbe_enc_le)
  show ?thesis
    unfolding set_blockLength_def set_templateId_def set_schemaId_def set_version_def put
      header_bytes_def using room by (simp add: write_chain)
qed

text \<open>
  The four header writers fill exactly the eight bytes at the flyweight's place, in the same
  layout on a little-endian and on a big-endian host, and leave every other byte alone; the four
  readers, on a host of either byte order, then return the four values.
\<close>

theorem header_wire_roundtrip:
  assumes h: "h_buffer h = Some base" and room: "base + unat (h_offset h) + 8 \<le> length mem"
  shows "\<exists>mem'. res_bind (set_blockLength bo h bl mem) (\<lambda>m. res_bind (set_templateId bo h t m)
            (\<lambda>m. res_bind (set_schemaId bo h s m) (set_version bo h v))) = Inr mem'
       \<and> length mem' = length mem
       \<and> take 8 (drop (base + unat (h_offset h)) mem') = header_bytes bl t s v
       \<and> (\<forall>k < length mem. k < base + unat (h_offset h) \<or> base + unat (h_offset h) + 8 \<le> k
            \<longrightarrow> mem' ! k = mem ! k)
       \<and> blockLength bo' h mem' = Inr bl \<and> templateId bo' h mem' = Inr t
       \<and> schemaId bo' h mem' = Inr s \<and> version bo' h mem' = Inr v"
proof -
  let ?at = "base + unat (h_offset h)"
  obtain mem' where w: "mem_write mem ?at (header_bytes bl t s v) = Inr mem'"
    using room by (simp add: mem_write_def)
  have len: "length mem' = length mem" using w by (rule mem_write_length)
  have at: "mem' = take ?at mem @ header_bytes bl t s v @ drop (?at + 8) mem"
    using w by (auto simp: mem_write_def split: if_splits)
  have eight: "take 8 (drop ?at mem') = header_bytes bl t s v"
    unfolding at using room by simp
  have other: "\<forall>k < length mem. k < ?at \<or> ?at + 8 \<le> k \<longrightarrow> mem' ! k = mem ! k"
    using mem_write_nth [OF w] by auto
  have get: "header_get16 bo' h mem' k = Inr (le_word (take 2 (drop k (header_bytes bl t s v))))"
    if "k + 2 \<le> 8" for k
    using that room h len eight [symmetric]
    by (simp add: header_get16_def field_get_le16 drop_take min_absorb1 ac_simps)
  have "header_get16 bo' h mem' 0 = Inr bl" "header_get16 bo' h mem' 2 = Inr t"
    "header_get16 bo' h mem' 4 = Inr s" "header_get16 bo' h mem' 6 = Inr v"
    unfolding header_bytes_def by (simp_all add: get header_bytes_def le_word_all_bytes16)
  with w len eight other show ?thesis
    unfolding header_write_all [OF h room]
    by (simp add: blockLength_def templateId_def schemaId_def version_def)
qed

theorem header_wire_roundtrip_witness:
  "\<exists>mem'. res_bind (set_blockLength Big_Endian (header_default\<lparr>h_buffer := Some 1\<rparr>) 24 (replicate 9 0))
      (\<lambda>m. res_bind (set_templateId Big_Endian (header_default\<lparr>h_buffer := Some 1\<rparr>) 1 m)
      (\<lambda>m. res_bind (set_schemaId Big_Endian (header_default\<lparr>h_buffer := Some 1\<rparr>) 77 m)
        (set_version Big_Endian (header_default\<lparr>h_buffer := Some 1\<rparr>) 0))) = Inr mem'
    \<and> blockLength Little_Endian (header_default\<lparr>h_buffer := Some 1\<rparr>) mem' = Inr 24"
  using header_wire_roundtrip [of "header_default\<lparr>h_buffer := Some 1\<rparr>" 1 "replicate 9 0"
      Big_Endian 24 1 77 0 Little_Endian]
  by (auto simp: header_default_def)

text \<open>
  As long as \<open>m_offset + 8\<close> does not wrap around, the constructors and \<open>wrap\<close> throw E107
  exactly when the eight header bytes do not fit in the announced length, \<open>wrap\<close> and the
  constructor build the same flyweight, and a flyweight they accept over a buffer that really
  has the announced length reads all its fields inside the buffer.
\<close>

theorem header_bounds_check:
  assumes nw: "unat off + 8 < 2 ^ 64"
  shows "(header_new p off len ver = Inl (Runtime_Error ''buffer too short for flyweight [E107]'')
            \<longleftrightarrow> unat len < unat off + 8)
       \<and> (fst (header_wrap h p off ver len) = Inr () \<longleftrightarrow>
            header_new p off len ver = Inr (snd (header_wrap h p off ver len)))
       \<and> (header_new p off len ver = Inr h' \<longrightarrow> p = Some base \<longrightarrow> base + unat len \<le> length mem \<longrightarrow>
            (\<exists>bl t s v. blockLength bo h' mem = Inr bl \<and> templateId bo h' mem = Inr t
               \<and> schemaId bo h' mem = Inr s \<and> version bo h' mem = Inr v))"
proof -
  have short: "header_too_short off len \<longleftrightarrow> unat len < unat off + 8"
    using nw unat_add_no_wrap [of off "8 :: u64"]
    by (simp add: header_too_short_def word_less_nat_alt)
  have new: "header_new p off len ver = Inr h' \<longleftrightarrow> unat off + 8 \<le> unat len
      \<and> h' = \<lparr>h_buffer = p, h_bufferLength = len, h_offset = off, h_actingVersion = ver\<rparr>" for h'
    by (auto simp: header_new_def short)
  have get: "header_get16 bo h' mem k = Inr (le_word (take 2 (drop (base + unat off + k) mem)))"
    if "header_new p off len ver = Inr h'" "p = Some base" "base + unat len \<le> length mem"
      "k + 2 \<le> 8" for k
    using that(1) [unfolded new] that(2-) by (simp add: header_get16_def field_get_le16)
  show ?thesis
  proof (intro conjI impI)
    show "(header_new p off len ver = Inl (Runtime_Error ''buffer too short for flyweight [E107]''))
        = (unat len < unat off + 8)"
      by (simp add: header_new_def short)
    show "(fst (header_wrap h p off ver len) = Inr ()) =
        (header_new p off len ver = Inr (snd (header_wrap h p off ver len)))"
      by (cases h) (auto simp: new header_wrap_def Let_def short not_less)
    assume "header_new p off len ver = Inr h'" "p = Some base" "base + unat len \<le> length mem"
    note get = get [OF this]
    show "\<exists>bl t s v. blockLength bo h' mem = Inr bl \<and> templateId bo h' mem = Inr t
               \<and> schemaId bo h' mem = Inr s \<and> version bo h' mem = Inr v"
      by (simp add: blockLength_def templateId_def schemaId_def version_def get)
  qed
qed

theorem header_bounds_check_witness:
  "header_new (Some 0) 4 11 0 = Inl (Runtime_Error ''buffer too short for flyweight [E107]'')"
  using header_bounds_check [of 4 "Some 0" 11 0] by simp

text \<open>
  The check is computed modulo 2^64: the flyweight accepts the offset 2^64 - 8 over an empty
  buffer, and then a read is out of bounds unless the memory fills the address space.
\<close>

theorem header_bounds_check_wraps:
  "\<exists>h. header_new (Some 0) (- 8) 0 0 = Inr h
     \<and> (\<forall>mem. blockLength bo h mem = Inl Out_Of_Bounds \<longleftrightarrow> length mem < 2 ^ 64 - 6)"
  by (auto simp: header_new_def header_too_short_def blockLength_def header_get16_def
      field_get_def mem_read_def)

text \<open>
  The published metadata describes the layout the readers use: each reader takes its field's
  bytes at \<open>EncodingOffset\<close> and decodes \<open>EncodingLength\<close> of them, the fields follow each other
  without gap or overlap from 0 to \<open>encodedLength()\<close>, and the null value of each field lies
  outside its range.
\<close>

theorem header_metadata:
  "blockLength bo h mem = res_bind (field_addr (h_buffer h) (h_offset h) (unat (m_offset blockLength_meta)))
     (field_get (sbe_dec bo) (unat (m_length blockLength_meta)) mem) \<and>
   templateId bo h mem = res_bind (field_addr (h_buffer h) (h_offset h) (unat (m_offset templateId_meta)))
     (field_get (sbe_dec bo) (unat (m_length templateId_meta)) mem) \<and>
   schemaId bo h mem = res_bind (field_addr (h_buffer h) (h_offset h) (unat (m_offset schemaId_meta)))
     (field_get (sbe_dec bo) (unat (m_length schemaId_meta)) mem) \<and>
   version bo h mem = res_bind (field_addr (h_buffer h) (h_offset h) (unat (m_offset version_meta)))
     (field_get (sbe_dec bo) (unat (m_length version_meta)) mem) \<and>
   m_offset blockLength_meta = 0 \<and>
   m_offset templateId_meta = m_offset blockLength_meta + m_length blockLength_meta \<and>
   m_offset schemaId_meta = m_offset templateId_meta + m_length templateId_meta \<and>
   m_offset version_meta = m_offset schemaId_meta + m_length schemaId_meta \<and>
   header_encodedLength = m_offset version_meta + m_length version_meta \<and>
   list_all (\<lambda>m. m_min m \<le> m_max m \<and> m_max m < m_null m \<and> m_id m = 65535 \<and> m_in_acting_version m)
     [blockLength_meta, templateId_meta, schemaId_meta, version_meta]"
  by (simp add: header_field_defs header_meta_defs header_encodedLength_def)

text \<open>
  What \<open>operator<<\<close> writes for a header determines its four fields, also across hosts of
  different byte order.
\<close>

theorem header_show_determines:
  assumes "header_show bo h mem = Inr txt" and "header_show bo' h' mem' = Inr txt"
  shows "blockLength bo h mem = blockLength bo' h' mem' \<and> templateId bo h mem = templateId bo' h' mem'
       \<and> schemaId bo h mem = schemaId bo' h' mem' \<and> version bo h mem = version bo' h' mem'"
proof -
  have "bl = bl' \<and> t = t' \<and> s = s' \<and> v = v'" if "header_text bl t s v = header_text bl' t' s' v'"
    for bl t s v bl' t' s' v'
  proof -
    have ends: "\<not> is_digit (CHR '','')" "\<not> is_digit (CHR ''}'')" by (simp_all add: is_digit_def)
    note comma = show_nat_split [OF ends(1)]
    from that have bl: "bl = bl'" unfolding header_text_def by (auto dest!: comma simp: unsigned_word_eqI)
    with that have t: "t = t'" unfolding header_text_def by (auto dest!: comma simp: unsigned_word_eqI)
    with that bl have s: "s = s'" unfolding header_text_def by (auto dest!: comma simp: unsigned_word_eqI)
    with that bl t have "show_nat (unat v) @ CHR ''}'' # [] = show_nat (unat v') @ CHR ''}'' # []"
      by (simp add: header_text_def)
    from show_nat_split [OF ends(2) this] bl t s show ?thesis by (simp add: unsigned_word_eqI)
  qed
  with assms show ?thesis unfolding header_show_def res_bind_Inr_iff by (auto, metis+)
qed

theorem header_show_determines_witness:
  "schemaId Little_Endian (header_default\<lparr>h_buffer := Some 0\<rparr>) (replicate 8 0)
     = schemaId Big_Endian (header_default\<lparr>h_buffer := Some 1\<rparr>) (replicate 9 0)"
proof -
  let ?h = "\<lambda>b. header_default\<lparr>h_buffer := Some b\<rparr>"
  have "header_show Little_Endian (?h 0) (replicate 8 0) = Inr (header_text 0 0 0 0)"
    "header_show Big_Endian (?h 1) (replicate 9 0) = Inr (header_text 0 0 0 0)"
    by code_simp+
  from header_show_determines [OF this] show ?thesis by simp
qed

end
