(* ===== verification/SbeTick.thy ===== *)
theory SbeTick
  imports SbeHeader
begin

text \<open>
  The generated flyweight of the \<open>Tick\<close> message, \<open>generated/sbe/market_sbe/Tick.h\<close>: its state,
  constructors and the three \<open>wrap\<close> functions with the position check, the readers and writers
  of the five fields, the length functions, the metadata and the text \<open>operator<<\<close> writes.
  As for the header, the memory pointed into is passed beside the flyweight.
\<close>

section \<open>State and constants\<close>

record tick =
  t_buffer :: buffer_ptr
  t_bufferLength :: u64
  t_offset :: u64
  t_position :: u64
  t_actingBlockLength :: u64
  t_actingVersion :: u64

definition tick_default :: tick where
  "tick_default = \<lparr>t_buffer = None, t_bufferLength = 0, t_offset = 0, t_position = 0,
     t_actingBlockLength = 0, t_actingVersion = 0\<rparr>"

definition sbeBlockLength :: u16 where "sbeBlockLength = 24"

definition sbeTemplateId :: u16 where "sbeTemplateId = 1"

definition sbeSchemaId :: u16 where "sbeSchemaId = 77"

definition sbeSchemaVersion :: u16 where "sbeSchemaVersion = 0"

definition sbeBlockAndHeaderLength :: u64 where
  "sbeBlockAndHeaderLength = header_encodedLength + ucast sbeBlockLength"

lemmas tick_const_defs =
  sbeBlockLength_def sbeTemplateId_def sbeSchemaId_def sbeSchemaVersion_def
  sbeBlockAndHeaderLength_def header_encodedLength_def

section \<open>Positions and wrapping\<close>

definition sbeCheckPosition :: "tick \<Rightarrow> u64 \<Rightarrow> u64 res" where
  "sbeCheckPosition t position =
     (if position > t_bufferLength t then Inl (Runtime_Error ''buffer too short [E100]'')
      else Inr position)"

text \<open>
  The assignment \<open>m_position = sbeCheckPosition(p)\<close>: when the check throws, the flyweight keeps
  its old position, with what was assigned before.
\<close>

definition set_sbePosition :: "tick \<Rightarrow> u64 \<Rightarrow> unit res \<times> tick" where
  "set_sbePosition t position =
     (case sbeCheckPosition t position of
        Inl e \<Rightarrow> (Inl e, t)
      | Inr p \<Rightarrow> (Inr (), t\<lparr>t_position := p\<rparr>))"

text \<open>The constructor checks the position against the length it has just stored.\<close>

definition tick_new :: "buffer_ptr \<Rightarrow> u64 \<Rightarrow> u64 \<Rightarrow> u64 \<Rightarrow> u64 \<Rightarrow> tick res" where
  "tick_new buffer off len block ver =
     res_bind (sbeCheckPosition (tick_default\<lparr>t_buffer := buffer, t_bufferLength := len,
                                   t_offset := off\<rparr>) (off + block))
       (\<lambda>p. Inr \<lparr>t_buffer = buffer, t_bufferLength = len, t_offset = off, t_position = p,
                 t_actingBlockLength = block, t_actingVersion = ver\<rparr>)"

definition tick_new_current :: "buffer_ptr \<Rightarrow> u64 \<Rightarrow> tick res" where
  "tick_new_current buffer len =
     tick_new buffer 0 len (ucast sbeBlockLength) (ucast sbeSchemaVersion)"

definition tick_new_at_start :: "buffer_ptr \<Rightarrow> u64 \<Rightarrow> u64 \<Rightarrow> u64 \<Rightarrow> tick res" where
  "tick_new_at_start buffer len block ver = tick_new buffer 0 len block ver"

definition wrapForEncode :: "tick \<Rightarrow> buffer_ptr \<Rightarrow> u64 \<Rightarrow> u64 \<Rightarrow> unit res \<times> tick" where
  "wrapForEncode t buffer off len =
     (let t' = t\<lparr>t_buffer := buffer, t_bufferLength := len, t_offset := off,
                 t_actingBlockLength := ucast sbeBlockLength,
                 t_actingVersion := ucast sbeSchemaVersion\<rparr>
      in set_sbePosition t' (t_offset t' + t_actingBlockLength t'))"

definition wrapForDecode ::
  "tick \<Rightarrow> buffer_ptr \<Rightarrow> u64 \<Rightarrow> u64 \<Rightarrow> u64 \<Rightarrow> u64 \<Rightarrow> unit res \<times> tick" where
  "wrapForDecode t buffer off block ver len =
     (let t' = t\<lparr>t_buffer := buffer, t_bufferLength := len, t_offset := off,
                 t_actingBlockLength := block, t_actingVersion := ver\<rparr>
      in set_sbePosition t' (t_offset t' + t_actingBlockLength t'))"

text \<open>
  \<open>wrapAndApplyHeader\<close> writes the header into the buffer before it checks that the body fits. It
  returns what it throws, the flyweight and the memory.
\<close>

definition apply_header :: "byte_order \<Rightarrow> message_header \<Rightarrow> u8 list \<Rightarrow> u8 list res" where
  "apply_header bo hdr mem =
     res_bind (set_blockLength bo hdr sbeBlockLength mem) (\<lambda>m.
     res_bind (set_templateId bo hdr sbeTemplateId m) (\<lambda>m.
     res_bind (set_schemaId bo hdr sbeSchemaId m) (\<lambda>m. set_version bo hdr sbeSchemaVersion m)))"

definition wrapAndApplyHeader ::
  "byte_order \<Rightarrow> tick \<Rightarrow> buffer_ptr \<Rightarrow> u64 \<Rightarrow> u64 \<Rightarrow> u8 list \<Rightarrow> unit res \<times> tick \<times> u8 list" where
  "wrapAndApplyHeader bo t buffer off len mem =
     (case res_bind (header_new buffer off len (ucast sbeSchemaVersion))
             (\<lambda>hdr. apply_header bo hdr mem) of
        Inl e \<Rightarrow> (Inl e, t, mem)
      | Inr mem' \<Rightarrow>
          (let t' = t\<lparr>t_buffer := buffer, t_bufferLength := len,
                      t_offset := off + header_encodedLength,
                      t_actingBlockLength := ucast sbeBlockLength,
                      t_actingVersion := ucast sbeSchemaVersion\<rparr>;
               (r, t'') = set_sbePosition t' (t_offset t' + t_actingBlockLength t')
           in (r, t'', mem')))"

definition sbeRewind :: "tick \<Rightarrow> unit res \<times> tick" where
  "sbeRewind t =
     wrapForDecode t (t_buffer t) (t_offset t) (t_actingBlockLength t) (t_actingVersion t)
       (t_bufferLength t)"

definition encodedLength :: "tick \<Rightarrow> u64" where
  "encodedLength t = t_position t - t_offset t"

definition skip :: "tick \<Rightarrow> tick" where
  "skip t = t"

definition decodeLength :: "tick \<Rightarrow> u64 res" where
  "decodeLength t =
     res_bind (tick_new (t_buffer t) (t_offset t) (t_bufferLength t) (t_actingBlockLength t)
                 (t_actingVersion t))
       (\<lambda>skipper. Inr (encodedLength (skip skipper)))"

definition computeLength :: size_t where
  "computeLength = ucast sbeBlockLength"

lemmas tick_wrap_defs =
  wrapForEncode_def wrapForDecode_def wrapAndApplyHeader_def sbeRewind_def
  set_sbePosition_def sbeCheckPosition_def

section \<open>Readers and writers\<close>

definition tick_get :: "byte_order \<Rightarrow> tick \<Rightarrow> u8 list \<Rightarrow> nat \<Rightarrow> 'a::len word res" where
  "tick_get bo t mem k =
     res_bind (field_addr (t_buffer t) (t_offset t) k)
       (field_get (sbe_dec bo) (LENGTH('a) div 8) mem)"

definition tick_put ::
  "byte_order \<Rightarrow> tick \<Rightarrow> u8 list \<Rightarrow> nat \<Rightarrow> 'a::len word \<Rightarrow> u8 list res" where
  "tick_put bo t mem k v =
     res_bind (field_addr (t_buffer t) (t_offset t) k) (\<lambda>at. field_put (sbe_enc bo) mem at v)"

definition instrumentId :: "byte_order \<Rightarrow> tick \<Rightarrow> u8 list \<Rightarrow> u32 res" where
  "instrumentId bo t mem = tick_get bo t mem 0"

definition set_instrumentId :: "byte_order \<Rightarrow> tick \<Rightarrow> u32 \<Rightarrow> u8 list \<Rightarrow> u8 list res" where
  "set_instrumentId bo t v mem = tick_put bo t mem 0 v"

text \<open>\<open>priceTicks\<close> is a \<open>std::int32_t\<close>: the same 32 bits, read with \<open>sint\<close>.\<close>

definition priceTicks :: "byte_order \<Rightarrow> tick \<Rightarrow> u8 list \<Rightarrow> u32 res" where
  "priceTicks bo t mem = tick_get bo t mem 4"

definition set_priceTicks :: "byte_order \<Rightarrow> tick \<Rightarrow> u32 \<Rightarrow> u8 list \<Rightarrow> u8 list res" where
  "set_priceTicks bo t v mem = tick_put bo t mem 4 v"

definition qty :: "byte_order \<Rightarrow> tick \<Rightarrow> u8 list \<Rightarrow> u32 res" where
  "qty bo t mem = tick_get bo t mem 8"

definition set_qty :: "byte_order \<Rightarrow> tick \<Rightarrow> u32 \<Rightarrow> u8 list \<Rightarrow> u8 list res" where
  "set_qty bo t v mem = tick_put bo t mem 8 v"

definition seq :: "byte_order \<Rightarrow> tick \<Rightarrow> u8 list \<Rightarrow> u32 res" where
  "seq bo t mem = tick_get bo t mem 12"

definition set_seq :: "byte_order \<Rightarrow> tick \<Rightarrow> u32 \<Rightarrow> u8 list \<Rightarrow> u8 list res" where
  "set_seq bo t v mem = tick_put bo t mem 12 v"

definition tsNs :: "byte_order \<Rightarrow> tick \<Rightarrow> u8 list \<Rightarrow> u64 res" where
  "tsNs bo t mem = tick_get bo t mem 16"

definition set_tsNs :: "byte_order \<Rightarrow> tick \<Rightarrow> u64 \<Rightarrow> u8 list \<Rightarrow> u8 list res" where
  "set_tsNs bo t v mem = tick_put bo t mem 16 v"

lemmas tick_reader_defs =
  instrumentId_def priceTicks_def qty_def seq_def tsNs_def

lemmas tick_writer_defs =
  set_instrumentId_def set_priceTicks_def set_qty_def set_seq_def set_tsNs_def

section \<open>Metadata\<close>

definition instrumentId_meta :: "u32 field_meta" where
  "instrumentId_meta = \<lparr>m_attribute = required_attribute, m_id = 1, m_since = 0,
     m_in_acting_version = True, m_offset = 0, m_null = - 1, m_min = 0, m_max = 0xfffffffe,
     m_length = 4\<rparr>"

definition priceTicks_meta :: "u32 field_meta" where
  "priceTicks_meta = \<lparr>m_attribute = required_attribute, m_id = 2, m_since = 0,
     m_in_acting_version = True, m_offset = 4, m_null = word_of_int (- (2 ^ 31)),
     m_min = word_of_int (- 2147483647), m_max = 2147483647, m_length = 4\<rparr>"

definition qty_meta :: "u32 field_meta" where
  "qty_meta = \<lparr>m_attribute = required_attribute, m_id = 3, m_since = 0,
     m_in_acting_version = True, m_offset = 8, m_null = - 1, m_min = 0, m_max = 0xfffffffe,
     m_length = 4\<rparr>"

definition seq_meta :: "u32 field_meta" where
  "seq_meta = \<lparr>m_attribute = required_attribute, m_id = 4, m_since = 0,
     m_in_acting_version = True, m_offset = 12, m_null = - 1, m_min = 0, m_max = 0xfffffffe,
     m_length = 4\<rparr>"

definition tsNs_meta :: "u64 field_meta" where
  "tsNs_meta = \<lparr>m_attribute = required_attribute, m_id = 5, m_since = 0,
     m_in_acting_version = True, m_offset = 16, m_null = - 1, m_min = 0,
     m_max = 0xfffffffffffffffe, m_length = 8\<rparr>"

lemmas tick_meta_defs =
  instrumentId_meta_def priceTicks_meta_def qty_meta_def seq_meta_def tsNs_meta_def

section \<open>Text output\<close>

text \<open>
  \<open>operator<<\<close> first builds a second flyweight over the same bytes, which can throw, and then
  writes every field in decimal.
\<close>

definition tick_text :: "u32 \<Rightarrow> u32 \<Rightarrow> u32 \<Rightarrow> u32 \<Rightarrow> u64 \<Rightarrow> string" where
  "tick_text i p q s ts =
     ''{'' @ ''\"Name\": \"Tick\", '' @ ''\"sbeTemplateId\": ''
     @ show_nat (unat sbeTemplateId) @ '', ''
     @ ''\"instrumentId\": '' @ show_nat (unat i) @ '', ''
     @ ''\"priceTicks\": '' @ show_int (sint p) @ '', ''
     @ ''\"qty\": '' @ show_nat (unat q) @ '', ''
     @ ''\"seq\": '' @ show_nat (unat s) @ '', ''
     @ ''\"tsNs\": '' @ show_nat (unat ts) @ ''}''"

definition tick_show :: "byte_order \<Rightarrow> tick \<Rightarrow> u8 list \<Rightarrow> string res" where
  "tick_show bo t mem =
     res_bind (tick_new (t_buffer t) (t_offset t) (t_bufferLength t) (t_actingBlockLength t)
                 (t_actingVersion t)) (\<lambda>w.
     res_bind (instrumentId bo w mem) (\<lambda>i.
     res_bind (priceTicks bo w mem) (\<lambda>p.
     res_bind (qty bo w mem) (\<lambda>q.
     res_bind (seq bo w mem) (\<lambda>s.
     res_bind (tsNs bo w mem) (\<lambda>ts. Inr (tick_text i p q s ts)))))))"

text \<open>No two ticks have the same text: each number ends at a comma or at the closing brace.\<close>

lemma tick_text_inj:
  assumes "tick_text i p q s ts = tick_text i' p' q' s' ts'"
  shows "i = i' \<and> p = p' \<and> q = q' \<and> s = s' \<and> ts = ts'"
proof -
  have comma: "\<not> is_digit (CHR '','')" "\<not> is_digit (CHR ''}'')" by (simp_all add: is_digit_def)
  note nat_comma = show_nat_split [OF comma(1)] and int_comma = show_int_split [OF comma(1)]
  from assms have i: "i = i'"
    unfolding tick_text_def by (auto dest!: nat_comma simp: unsigned_word_eqI)
  with assms have p: "p = p'"
    unfolding tick_text_def by (auto dest!: int_comma simp: signed_word_eqI)
  with assms i have q: "q = q'"
    unfolding tick_text_def by (auto dest!: nat_comma simp: unsigned_word_eqI)
  with assms i p have s: "s = s'"
    unfolding tick_text_def by (auto dest!: nat_comma simp: unsigned_word_eqI)
  with assms i p q have "show_nat (unat ts) @ CHR ''}'' # [] = show_nat (unat ts') @ CHR ''}'' # []"
    by (simp add: tick_text_def)
  from show_nat_split [OF comma(2) this] i p q s show ?thesis by (simp add: unsigned_word_eqI)
qed

section \<open>Layout of the body\<close>

definition tick_bytes :: "u32 \<Rightarrow> u32 \<Rightarrow> u32 \<Rightarrow> u32 \<Rightarrow> u64 \<Rightarrow> u8 list" where
  "tick_bytes i p q s ts =
     le_bytes 4 i @ le_bytes 4 p @ le_bytes 4 q @ le_bytes 4 s @ le_bytes 8 ts"

lemma length_tick_bytes [simp]: "length (tick_bytes i p q s ts) = 24"
  by (simp add: tick_bytes_def)

definition set_fields ::
  "byte_order \<Rightarrow> tick \<Rightarrow> u32 \<Rightarrow> u32 \<Rightarrow> u32 \<Rightarrow> u32 \<Rightarrow> u64 \<Rightarrow> u8 list \<Rightarrow> u8 list res" where
  "set_fields bo t i p q s ts mem =
     res_bind (set_instrumentId bo t i mem) (\<lambda>m.
     res_bind (set_priceTicks bo t p m) (\<lambda>m.
     res_bind (set_qty bo t q m) (\<lambda>m.
     res_bind (set_seq bo t s m) (set_tsNs bo t ts))))"

lemma tick_put_eq:
  assumes "t_buffer t = Some base"
  shows "tick_put bo t mem k (v :: u32) = mem_write mem (base + unat (t_offset t) + k) (le_bytes 4 v)"
    and "tick_put bo t mem k (w :: u64) = mem_write mem (base + unat (t_offset t) + k) (le_bytes 8 w)"
  using assms by (simp_all add: tick_put_def field_put_def sbe_enc_le)

lemma tick_get_eq:
  assumes "t_buffer t = Some base"
  shows "(tick_get bo t mem k :: u32 res) =
      (if base + unat (t_offset t) + k + 4 \<le> length mem
       then Inr (le_word (take 4 (drop (base + unat (t_offset t) + k) mem))) else Inl Out_Of_Bounds)"
    and "(tick_get bo t mem k :: u64 res) =
      (if base + unat (t_offset t) + k + 8 \<le> length mem
       then Inr (le_word (take 8 (drop (base + unat (t_offset t) + k) mem))) else Inl Out_Of_Bounds)"
  using assms by (simp_all add: tick_get_def field_get_def mem_read_def sbe_dec_le)

lemma set_fields_eq:
  assumes t: "t_buffer t = Some base" and room: "base + unat (t_offset t) + 24 \<le> length mem"
  shows "set_fields bo t i p q s ts mem
       = mem_write mem (base + unat (t_offset t)) (tick_bytes i p q s ts)"
  unfolding set_fields_def tick_writer_defs tick_put_eq [OF t] tick_bytes_def
  using room by (simp add: write_chain)

lemma le_word_all_bytes_32_64 [simp]:
  "le_word (le_bytes 4 (v :: u32)) = v" "le_word (le_bytes 8 (w :: u64)) = w"
  using le_word_all_bytes [of v] le_word_all_bytes [of w] by simp_all

text \<open>Reading the five fields off a buffer that holds their bytes.\<close>

lemma tick_read_all:
  assumes t: "t_buffer t = Some base" and room: "base + unat (t_offset t) + 24 \<le> length mem"
    and bs: "take 24 (drop (base + unat (t_offset t)) mem) = tick_bytes i p q s ts"
  shows "instrumentId bo t mem = Inr i" and "priceTicks bo t mem = Inr p"
    and "qty bo t mem = Inr q" and "seq bo t mem = Inr s" and "tsNs bo t mem = Inr ts"
proof -
  let ?at = "base + unat (t_offset t)"
  have sub: "take n (drop (?at + k) mem) = take n (drop k (tick_bytes i p q s ts))"
    if "k + n \<le> 24" for k n
    using that bs [symmetric] by (simp add: drop_take min_absorb1 add.commute)
  show "instrumentId bo t mem = Inr i" "priceTicks bo t mem = Inr p"
    "qty bo t mem = Inr q" "seq bo t mem = Inr s" "tsNs bo t mem = Inr ts"
    unfolding tick_reader_defs tick_get_eq [OF t] using room
    by (simp_all add: sub sub [where k = 0, simplified]) (simp_all add: tick_bytes_def)
qed

text \<open>
  C34: The five field writers fill exactly the 24 bytes of the body, in the same layout on every
  host, and leave every other byte alone; the five readers, on a host of either byte order,
  return the five values.
\<close>

theorem tick_wire_roundtrip:
  assumes t: "t_buffer t = Some base" and room: "base + unat (t_offset t) + 24 \<le> length mem"
  shows "\<exists>mem'. set_fields bo t i p q s ts mem = Inr mem'
       \<and> mem' = take (base + unat (t_offset t)) mem @ tick_bytes i p q s ts
                  @ drop (base + unat (t_offset t) + 24) mem
       \<and> instrumentId bo' t mem' = Inr i \<and> priceTicks bo' t mem' = Inr p
       \<and> qty bo' t mem' = Inr q \<and> seq bo' t mem' = Inr s \<and> tsNs bo' t mem' = Inr ts"
proof -
  let ?at = "base + unat (t_offset t)"
  let ?m = "take ?at mem @ tick_bytes i p q s ts @ drop (?at + 24) mem"
  have "set_fields bo t i p q s ts mem = Inr ?m"
    using room by (simp add: set_fields_eq [OF t room] mem_write_def)
  moreover have "?at + 24 \<le> length ?m" "take 24 (drop ?at ?m) = tick_bytes i p q s ts"
    using room by simp_all
  ultimately show ?thesis using tick_read_all [OF t, of ?m i p q s ts bo'] by blast
qed

theorem tick_wire_roundtrip_witness:
  "\<exists>mem'. set_fields Big_Endian (tick_default\<lparr>t_buffer := Some 2\<rparr>) 1001 (- 5) 3 4 (2 ^ 40)
      (replicate 30 0) = Inr mem'
    \<and> priceTicks Little_Endian (tick_default\<lparr>t_buffer := Some 2\<rparr>) mem' = Inr (- 5)"
  using tick_wire_roundtrip [of "tick_default\<lparr>t_buffer := Some 2\<rparr>" 2 "replicate 30 0" Big_Endian
      1001 "- 5" 3 4 "2 ^ 40" Little_Endian]
  by (auto simp: tick_default_def)

section \<open>Wrapping\<close>

text \<open>
  C35: \<open>wrapForDecode\<close>, for every offset, block length and announced length, compares the end of the
  block \<open>m_offset + m_actingBlockLength\<close> modulo 2^64 with the announced length: if it is larger it
  throws E100 and leaves the old position, otherwise the position is that wrapped end,
  \<open>encodedLength\<close> and \<open>decodeLength\<close> are the acting block length and rewinding changes nothing.
  If the sum does not wrap around, the acting block is at least the schema's 24 bytes and the
  buffer is as long as announced, all five readers succeed. If it does wrap around, the block does
  not fit in the announced length and is accepted all the same, as soon as the wrapped end does.
\<close>

theorem tick_decode_bounds:
  assumes w: "wrapForDecode t p off block ver len = (r, t')"
  shows "if unat len < (unat off + unat block) mod 2 ^ 64
    then r = Inl (Runtime_Error ''buffer too short [E100]'') \<and> t_position t' = t_position t
    else r = Inr () \<and> unat (t_position t') = (unat off + unat block) mod 2 ^ 64
       \<and> encodedLength t' = block \<and> decodeLength t' = Inr block \<and> sbeRewind t' = (Inr (), t')
       \<and> (unat off + unat block < 2 ^ 64 \<longrightarrow> p = Some base \<longrightarrow> base + unat len \<le> length mem \<longrightarrow>
            unat sbeBlockLength \<le> unat block \<longrightarrow>
            (\<exists>i px q s ts. instrumentId bo t' mem = Inr i \<and> priceTicks bo t' mem = Inr px
               \<and> qty bo t' mem = Inr q \<and> seq bo t' mem = Inr s \<and> tsNs bo t' mem = Inr ts))
       \<and> (2 ^ 64 \<le> unat off + unat block \<longrightarrow> unat len < unat off + unat block)"
proof -
  have pos: "unat (off + block) = (unat off + unat block) mod 2 ^ 64" by (simp add: unat_word_ariths)
  then have short: "off + block > len \<longleftrightarrow> unat len < (unat off + unat block) mod 2 ^ 64"
    by (simp only: word_less_nat_alt)
  show ?thesis
  proof (cases "off + block > len")
    case True
    with w short show ?thesis
      by (auto simp: wrapForDecode_def Let_def set_sbePosition_def sbeCheckPosition_def)
  next
    case False
    then have t': "r = Inr ()" "t' = t\<lparr>t_buffer := p, t_bufferLength := len, t_offset := off,
        t_position := off + block, t_actingBlockLength := block, t_actingVersion := ver\<rparr>"
      using w by (auto simp: wrapForDecode_def Let_def set_sbePosition_def sbeCheckPosition_def)
    have "decodeLength t' = Inr block"
      using False by (simp add: t'(2) decodeLength_def tick_new_def sbeCheckPosition_def
          encodedLength_def skip_def)
    moreover have "sbeRewind t' = (Inr (), t')"
      using False by (simp add: t'(2) sbeRewind_def wrapForDecode_def Let_def set_sbePosition_def
          sbeCheckPosition_def)
    moreover have "\<exists>i px q s ts. instrumentId bo t' mem = Inr i \<and> priceTicks bo t' mem = Inr px
                \<and> qty bo t' mem = Inr q \<and> seq bo t' mem = Inr s \<and> tsNs bo t' mem = Inr ts"
      if nw: "unat off + unat block < 2 ^ 64" and "p = Some base" "base + unat len \<le> length mem"
        "unat sbeBlockLength \<le> unat block"
    proof -
      have "unat off + unat block \<le> unat len" using False short nw by simp
      with that show ?thesis by (simp add: tick_reader_defs tick_get_eq t'(2) sbeBlockLength_def)
    qed
    moreover have "unat len < unat off + unat block" if "2 ^ 64 \<le> unat off + unat block"
      using that unat_less_2p64 [of len] by linarith
    moreover have "encodedLength t' = block" by (simp add: t'(2) encodedLength_def)
    moreover have "unat (t_position t') = (unat off + unat block) mod 2 ^ 64" by (simp add: t'(2) pos)
    ultimately show ?thesis using False short t'(1) by presburger
  qed
qed

theorem tick_decode_bounds_witness:
  "fst (wrapForDecode tick_default (Some 0) 8 24 0 31)
     = Inl (Runtime_Error ''buffer too short [E100]'')
   \<and> fst (wrapForDecode tick_default (Some 0) (- 8) 24 0 31) = Inr ()"
proof -
  let ?w = "\<lambda>off. wrapForDecode tick_default (Some 0) off 24 0 31"
  have "unat (- 8 :: u64) = 2 ^ 64 - 8" by simp
  then have "(unat (- 8 :: u64) + unat (24 :: u64)) mod 2 ^ 64 = 16" by simp
  then show ?thesis
    using tick_decode_bounds [of tick_default "Some 0" 8 24 0 31 "fst (?w 8)" "snd (?w 8)"]
      tick_decode_bounds [of tick_default "Some 0" "- 8" 24 0 31 "fst (?w (- 8))" "snd (?w (- 8))"]
    by simp
qed

text \<open>
  What \<open>wrapAndApplyHeader\<close> does at offset \<open>off\<close> of a buffer of the announced length, when
  \<open>off + 32\<close> does not wrap around: too short for the header, it throws E107 and nothing changes;
  long enough for the header but not for the body, it throws E100 after it has written the
  header; otherwise the header is written, nothing else in memory, and the flyweight stands
  behind it.
\<close>

theorem wrapAndApplyHeader_cases:
  assumes nw: "unat off + 32 < 2 ^ 64" and len: "base + unat len \<le> length mem"
    and w: "wrapAndApplyHeader bo t (Some base) off len mem = (r, t', mem')"
  shows "if unat len < unat off + 8
         then r = Inl (Runtime_Error ''buffer too short for flyweight [E107]'')
              \<and> t' = t \<and> mem' = mem
         else mem_write mem (base + unat off)
                (header_bytes sbeBlockLength sbeTemplateId sbeSchemaId sbeSchemaVersion) = Inr mem'
              \<and> t_buffer t' = Some base \<and> unat (t_offset t') = unat off + 8
              \<and> t_bufferLength t' = len \<and> t_actingBlockLength t' = 24 \<and> t_actingVersion t' = 0
              \<and> (if unat len < unat off + 32
                 then r = Inl (Runtime_Error ''buffer too short [E100]'')
                      \<and> t_position t' = t_position t
                 else r = Inr () \<and> unat (t_position t') = unat off + 32)"
proof -
  have u: "unat (off + 8) = unat off + 8" "unat (off + 32) = unat off + 32"
    using unat_add_no_wrap [of off 8] unat_add_no_wrap [of off 32] nw by simp_all
  have short: "off + 8 > len \<longleftrightarrow> unat len < unat off + 8"
    "off + 32 > len \<longleftrightarrow> unat len < unat off + 32"
    by (simp_all add: word_less_nat_alt u)
  show ?thesis
  proof (cases "unat len < unat off + 8")
    case True
    with w show ?thesis
      by (simp add: wrapAndApplyHeader_def header_new_def header_too_short_def short)
  next
    case False
    let ?hdr = "\<lparr>h_buffer = Some base, h_bufferLength = len, h_offset = off, h_actingVersion = 0\<rparr>"
    have new: "header_new (Some base) off len (ucast sbeSchemaVersion) = Inr ?hdr"
      using False by (simp add: header_new_def header_too_short_def short sbeSchemaVersion_def)
    have apply_h: "apply_header bo ?hdr mem = mem_write mem (base + unat off)
        (header_bytes sbeBlockLength sbeTemplateId sbeSchemaId sbeSchemaVersion)"
      unfolding apply_header_def using header_write_all [of ?hdr base mem bo] False len by simp
    obtain m where m: "mem_write mem (base + unat off)
        (header_bytes sbeBlockLength sbeTemplateId sbeSchemaId sbeSchemaVersion) = Inr m"
      using False len by (simp add: mem_write_def)
    show ?thesis
      using w False unfolding wrapAndApplyHeader_def new res_bind_simps apply_h m
      by (auto simp: m set_sbePosition_def sbeCheckPosition_def short u add.assoc
          header_encodedLength_def sbeBlockLength_def sbeSchemaVersion_def split: if_splits)
  qed
qed

theorem wrapAndApplyHeader_cases_witness:
  "fst (wrapAndApplyHeader Little_Endian tick_default (Some 0) 0 31 (replicate 31 7))
     = Inl (Runtime_Error ''buffer too short [E100]'')
   \<and> snd (snd (wrapAndApplyHeader Little_Endian tick_default (Some 0) 0 31 (replicate 31 7))) ! 0 = 24"
proof -
  obtain r t' mem' where w:
    "wrapAndApplyHeader Little_Endian tick_default (Some 0) 0 31 (replicate 31 7) = (r, t', mem')"
    by (cases "wrapAndApplyHeader Little_Endian tick_default (Some 0) 0 31 (replicate 31 7)")
  have "r = Inl (Runtime_Error ''buffer too short [E100]'') \<and>
      mem_write (replicate 31 7) 0
        (header_bytes sbeBlockLength sbeTemplateId sbeSchemaId sbeSchemaVersion) = Inr mem'"
    using wrapAndApplyHeader_cases [OF _ _ w] by simp
  moreover have "header_bytes sbeBlockLength sbeTemplateId sbeSchemaId sbeSchemaVersion ! 0 = 24"
    by code_simp
  ultimately show ?thesis unfolding w by (auto simp: mem_write_nth)
qed

section \<open>Metadata and text\<close>

text \<open>
  The published metadata is consistent: the five fields follow each other without gap or overlap
  from 0 to \<open>sbeBlockLength()\<close>, which is also \<open>computeLength()\<close>, field ids are distinct, and the
  null value of each field lies outside its range.
\<close>

lemma tick_metadata_layout:
  "m_offset instrumentId_meta = 0"
  "m_offset priceTicks_meta = m_offset instrumentId_meta + m_length instrumentId_meta"
  "m_offset qty_meta = m_offset priceTicks_meta + m_length priceTicks_meta"
  "m_offset seq_meta = m_offset qty_meta + m_length qty_meta"
  "m_offset tsNs_meta = m_offset seq_meta + m_length seq_meta"
  "computeLength = m_offset tsNs_meta + m_length tsNs_meta" "ucast sbeBlockLength = computeLength"
  "distinct [m_id instrumentId_meta, m_id priceTicks_meta, m_id qty_meta, m_id seq_meta, m_id tsNs_meta]"
  "list_all (\<lambda>m. m_min m \<le> m_max m \<and> m_max m < m_null m) [instrumentId_meta, qty_meta, seq_meta]"
  "sint (m_null priceTicks_meta) < sint (m_min priceTicks_meta)"
  "sint (m_min priceTicks_meta) \<le> sint (m_max priceTicks_meta)"
  "m_min tsNs_meta \<le> m_max tsNs_meta" "m_max tsNs_meta < m_null tsNs_meta"
  by (simp_all add: tick_meta_defs computeLength_def sbeBlockLength_def)

text \<open>
  What \<open>operator<<\<close> writes determines the five field values: two flyweights, on hosts of
  any byte order, that print the same text hold the same tick.
\<close>

theorem tick_show_determines:
  assumes "tick_show bo t mem = Inr txt" and "tick_show bo' t' mem' = Inr txt"
  shows "\<exists>w w'. tick_new (t_buffer t) (t_offset t) (t_bufferLength t) (t_actingBlockLength t)
             (t_actingVersion t) = Inr w
         \<and> tick_new (t_buffer t') (t_offset t') (t_bufferLength t') (t_actingBlockLength t')
             (t_actingVersion t') = Inr w'
         \<and> instrumentId bo w mem = instrumentId bo' w' mem'
         \<and> priceTicks bo w mem = priceTicks bo' w' mem' \<and> qty bo w mem = qty bo' w' mem'
         \<and> seq bo w mem = seq bo' w' mem' \<and> tsNs bo w mem = tsNs bo' w' mem'"
  using assms tick_text_inj unfolding tick_show_def res_bind_Inr_iff by (auto, metis+)

theorem tick_show_determines_witness:
  "qty Little_Endian (tick_default\<lparr>t_buffer := Some 0\<rparr>) (replicate 24 0)
     = qty Big_Endian (tick_default\<lparr>t_buffer := Some 1\<rparr>) (replicate 25 0)"
proof -
  let ?t = "\<lambda>b. tick_default\<lparr>t_buffer := Some b\<rparr>"
  have "tick_show Little_Endian (?t 0) (replicate 24 0) = Inr (tick_text 0 0 0 0 0)"
    "tick_show Big_Endian (?t 1) (replicate 25 0) = Inr (tick_text 0 0 0 0 0)"
    by code_simp+
  from tick_show_determines [OF this] show ?thesis
    by (auto simp: tick_new_def sbeCheckPosition_def tick_default_def)
qed

end
