(* ===== verification/SbeCodec.thy ===== *)
theory SbeCodec
  imports SbeTick
begin

text \<open>
  The helpers around the generated codec, \<open>include/ll/sbe_codec.hpp\<close>: \<open>encode_tick\<close> and
  \<open>decode_tick\<close> over the flyweights of \<open>SbeHeader\<close> and \<open>SbeTick\<close>. A \<open>std::span<char>\<close> is the
  list of its bytes: an access outside the span is the error \<open>Out_Of_Bounds\<close>.
\<close>

section \<open>Encoder and decoder\<close>

definition kTickWireBytes :: size_t where
  "kTickWireBytes = sbeBlockAndHeaderLength"

record tick_values =
  tv_instrument_id :: u32
  tv_price_ticks :: u32
  tv_qty :: u32
  tv_seq :: u32
  tv_ts_ns :: u64

text \<open>\<open>TickValues{}\<close>: every member has the initialiser 0.\<close>

definition tick_values_default :: tick_values where
  "tick_values_default = \<lparr>tv_instrument_id = 0, tv_price_ticks = 0, tv_qty = 0, tv_seq = 0,
     tv_ts_ns = 0\<rparr>"

definition encode_tick :: "byte_order \<Rightarrow> u8 list \<Rightarrow> tick_values \<Rightarrow> (size_t \<times> u8 list) res" where
  "encode_tick bo dst v =
     (if size_of_list dst < kTickWireBytes then Inr (0, dst)
      else case wrapAndApplyHeader bo tick_default (Some 0) 0 (size_of_list dst) dst of
             (Inl e, _, _) \<Rightarrow> Inl e
           | (Inr _, t, mem) \<Rightarrow>
               res_bind (set_fields bo t (tv_instrument_id v) (tv_price_ticks v) (tv_qty v)
                           (tv_seq v) (tv_ts_ns v) mem)
                 (\<lambda>mem'. Inr (kTickWireBytes, mem')))"

definition read_values :: "byte_order \<Rightarrow> tick \<Rightarrow> u8 list \<Rightarrow> tick_values res" where
  "read_values bo t mem =
     res_bind (instrumentId bo t mem) (\<lambda>i.
     res_bind (priceTicks bo t mem) (\<lambda>p.
     res_bind (qty bo t mem) (\<lambda>q.
     res_bind (seq bo t mem) (\<lambda>s.
     res_bind (tsNs bo t mem) (\<lambda>ts.
       Inr \<lparr>tv_instrument_id = i, tv_price_ticks = p, tv_qty = q, tv_seq = s, tv_ts_ns = ts\<rparr>)))))"

text \<open>
  The result is the returned flag and the caller's \<open>out\<close>. An exception leaves \<open>out\<close> alone: it
  is thrown before the first assignment.
\<close>

definition decode_tick ::
  "byte_order \<Rightarrow> u8 list \<Rightarrow> tick_values \<Rightarrow> (bool \<times> tick_values) res" where
  "decode_tick bo src out =
     (if size_of_list src < header_encodedLength then Inr (False, out)
      else res_bind (header_new (Some 0) 0 (size_of_list src) (ucast sbeSchemaVersion)) (\<lambda>hdr.
           res_bind (schemaId bo hdr src) (\<lambda>sid.
           if sid \<noteq> sbeSchemaId then Inr (False, out)
           else res_bind (templateId bo hdr src) (\<lambda>tid.
           if tid \<noteq> sbeTemplateId then Inr (False, out)
           else res_bind (blockLength bo hdr src) (\<lambda>bl.
                res_bind (version bo hdr src) (\<lambda>ver.
                case wrapForDecode tick_default (Some 0) header_encodedLength (ucast bl) (ucast ver)
                       (size_of_list src) of
                  (Inl e, _) \<Rightarrow> Inl e
                | (Inr _, t) \<Rightarrow> res_bind (read_values bo t src) (\<lambda>v. Inr (True, v))))))))"

section \<open>What they compute\<close>

text \<open>The 32 bytes of a tick on the wire, and the header fields of a buffer.\<close>

definition tick_wire :: "tick_values \<Rightarrow> u8 list" where
  "tick_wire v =
     header_bytes sbeBlockLength sbeTemplateId sbeSchemaId sbeSchemaVersion
     @ tick_bytes (tv_instrument_id v) (tv_price_ticks v) (tv_qty v) (tv_seq v) (tv_ts_ns v)"

definition wire_u16 :: "u8 list \<Rightarrow> nat \<Rightarrow> u16" where
  "wire_u16 src k = le_word (take 2 (drop k src))"

definition wire_values :: "u8 list \<Rightarrow> tick_values" where
  "wire_values src =
     \<lparr>tv_instrument_id = le_word (take 4 (drop 8 src)), tv_price_ticks = le_word (take 4 (drop 12 src)),
      tv_qty = le_word (take 4 (drop 16 src)), tv_seq = le_word (take 4 (drop 20 src)),
      tv_ts_ns = le_word (take 8 (drop 24 src))\<rparr>"

lemma length_tick_wire [simp]: "length (tick_wire v) = 32"
  by (simp add: tick_wire_def)

lemma le_word_16 [simp]: "le_word (le_bytes 2 (v :: u16)) = v"
  by (rule le_word_all_bytes16)

lemma wire_tick_wire:
  "wire_values (tick_wire v @ rest) = v"
  "wire_u16 (tick_wire v @ rest) 0 = sbeBlockLength"
  "wire_u16 (tick_wire v @ rest) 2 = sbeTemplateId"
  "wire_u16 (tick_wire v @ rest) 4 = sbeSchemaId"
  "wire_u16 (tick_wire v @ rest) 6 = sbeSchemaVersion"
  by (simp_all add: wire_values_def wire_u16_def tick_wire_def header_bytes_def tick_bytes_def)

lemma encode_tick_eq:
  assumes len: "length dst < 2 ^ 64"
  shows "encode_tick bo dst v =
    (if length dst < 32 then Inr (0, dst) else Inr (32, tick_wire v @ drop 32 dst))"
proof -
  have k: "kTickWireBytes = 32" by (simp add: kTickWireBytes_def tick_const_defs)
  have short: "size_of_list dst < kTickWireBytes \<longleftrightarrow> length dst < 32"
    using len by (simp add: k word_less_nat_alt)
  show ?thesis
  proof (cases "length dst < 32")
    case True
    then show ?thesis by (simp add: encode_tick_def short)
  next
    case False
    let ?H = "header_bytes sbeBlockLength sbeTemplateId sbeSchemaId sbeSchemaVersion"
    obtain r t m where w:
      "wrapAndApplyHeader bo tick_default (Some 0) 0 (size_of_list dst) dst = (r, t, m)"
      by (cases "wrapAndApplyHeader bo tick_default (Some 0) 0 (size_of_list dst) dst")
    have m: "mem_write dst 0 ?H = Inr m" and t: "r = Inr ()" "t_buffer t = Some 0" "unat (t_offset t) = 8"
      using wrapAndApplyHeader_cases [OF _ _ w] False len by simp_all
    then have m_eq: "m = ?H @ drop 8 dst" using False by (simp add: mem_write_def)
    have "set_fields bo t (tv_instrument_id v) (tv_price_ticks v) (tv_qty v) (tv_seq v) (tv_ts_ns v) m
        = Inr (tick_wire v @ drop 32 dst)"
      using t False by (simp add: set_fields_eq [of t 0] mem_write_def m_eq tick_wire_def)
    with False t(1) show ?thesis by (simp add: encode_tick_def short [unfolded k] w k)
  qed
qed

lemma header_read16:
  assumes "length src < 2 ^ 64" and "8 \<le> length src"
    and h: "h = \<lparr>h_buffer = Some 0, h_bufferLength = len, h_offset = 0, h_actingVersion = ver\<rparr>"
  shows "blockLength bo h src = Inr (wire_u16 src 0)" and "templateId bo h src = Inr (wire_u16 src 2)"
    and "schemaId bo h src = Inr (wire_u16 src 4)" and "version bo h src = Inr (wire_u16 src 6)"
  using assms by (simp_all add: header_field_defs field_get_le16 wire_u16_def del: add_2_eq_Suc add_2_eq_Suc')

lemma read_values_eq:
  assumes "t_buffer t = Some 0" and "t_offset t = 8"
  shows "read_values bo t src = (if 32 \<le> length src then Inr (wire_values src) else Inl Out_Of_Bounds)"
  using assms by (simp add: read_values_def tick_reader_defs tick_get_eq [of t 0] wire_values_def)

lemma decode_tick_eq:
  assumes len: "length src < 2 ^ 64"
  shows "decode_tick bo src out =
    (if length src < 8 \<or> wire_u16 src 4 \<noteq> sbeSchemaId \<or> wire_u16 src 2 \<noteq> sbeTemplateId
     then Inr (False, out)
     else if length src < 8 + unat (wire_u16 src 0)
     then Inl (Runtime_Error ''buffer too short [E100]'')
     else if length src < 32 then Inl Out_Of_Bounds
     else Inr (True, wire_values src))"
proof (cases "length src < 8")
  case True
  with len show ?thesis
    by (simp add: decode_tick_def header_encodedLength_def word_less_nat_alt)
next
  case False
  let ?bl = "wire_u16 src 0"
  let ?h = "\<lparr>h_buffer = Some 0, h_bufferLength = size_of_list src, h_offset = 0, h_actingVersion = 0\<rparr>"
  have size: "\<not> size_of_list src < header_encodedLength"
    using False len by (simp add: header_encodedLength_def word_less_nat_alt)
  have new: "header_new (Some 0) 0 (size_of_list src) (ucast sbeSchemaVersion) = Inr ?h"
    using False len
    by (simp add: header_new_def header_too_short_def sbeSchemaVersion_def word_less_nat_alt)
  have block: "unat (ucast ?bl :: u64) = unat ?bl" by (rule unat_ucast_up) simp
  have bl: "unat ?bl < 2 ^ 16" using unsigned_less [of ?bl] by simp
  then have pos: "unat (8 + ucast ?bl :: u64) = 8 + unat ?bl"
    by (subst unat_add_no_wrap) (simp_all add: block)
  have short: "8 + ucast ?bl > size_of_list src \<longleftrightarrow> length src < 8 + unat ?bl"
    using len by (simp add: word_less_nat_alt pos)
  have wrap: "wrapForDecode tick_default (Some 0) header_encodedLength (ucast ?bl) (ucast ver)
        (size_of_list src)
      = (if length src < 8 + unat ?bl then (Inl (Runtime_Error ''buffer too short [E100]''), t1)
         else (Inr (), t1\<lparr>t_position := 8 + ucast ?bl\<rparr>))"
    if "t1 = \<lparr>t_buffer = Some 0, t_bufferLength = size_of_list src, t_offset = 8, t_position = 0,
              t_actingBlockLength = ucast ?bl, t_actingVersion = ucast ver\<rparr>" for t1 and ver :: u16
    unfolding that by (simp add: wrapForDecode_def set_sbePosition_def sbeCheckPosition_def
        tick_default_def header_encodedLength_def short)
  note read = header_read16 [OF len, of ?h "size_of_list src" 0 bo]
  show ?thesis
    using False unfolding decode_tick_def
    by (simp add: size new read wrap [OF refl] read_values_eq)
qed

section \<open>Properties\<close>

text \<open>
  C9: \<open>encode_tick\<close> on any buffer: a buffer shorter than 32 bytes gives 0 and stays as it was;
  otherwise the result is 32, the first 32 bytes are the little-endian wire image of the header
  (24, 1, 77, 0) and the five values whatever the host's byte order, and no other byte changes.
\<close>

theorem encode_tick_spec:
  assumes "length dst < 2 ^ 64"
  shows "encode_tick bo dst v =
    (if length dst < 32 then Inr (0, dst)
     else Inr (32, le_bytes 2 (24 :: u16) @ le_bytes 2 (1 :: u16) @ le_bytes 2 (77 :: u16)
                   @ le_bytes 2 (0 :: u16)
                   @ le_bytes 4 (tv_instrument_id v) @ le_bytes 4 (tv_price_ticks v)
                   @ le_bytes 4 (tv_qty v) @ le_bytes 4 (tv_seq v) @ le_bytes 8 (tv_ts_ns v)
                   @ drop 32 dst))"
  unfolding encode_tick_eq [OF assms]
  by (simp add: tick_wire_def header_bytes_def tick_bytes_def tick_const_defs)

theorem encode_tick_spec_witness:
  "encode_tick Big_Endian (replicate 31 7) \<lparr>tv_instrument_id = 1, tv_price_ticks = 2, tv_qty = 3,
     tv_seq = 4, tv_ts_ns = 5\<rparr> = Inr (0, replicate 31 7)"
  by (subst encode_tick_spec) simp_all

text \<open>
  C8: What \<open>decode_tick\<close> does with every byte sequence: false and \<open>out\<close> unchanged when it is
  shorter than the header or the schema or template id is not the one of \<open>Tick\<close>; the exception
  E100 when the block length of the header does not fit in the buffer; a read outside the
  buffer when the header announces fewer than 24 bytes in a buffer shorter than 32; and in all
  other cases true with the five little-endian values of the body.
\<close>

theorem decode_tick_total:
  assumes "length src < 2 ^ 64"
  shows "decode_tick bo src out =
    (if length src < 8 \<or> wire_u16 src 4 \<noteq> 77 \<or> wire_u16 src 2 \<noteq> 1 then Inr (False, out)
     else if length src < 8 + unat (wire_u16 src 0)
     then Inl (Runtime_Error ''buffer too short [E100]'')
     else if length src < 32 then Inl Out_Of_Bounds
     else Inr (True, wire_values src))"
  unfolding decode_tick_eq [OF assms] by (simp add: tick_const_defs)

theorem decode_tick_total_witness:
  "decode_tick Big_Endian [24, 0, 1, 0, 77, 0, 0] tick_values_default
     = Inr (False, tick_values_default)"
  by (subst decode_tick_total) simp_all

text \<open>
  C7: A tick encoded on one host and decoded on another, of whatever byte orders, is the same
  tick; more bytes after the message do not matter.
\<close>

theorem encode_decode_roundtrip:
  assumes "length dst < 2 ^ 64" and "32 \<le> length dst"
  shows "\<exists>wire. encode_tick bo dst v = Inr (kTickWireBytes, wire)
       \<and> decode_tick bo' wire out = Inr (True, v)
       \<and> decode_tick bo' (take (unat kTickWireBytes) wire) out = Inr (True, v)"
proof -
  let ?wire = "tick_wire v @ drop 32 dst"
  have "decode_tick bo' (tick_wire v @ rest) out = Inr (True, v)" if "length rest + 32 < 2 ^ 64" for rest
    using that by (simp add: decode_tick_eq wire_tick_wire) (simp add: sbeBlockLength_def)
  from this [of "drop 32 dst"] this [of "[]"] assms show ?thesis
    by (simp add: encode_tick_eq kTickWireBytes_def tick_const_defs)
qed

theorem encode_decode_roundtrip_witness:
  "\<exists>wire. encode_tick Big_Endian (replicate 32 0) \<lparr>tv_instrument_id = 1001, tv_price_ticks = - 7,
        tv_qty = 3, tv_seq = 4, tv_ts_ns = 5\<rparr> = Inr (kTickWireBytes, wire)
    \<and> decode_tick Little_Endian wire \<lparr>tv_instrument_id = 0, tv_price_ticks = 0, tv_qty = 0,
        tv_seq = 0, tv_ts_ns = 0\<rparr>
      = Inr (True, \<lparr>tv_instrument_id = 1001, tv_price_ticks = - 7, tv_qty = 3, tv_seq = 4, tv_ts_ns = 5\<rparr>)"
  using encode_decode_roundtrip [of "replicate 32 0" Big_Endian "\<lparr>tv_instrument_id = 1001,
      tv_price_ticks = - 7, tv_qty = 3, tv_seq = 4, tv_ts_ns = 5\<rparr>" Little_Endian]
  by auto

text \<open>
  C33: The wire image of a tick is unique: a message of the current version that decodes to \<open>v\<close>
  consists of the very bytes \<open>encode_tick\<close> writes for \<open>v\<close>.
\<close>

theorem decode_encode_unique:
  assumes len: "length src < 2 ^ 64" and dec: "decode_tick bo src out = Inr (True, v)"
    and hdr: "wire_u16 src 0 = sbeBlockLength" "wire_u16 src 6 = sbeSchemaVersion"
    and dst: "length dst < 2 ^ 64" "32 \<le> length dst"
  shows "encode_tick bo' dst v = Inr (kTickWireBytes, take 32 src @ drop 32 dst)"
proof -
  have src: "32 \<le> length src" "wire_u16 src 4 = sbeSchemaId" "wire_u16 src 2 = sbeTemplateId"
    "v = wire_values src"
    using dec by (auto simp: decode_tick_eq [OF len] split: if_splits)
  have two: "le_bytes 2 (wire_u16 src k) = take 2 (drop k src)" if "k + 2 \<le> length src" for k
    using that le_bytes_all_bytes [of "take 2 (drop k src)", where 'a = 16] by (simp add: wire_u16_def)
  have four: "le_bytes 4 (le_word (take 4 (drop k src)) :: u32) = take 4 (drop k src)"
    if "k + 4 \<le> length src" for k
    using that le_bytes_all_bytes [of "take 4 (drop k src)", where 'a = 32] by simp
  have eight: "le_bytes 8 (le_word (take 8 (drop 24 src)) :: u64) = take 8 (drop 24 src)"
    using src(1) le_bytes_all_bytes [of "take 8 (drop 24 src)", where 'a = 64] by simp
  have cut: "take m (drop k src) @ take n (drop (k + m) src) = take (m + n) (drop k src)" for m n k
    by (simp add: take_add add.commute)
  have "tick_wire v = take 2 (drop 0 src) @ take 2 (drop 2 src) @ take 2 (drop 4 src) @ take 2 (drop 6 src)
      @ take 4 (drop 8 src) @ take 4 (drop 12 src) @ take 4 (drop 16 src) @ take 4 (drop 20 src)
      @ take 8 (drop 24 src)"
    unfolding tick_wire_def header_bytes_def tick_bytes_def src(2-4) [symmetric] hdr [symmetric]
    using src(1) two [of 0] two [of 2] two [of 4] two [of 6] four [of 8] four [of 12] four [of 16]
      four [of 20] eight by (simp add: src(4) wire_values_def)
  also have "\<dots> = take 32 src"
    using cut [of 4 20 8] cut [of 4 16 12] cut [of 4 12 16] cut [of 4 8 20] cut [of 2 6 24]
      cut [of 2 4 26] cut [of 2 2 28] cut [of 2 0 30]
    by (simp del: add_2_eq_Suc add_2_eq_Suc')
  finally show ?thesis
    using dst by (simp add: encode_tick_eq kTickWireBytes_def tick_const_defs)
qed

theorem decode_encode_unique_witness:
  "encode_tick Big_Endian (replicate 33 9) tick_values_default
     = Inr (kTickWireBytes, take 32 (tick_wire tick_values_default) @ drop 32 (replicate 33 9))"
proof -
  let ?src = "tick_wire tick_values_default @ []"
  have dec: "decode_tick Little_Endian ?src tick_values_default = Inr (True, tick_values_default)"
    by (subst decode_tick_eq) (simp_all add: wire_tick_wire sbeBlockLength_def del: append_Nil2)
  from decode_encode_unique [OF _ dec wire_tick_wire(2,5), of "replicate 33 9" Big_Endian]
  show ?thesis by simp
qed

text \<open>
  Cutting a valid message anywhere behind its header makes \<open>decode_tick\<close> throw, where its
  comment announces false for a short buffer; and a header whose block length is small enough
  to pass the check makes it read behind the end of a short buffer.
\<close>

theorem decode_tick_truncated:
  assumes "8 \<le> n" and "n < 32"
  shows "decode_tick bo (take n (tick_wire v)) out = Inl (Runtime_Error ''buffer too short [E100]'')
       \<and> decode_tick bo (header_bytes 0 sbeTemplateId sbeSchemaId 0 @ replicate (n - 8) 0) out
           = Inl Out_Of_Bounds"
proof -
  have wire: "wire_u16 (take n (tick_wire v)) k = wire_u16 (tick_wire v @ []) k" if "k + 2 \<le> 8" for k
    using that assms(1) by (simp add: wire_u16_def drop_take min_absorb1)
  have "decode_tick bo (take n (tick_wire v)) out = Inl (Runtime_Error ''buffer too short [E100]'')"
    using assms by (simp add: decode_tick_eq wire wire_tick_wire del: append_Nil2)
      (simp add: sbeBlockLength_def)
  moreover have "decode_tick bo (header_bytes 0 sbeTemplateId sbeSchemaId 0 @ replicate (n - 8) 0) out
      = Inl Out_Of_Bounds"
    using assms by (simp add: decode_tick_eq wire_u16_def header_bytes_def)
  ultimately show ?thesis ..
qed

theorem decode_tick_truncated_witness:
  "decode_tick Little_Endian [0, 0, 1, 0, 77, 0, 0, 0] tick_values_default = Inl Out_Of_Bounds"
proof -
  have "header_bytes 0 sbeTemplateId sbeSchemaId 0 = [0, 0, 1, 0, 77, 0, 0, 0]" by code_simp
  then show ?thesis using decode_tick_truncated [of 8 Little_Endian tick_values_default tick_values_default]
    by simp
qed

end
