(* ===== verification/SbeStyle.thy ===== *)
theory SbeStyle
  imports Bytes
begin

text \<open>
  The hand-written message of \<open>include/ll/sbe_style.hpp\<close>: the packed struct \<open>TickMsg\<close> and its
  three functions, which copy the object representation of the struct. Nothing here converts
  the byte order: the bytes of a member are those of the host.
\<close>

section \<open>The struct and its object representation\<close>

text \<open>\<open>price_ticks\<close> is a \<open>std::int32_t\<close>: the same 32 bits, read with \<open>sint\<close>.\<close>

record tick_msg =
  tm_instrument_id :: u32
  tm_price_ticks :: u32
  tm_qty :: u32
  tm_seq :: u32

definition sizeof_TickMsg :: size_t where
  "sizeof_TickMsg = 16"

text \<open>With \<open>#pragma pack(push, 1)\<close> the members follow each other without padding.\<close>

definition tick_msg_bytes :: "byte_order \<Rightarrow> tick_msg \<Rightarrow> u8 list" where
  "tick_msg_bytes bo m =
     host_bytes bo (tm_instrument_id m) @ host_bytes bo (tm_price_ticks m)
     @ host_bytes bo (tm_qty m) @ host_bytes bo (tm_seq m)"

definition tick_msg_of_bytes :: "byte_order \<Rightarrow> u8 list \<Rightarrow> tick_msg" where
  "tick_msg_of_bytes bo bs =
     \<lparr>tm_instrument_id = host_word bo (take 4 bs),
      tm_price_ticks = host_word bo (take 4 (drop 4 bs)),
      tm_qty = host_word bo (take 4 (drop 8 bs)),
      tm_seq = host_word bo (take 4 (drop 12 bs))\<rparr>"

text \<open>The struct as a whole is an encoding in 16 bytes, on either host.\<close>

lemma host32_laws [simp]:
  "length bs = 4 \<Longrightarrow> host_bytes bo (host_word bo bs :: u32) = bs"
  "(host_word bo (host_bytes bo w) :: u32) = w"
  by (simp_all add: host_bytes_word host_word_bytes)

interpretation tick_msg: wire_codec "tick_msg_bytes bo" "tick_msg_of_bytes bo" 16 for bo
proof
  show "length (tick_msg_bytes bo v) = 16" for v
    by (simp add: tick_msg_bytes_def)
  show "tick_msg_of_bytes bo (tick_msg_bytes bo v) = v" for v
    by (simp add: tick_msg_bytes_def tick_msg_of_bytes_def)
  show "tick_msg_bytes bo (tick_msg_of_bytes bo bs) = bs" if "length bs = 16" for bs
  proof -
    have cut: "take m (drop k bs) @ take n (drop (k + m) bs) = take (m + n) (drop k bs)" for m k n
      by (simp add: take_add add.commute)
    show ?thesis
      using that cut [of 4 8 4] cut [of 4 4 8] cut [of 4 0 12]
      by (simp add: tick_msg_bytes_def tick_msg_of_bytes_def)
  qed
qed

section \<open>Operations\<close>

text \<open>\<open>encode\<close> returns the flag and the destination, of which only a prefix may be written.\<close>

definition style_encode :: "byte_order \<Rightarrow> u8 list \<Rightarrow> tick_msg \<Rightarrow> (bool \<times> u8 list) res" where
  "style_encode bo dst msg =
     (if size_of_list dst < sizeof_TickMsg then Inr (False, dst)
      else res_bind (mem_write dst 0 (tick_msg_bytes bo msg)) (\<lambda>dst'. Inr (True, dst')))"

text \<open>
  \<open>decode_view\<close> returns a pointer into the source: null or its start. Reading through the
  pointer reads the object representation from the buffer as it is at that time; \<open>TickMsg\<close> is
  packed, its alignment is 1.
\<close>

definition decode_view :: "u8 list \<Rightarrow> nat option" where
  "decode_view src = (if size_of_list src < sizeof_TickMsg then None else Some 0)"

definition view_read :: "byte_order \<Rightarrow> u8 list \<Rightarrow> nat option \<Rightarrow> tick_msg res" where
  "view_read bo src p =
     (case p of None \<Rightarrow> Inl Null_Deref
      | Some at \<Rightarrow> field_get (tick_msg_of_bytes bo) (unat sizeof_TickMsg) src at)"

definition decode_copy :: "byte_order \<Rightarrow> u8 list \<Rightarrow> tick_msg \<Rightarrow> (bool \<times> tick_msg) res" where
  "decode_copy bo src out =
     (if size_of_list src < sizeof_TickMsg then Inr (False, out)
      else res_bind (mem_read src 0 (unat sizeof_TickMsg))
             (\<lambda>bs. Inr (True, tick_msg_of_bytes bo bs)))"

section \<open>Properties\<close>

lemma style_short:
  "length bs < 2 ^ 64 \<Longrightarrow> size_of_list bs < sizeof_TickMsg \<longleftrightarrow> length bs < 16"
  by (simp add: sizeof_TickMsg_def word_less_nat_alt)

lemma style_encode_eq:
  assumes "length dst < 2 ^ 64"
  shows "style_encode bo dst msg =
    (if length dst < 16 then Inr (False, dst) else Inr (True, tick_msg_bytes bo msg @ drop 16 dst))"
  using assms by (simp add: style_encode_def style_short mem_write_def tick_msg.length_enc)

lemma decode_copy_eq:
  assumes "length src < 2 ^ 64"
  shows "decode_copy bo src out =
    (if length src < 16 then Inr (False, out) else Inr (True, tick_msg_of_bytes bo (take 16 src)))"
  using assms by (simp add: decode_copy_def style_short mem_read_def) (simp add: sizeof_TickMsg_def)

text \<open>
  The two decoders agree: for every buffer, \<open>decode_view\<close> gives a pointer exactly when
  \<open>decode_copy\<close> returns true, the pointer is the start of the buffer, and the message read
  through it is the one \<open>decode_copy\<close> copies out; on a short buffer \<open>out\<close> keeps its value.
\<close>

theorem style_decoders_agree:
  assumes "length src < 2 ^ 64"
  shows "case decode_view src of
           None \<Rightarrow> length src < 16 \<and> decode_copy bo src out = Inr (False, out)
         | Some at \<Rightarrow> 16 \<le> length src \<and> at = 0
             \<and> (\<exists>m. view_read bo src (Some at) = Inr m \<and> decode_copy bo src out = Inr (True, m))"
  using assms
  by (simp add: decode_view_def style_short decode_copy_eq view_read_def field_get_def mem_read_def)
    (simp add: sizeof_TickMsg_def)

theorem style_decoders_agree_witness:
  "\<exists>m. view_read Big_Endian (replicate 20 1) (Some 0) = Inr m
     \<and> decode_copy Big_Endian (replicate 20 1) (tick_msg_of_bytes Big_Endian []) = Inr (True, m)"
  using style_decoders_agree [of "replicate 20 1" Big_Endian "tick_msg_of_bytes Big_Endian []"]
  by (simp add: decode_view_def sizeof_TickMsg_def word_less_nat_alt)

text \<open>
  On one host, \<open>encode\<close> succeeds exactly on buffers of at least 16 bytes, changes only the
  first 16, and both decoders give the message back.
\<close>

theorem style_roundtrip:
  assumes "length dst < 2 ^ 64" and "style_encode bo dst msg = Inr (ok, dst')"
  shows "ok = (16 \<le> length dst) \<and> length dst' = length dst \<and> drop 16 dst' = drop 16 dst
       \<and> (if ok then decode_copy bo dst' out = Inr (True, msg) \<and> decode_view dst' = Some 0
                     \<and> view_read bo dst' (Some 0) = Inr msg
          else dst' = dst)"
proof (cases "length dst < 16")
  case True
  with assms show ?thesis by (simp add: style_encode_eq)
next
  case False
  with assms have d: "ok" "dst' = tick_msg_bytes bo msg @ drop 16 dst" by (simp_all add: style_encode_eq)
  have t: "take 16 (tick_msg_bytes bo msg @ drop 16 dst) = tick_msg_bytes bo msg"
    by (simp add: tick_msg.length_enc)
  have "view_read bo dst' (Some 0) = Inr msg"
    unfolding view_read_def d(2) using tick_msg.get_at [of "[]" 0 bo msg "drop 16 dst"]
    by (simp add: sizeof_TickMsg_def)
  moreover have "decode_copy bo dst' out = Inr (True, msg)"
    using False assms(1) by (simp add: decode_copy_eq d(2) t tick_msg.dec_enc tick_msg.length_enc)
  ultimately show ?thesis
    using False assms(1) d by (simp add: decode_view_def style_short tick_msg.length_enc)
qed

theorem style_roundtrip_witness:
  "decode_copy Little_Endian (tick_msg_bytes Little_Endian
      \<lparr>tm_instrument_id = 1, tm_price_ticks = 2, tm_qty = 3, tm_seq = 4\<rparr> @ [9])
      \<lparr>tm_instrument_id = 0, tm_price_ticks = 0, tm_qty = 0, tm_seq = 0\<rparr>
   = Inr (True, \<lparr>tm_instrument_id = 1, tm_price_ticks = 2, tm_qty = 3, tm_seq = 4\<rparr>)"
proof -
  let ?m = "\<lparr>tm_instrument_id = 1, tm_price_ticks = 2, tm_qty = 3, tm_seq = 4\<rparr>"
  have "style_encode Little_Endian (replicate 16 0 @ [9]) ?m
      = Inr (True, tick_msg_bytes Little_Endian ?m @ [9])"
    by (simp add: style_encode_eq)
  from style_roundtrip [OF _ this] show ?thesis by simp
qed

text \<open>
  The header calls the message little-endian; it is so exactly on little-endian hosts. A
  big-endian host writes every member with its bytes reversed, and a message passed between
  hosts of different byte order comes out with every member byte-swapped.
\<close>

theorem style_byte_order:
  assumes "length dst < 2 ^ 64" and "16 \<le> length dst"
  shows "style_encode Little_Endian dst msg = Inr (True,
           le_bytes 4 (tm_instrument_id msg) @ le_bytes 4 (tm_price_ticks msg)
           @ le_bytes 4 (tm_qty msg) @ le_bytes 4 (tm_seq msg) @ drop 16 dst)
       \<and> style_encode Big_Endian dst msg = Inr (True,
           rev (le_bytes 4 (tm_instrument_id msg)) @ rev (le_bytes 4 (tm_price_ticks msg))
           @ rev (le_bytes 4 (tm_qty msg)) @ rev (le_bytes 4 (tm_seq msg)) @ drop 16 dst)
       \<and> (\<forall>dst'. style_encode Big_Endian dst msg = Inr (True, dst') \<longrightarrow>
            decode_copy Little_Endian dst' out = Inr (True,
              \<lparr>tm_instrument_id = bswap (tm_instrument_id msg),
               tm_price_ticks = bswap (tm_price_ticks msg),
               tm_qty = bswap (tm_qty msg), tm_seq = bswap (tm_seq msg)\<rparr>))"
  using assms
  by (auto simp: style_encode_eq decode_copy_eq tick_msg_bytes_def tick_msg_of_bytes_def
      host_bytes_def host_word_def host_order_def bswap_def)

theorem style_byte_order_witness:
  "\<exists>dst'. style_encode Big_Endian (replicate 16 0)
      \<lparr>tm_instrument_id = 1, tm_price_ticks = 0, tm_qty = 0, tm_seq = 0\<rparr> = Inr (True, dst')
    \<and> take 4 dst' = [0, 0, 0, 1]"
proof -
  have "le_bytes 4 (1 :: u32) = [1, 0, 0, 0]" by code_simp
  then show ?thesis
    using style_byte_order [of "replicate 16 0"
        "\<lparr>tm_instrument_id = 1, tm_price_ticks = 0, tm_qty = 0, tm_seq = 0\<rparr>"]
    by simp
qed

end
