(* ===== verification/SbeFlyweight.thy ===== *)
theory SbeFlyweight
  imports SbeTick
begin

text \<open>
  The rest of the two generated flyweights: their accessors and constants, the null values and the
  bounds-check macro of \<open>Tick.h\<close> and \<open>MessageHeader.h\<close>; and the flyweight over its whole life, as
  sequences of wraps, rewinds and position changes.
\<close>

section \<open>Macros\<close>

text \<open>
  \<open>SBE_BOUNDS_CHECK_EXPECT(exp, c)\<close>: without bounds checks the condition is false. The flyweights
  of the model are those of a build with bounds checks.
\<close>

datatype sbe_build = Sbe_No_Bounds_Check | Sbe_Msvc | Sbe_Builtin_Expect

fun sbe_bounds_check_expect :: "sbe_build \<Rightarrow> bool \<Rightarrow> bool \<Rightarrow> bool" where
  "sbe_bounds_check_expect Sbe_No_Bounds_Check e c \<longleftrightarrow> False"
| "sbe_bounds_check_expect Sbe_Msvc e c \<longleftrightarrow> e"
| "sbe_bounds_check_expect Sbe_Builtin_Expect e c \<longleftrightarrow> e"

definition sbe_null_int8 :: "8 word" where "sbe_null_int8 = word_of_int (- (2 ^ 7))"

definition sbe_null_int16 :: u16 where "sbe_null_int16 = word_of_int (- (2 ^ 15))"

definition sbe_null_int32 :: u32 where "sbe_null_int32 = word_of_int (- (2 ^ 31))"

definition sbe_null_int64 :: u64 where "sbe_null_int64 = word_of_int (- (2 ^ 63))"

definition sbe_null_uint8 :: "8 word" where "sbe_null_uint8 = - 1"

definition sbe_null_uint16 :: u16 where "sbe_null_uint16 = - 1"

definition sbe_null_uint32 :: u32 where "sbe_null_uint32 = - 1"

definition sbe_null_uint64 :: u64 where "sbe_null_uint64 = - 1"

section \<open>Constants and accessors\<close>

text \<open>The constants \<open>SBE_BLOCK_LENGTH\<close>, \<open>SBE_TEMPLATE_ID\<close>, \<open>SBE_SCHEMA_ID\<close>, \<open>SBE_SCHEMA_VERSION\<close>.\<close>

definition tick_sbe_constants :: "u16 \<times> u16 \<times> u16 \<times> u16" where
  "tick_sbe_constants = (24, 1, 77, 0)"

definition tick_sbeSemanticVersion :: string where
  "tick_sbeSemanticVersion = ''1.0.0''"

definition tick_sbeSemanticType :: string where
  "tick_sbeSemanticType = ''''"

definition tick_offset :: "tick \<Rightarrow> u64" where
  "tick_offset t = t_offset t"

definition tick_sbePosition :: "tick \<Rightarrow> u64" where
  "tick_sbePosition t = t_position t"

definition tick_buffer :: "tick \<Rightarrow> buffer_ptr" where
  "tick_buffer t = t_buffer t"

definition tick_bufferLength :: "tick \<Rightarrow> u64" where
  "tick_bufferLength t = t_bufferLength t"

definition tick_actingVersion :: "tick \<Rightarrow> u64" where
  "tick_actingVersion t = t_actingVersion t"

definition tick_isConstLength :: bool where
  "tick_isConstLength \<longleftrightarrow> True"

definition header_offset :: "message_header \<Rightarrow> u64" where
  "header_offset h = h_offset h"

definition header_buffer :: "message_header \<Rightarrow> buffer_ptr" where
  "header_buffer h = h_buffer h"

definition header_bufferLength :: "message_header \<Rightarrow> u64" where
  "header_bufferLength h = h_bufferLength h"

definition header_actingVersion :: "message_header \<Rightarrow> u64" where
  "header_actingVersion h = h_actingVersion h"

lemmas flyweight_accessor_defs =
  tick_offset_def tick_sbePosition_def tick_buffer_def tick_bufferLength_def tick_actingVersion_def
  header_offset_def header_buffer_def header_bufferLength_def header_actingVersion_def

text \<open>The constants are what the static functions return, and the fields publish the null values.\<close>

lemma tick_constants_agree:
  "tick_sbe_constants = (sbeBlockLength, sbeTemplateId, sbeSchemaId, sbeSchemaVersion)"
  "header_sbeSchemaId = sbeSchemaId" "header_sbeSchemaVersion = sbeSchemaVersion"
  by (simp_all add: tick_sbe_constants_def tick_const_defs header_sbeSchemaId_def header_sbeSchemaVersion_def)

lemma tick_nulls_agree:
  "m_null instrumentId_meta = sbe_null_uint32" "m_null priceTicks_meta = sbe_null_int32"
  "m_null qty_meta = sbe_null_uint32" "m_null seq_meta = sbe_null_uint32" "m_null tsNs_meta = sbe_null_uint64"
  "m_null blockLength_meta = sbe_null_uint16"
  by (simp_all add: instrumentId_meta_def priceTicks_meta_def qty_meta_def seq_meta_def tsNs_meta_def
      blockLength_meta_def sbe_null_uint32_def sbe_null_int32_def sbe_null_uint64_def sbe_null_uint16_def)

section \<open>The flyweight in use\<close>

datatype tick_op =
    Wrap_Encode buffer_ptr u64 u64
  | Wrap_Header buffer_ptr u64 u64
  | Wrap_Decode buffer_ptr u64 u64 u64 u64
  | Rewind
  | Set_Position u64

fun tick_call :: "byte_order \<Rightarrow> tick_op \<Rightarrow> tick \<times> u8 list \<Rightarrow> unit res \<times> tick \<times> u8 list" where
  "tick_call bo (Wrap_Encode p off len) (t, mem) =
     (let (r, t') = wrapForEncode t p off len in (r, t', mem))"
| "tick_call bo (Wrap_Header p off len) (t, mem) = wrapAndApplyHeader bo t p off len mem"
| "tick_call bo (Wrap_Decode p off block ver len) (t, mem) =
     (let (r, t') = wrapForDecode t p off block ver len in (r, t', mem))"
| "tick_call bo Rewind (t, mem) = (let (r, t') = sbeRewind t in (r, t', mem))"
| "tick_call bo (Set_Position pos) (t, mem) = (let (r, t') = set_sbePosition t pos in (r, t', mem))"

text \<open>The results of the calls, latest first, and what is left.\<close>

fun tick_calls :: "byte_order \<Rightarrow> tick_op list \<Rightarrow> unit res list \<times> tick \<times> u8 list
    \<Rightarrow> unit res list \<times> tick \<times> u8 list" where
  "tick_calls bo [] s = s"
| "tick_calls bo (op # ops) (rs, t, mem) =
     (let (r, t', mem') = tick_call bo op (t, mem) in tick_calls bo ops (r # rs, t', mem'))"

text \<open>A call that throws after it has assigned the new buffer leaves the old position in place.\<close>

fun rewraps :: "tick_op \<Rightarrow> bool" where
  "rewraps Rewind \<longleftrightarrow> False"
| "rewraps (Set_Position pos) \<longleftrightarrow> False"
| "rewraps op \<longleftrightarrow> True"

definition position_inside :: "tick \<Rightarrow> bool" where
  "position_inside t \<longleftrightarrow> tick_sbePosition t \<le> tick_bufferLength t"

lemma set_position_result:
  "set_sbePosition t p = (r, t') \<Longrightarrow>
    (r = Inr () \<longrightarrow> t' = t\<lparr>t_position := p\<rparr> \<and> p \<le> t_bufferLength t)
    \<and> (r \<noteq> Inr () \<longrightarrow> t' = t \<and> t_bufferLength t < p)"
  by (auto simp: set_sbePosition_def sbeCheckPosition_def split: if_splits)

lemma tick_call_inside:
  assumes "tick_call bo op (t, mem) = (r, t', mem')"
  shows "r = Inr () \<Longrightarrow> position_inside t'"
    and "\<not> rewraps op \<Longrightarrow> r \<noteq> Inr () \<Longrightarrow> t' = t \<and> mem' = mem"
    and "(\<forall>p off len. op \<noteq> Wrap_Header p off len) \<Longrightarrow> mem' = mem"
proof -
  have rewind: "t\<lparr>t_buffer := t_buffer t, t_bufferLength := t_bufferLength t, t_offset := t_offset t,
      t_actingBlockLength := t_actingBlockLength t, t_actingVersion := t_actingVersion t\<rparr> = t" by simp
  show "position_inside t'" if "r = Inr ()"
    using assms that
    by (cases op) (auto simp: position_inside_def flyweight_accessor_defs wrapForEncode_def wrapForDecode_def
        wrapAndApplyHeader_def sbeRewind_def Let_def split: sum.splits prod.splits dest!: set_position_result)
  show "t' = t \<and> mem' = mem" if "\<not> rewraps op" "r \<noteq> Inr ()"
    using assms that
    by (cases op) (auto simp: wrapForDecode_def sbeRewind_def Let_def split: prod.splits dest!: set_position_result)
  show "mem' = mem" if "\<forall>p off len. op \<noteq> Wrap_Header p off len"
    using assms that by (cases op) (auto split: prod.splits)
qed

text \<open>
  The history of the calls, latest first: the last call that returned came after the last wrap that
  threw.
\<close>

fun standing :: "(tick_op \<times> unit res) list \<Rightarrow> bool" where
  "standing [] \<longleftrightarrow> True"
| "standing ((op, r) # h) \<longleftrightarrow> r = Inr () \<or> (\<not> rewraps op \<and> standing h)"

lemma tick_calls_snoc:
  "tick_calls bo (ops @ [op]) (rs, t, mem) =
    (case tick_calls bo ops (rs, t, mem) of (rs, t, mem) \<Rightarrow>
       (case tick_call bo op (t, mem) of (r, t', mem') \<Rightarrow> (r # rs, t', mem')))"
  by (induction bo ops "(rs, t, mem)" arbitrary: rs t mem rule: tick_calls.induct) (auto split: prod.splits)

lemma tick_calls_inside:
  assumes "position_inside t0"
  shows "tick_calls bo ops ([], t0, mem0) = (rs, t, mem) \<Longrightarrow> standing (zip (rev ops) rs) \<Longrightarrow> position_inside t"
proof (induction ops arbitrary: rs t mem rule: rev_induct)
  case Nil
  with assms show ?case by simp
next
  case (snoc op ops)
  obtain rs1 t1 mem1 where one: "tick_calls bo ops ([], t0, mem0) = (rs1, t1, mem1)" by (metis prod_cases3)
  obtain r where call: "tick_call bo op (t1, mem1) = (r, t, mem)" "rs = r # rs1"
    using snoc.prems(1) one by (auto simp: tick_calls_snoc split: prod.splits)
  from snoc.prems(2) call(2) have "r = Inr () \<or> (\<not> rewraps op \<and> standing (zip (rev ops) rs1))" by simp
  then show ?case using tick_call_inside(1,2) [OF call(1)] snoc.IH [OF one] by (cases "r = Inr ()") auto
qed

lemma tick_calls_mem:
  "tick_calls bo ops (rs, t, mem) = (rs', t', mem') \<Longrightarrow> \<forall>op \<in> set ops. \<forall>p off len. op \<noteq> Wrap_Header p off len
    \<Longrightarrow> mem' = mem"
  by (induction bo ops "(rs, t, mem)" arbitrary: rs t mem rule: tick_calls.induct)
    (auto split: prod.splits dest: tick_call_inside(3))

text \<open>
  C36: however a \<open>Tick\<close> flyweight is wrapped, rewound and moved, its position never lies behind the
  buffer it is over, unless the latest call that changed it is a wrap that threw; nothing but
  \<open>wrapAndApplyHeader\<close> writes into the buffer.
\<close>

theorem tick_position_inside:
  assumes run: "tick_calls bo ops ([], tick_default, mem0) = (rs, t, mem)"
  shows "(standing (zip (rev ops) rs) \<longrightarrow> tick_sbePosition t \<le> tick_bufferLength t)
    \<and> ((\<forall>op \<in> set ops. \<forall>p off len. op \<noteq> Wrap_Header p off len) \<longrightarrow> mem = mem0)"
proof -
  have "position_inside tick_default"
    by (simp add: position_inside_def tick_default_def flyweight_accessor_defs)
  from tick_calls_inside [OF this run] tick_calls_mem [OF run] show ?thesis
    by (auto simp: position_inside_def)
qed

text \<open>A wrap over a shorter buffer throws, a move too far behind it as well, and rewinding still does.\<close>

theorem tick_position_inside_witness:
  "let (rs, t, mem) = tick_calls Little_Endian [Wrap_Decode (Some 0) 8 24 0 32, Set_Position 33, Rewind]
     ([], tick_default, replicate 32 0)
   in rs = [Inr (), Inl (Runtime_Error ''buffer too short [E100]''), Inr ()]
      \<and> tick_sbePosition t \<le> tick_bufferLength t \<and> mem = replicate 32 0"
proof -
  let ?ops = "[Wrap_Decode (Some 0) 8 24 0 32, Set_Position 33, Rewind]"
  obtain rs t mem where run: "tick_calls Little_Endian ?ops ([], tick_default, replicate 32 0) = (rs, t, mem)"
    by (metis prod_cases3)
  have rs: "rs = [Inr (), Inl (Runtime_Error ''buffer too short [E100]''), Inr ()]"
    using run by (simp add: tick_wrap_defs tick_default_def Let_def split: if_splits)
  from tick_position_inside [OF run] rs run show ?thesis by simp
qed

text \<open>When the last wrap threw, the position may lie behind the new buffer.\<close>

lemma tick_failed_wrap_position:
  "let (rs, t, mem) = tick_calls Little_Endian
     [Wrap_Decode (Some 0) 8 24 0 32, Wrap_Decode (Some 0) 8 24 0 16] ([], tick_default, replicate 32 0)
   in tick_sbePosition t = 32 \<and> tick_bufferLength t = 16"
  by (simp add: tick_wrap_defs tick_default_def Let_def flyweight_accessor_defs)

end
