(* ===== verification/Arena.thy ===== *)
theory Arena
  imports Bytes
begin

text \<open>
  The bump allocator \<open>ll::Arena\<close> of \<open>include/ll/arena.hpp\<close>: the address arithmetic of
  \<open>allocate\<close> on 64-bit words, \<open>create\<close> with the bytes it constructs, \<open>reset\<close> and the
  accessors; the interface of an allocator that hands out blocks upwards, with the disjointness
  of the blocks proved once for it; and the life of the objects between two resets.
\<close>

section \<open>State and operations\<close>

text \<open>
  \<open>a_data\<close> is the address \<open>storage_.data()\<close>, given by the allocator of the vector, \<open>a_storage\<close>
  the bytes of the vector.
\<close>

record arena =
  a_data :: u64
  a_storage :: "u8 list"
  a_offset :: size_t

definition arena_new :: "u64 \<Rightarrow> nat \<Rightarrow> arena" where
  "arena_new data bytes = \<lparr>a_data = data, a_storage = replicate bytes 0, a_offset = 0\<rparr>"

definition arena_used :: "arena \<Rightarrow> size_t" where
  "arena_used a = a_offset a"

definition arena_capacity :: "arena \<Rightarrow> size_t" where
  "arena_capacity a = size_of_list (a_storage a)"

text \<open>The span: its address and its number of bytes.\<close>

definition arena_remaining :: "arena \<Rightarrow> u64 \<times> size_t" where
  "arena_remaining a = (a_data a + a_offset a, arena_capacity a - a_offset a)"

definition arena_reset :: "arena \<Rightarrow> arena" where
  "arena_reset a = a\<lparr>a_offset := 0\<rparr>"

definition align_up :: "u64 \<Rightarrow> size_t \<Rightarrow> u64" where
  "align_up base align = (base + (align - 1)) AND NOT (align - 1)"

definition arena_allocate :: "arena \<Rightarrow> size_t \<Rightarrow> size_t \<Rightarrow> (u64 \<times> arena) res" where
  "arena_allocate a n align =
     (let base = a_data a + a_offset a;
          aligned = align_up base align;
          delta = aligned - base
      in if a_offset a + delta + n > arena_capacity a then Inl Bad_Alloc
         else Inr (aligned, a\<lparr>a_offset := a_offset a + (delta + n)\<rparr>))"

text \<open>
  \<open>create<T>(args...)\<close> constructs a \<open>T\<close> in place: \<open>obj\<close> are the bytes of \<open>T(args...)\<close>, one
  for each byte of \<open>sizeof(T)\<close>, and \<open>align\<close> is \<open>alignof(T)\<close>.
\<close>

definition arena_create :: "arena \<Rightarrow> u8 list \<Rightarrow> size_t \<Rightarrow> (u64 \<times> arena) res" where
  "arena_create a obj align =
     res_bind (arena_allocate a (size_of_list obj) align) (\<lambda>(p, a').
     res_bind (mem_write (a_storage a') (unat (p - a_data a')) obj) (\<lambda>st.
       Inr (p, a'\<lparr>a_storage := st\<rparr>)))"

section \<open>Aligning an address\<close>

lemma unat_and_not_mask: "unat (w AND NOT (mask k) :: u64) = unat w div 2 ^ k * 2 ^ k"
proof -
  have "w AND NOT (mask k) = push_bit k (drop_bit k w)"
    by (rule bit_word_eqI) (auto simp: bit_simps)
  moreover have "unat w div 2 ^ k * 2 ^ k < 2 ^ 64"
    using unat_less_2p64 [of w] div_times_less_eq_dividend [of "unat w" "2 ^ k"] by linarith
  moreover have "unat (push_bit k (drop_bit k w)) = take_bit 64 (unat w div 2 ^ k * 2 ^ k)"
    by (simp only: unsigned_push_bit_eq unsigned_drop_bit_eq len_bit0 len_num1 len_num0)
      (simp add: drop_bit_eq_div push_bit_eq_mult take_bit_nat_eq_self [OF unat_less_2p64])
  ultimately show ?thesis by (simp only: take_bit_nat_eq_self)
qed

text \<open>
  For a power of two, and as long as the addition does not wrap around, the least multiple of
  the alignment that is not below the address.
\<close>

lemma align_up_nat:
  assumes al: "pow2_size (unat al)" and nw: "unat base + unat al \<le> 2 ^ 64"
  shows "unat (align_up base al) = (unat base + (unat al - 1)) div unat al * unat al"
proof -
  obtain k where k: "k < 64" "unat al = 2 ^ k" using al by (rule pow2_sizeE)
  let ?A = "2 ^ k :: nat"
  have pos: "0 < ?A" by simp
  have "al = word_of_nat ?A" using k(2) by (simp flip: k(2))
  then have mask: "al - 1 = mask k" using mask_word_of_pow2 [OF k(1)] by simp
  have "unat (mask k :: u64) = ?A - 1"
    using k(2) pos unat_minus_one [of al] unfolding mask [symmetric]
    by (metis unat_eq_zero less_numeral_extra(3))
  then have "unat (base + mask k) = unat base + (?A - 1)"
    using nw k pos by (simp add: unat_add_no_wrap)
  then show ?thesis by (simp add: align_up_def mask unat_and_not_mask k(2))
qed

lemma round_up:
  assumes "0 < (A :: nat)"
  shows "A dvd (b + (A - 1)) div A * A" and "b \<le> (b + (A - 1)) div A * A"
    and "(b + (A - 1)) div A * A < b + A"
proof -
  have "(b + (A - 1)) mod A < A" using assms by simp
  moreover have "(b + (A - 1)) div A * A + (b + (A - 1)) mod A = b + (A - 1)"
    by (rule div_mult_mod_eq)
  ultimately show "b \<le> (b + (A - 1)) div A * A" and "(b + (A - 1)) div A * A < b + A"
    by linarith+
qed simp

lemma align_up:
  assumes al: "pow2_size (unat al)" and nw: "unat base + unat al \<le> 2 ^ 64"
  shows "unat al dvd unat (align_up base al)" and "unat base \<le> unat (align_up base al)"
    and "unat (align_up base al) < unat base + unat al"
  unfolding align_up_nat [OF assms] using round_up [OF pow2_size_pos [OF al]] by blast+

section \<open>Allocators that hand out blocks upwards\<close>

text \<open>
  \<open>alloc\<close> moves the top of the used part; \<open>admissible\<close> says for which requests the laws hold.
  A failed request leaves the allocator as it is, so a run goes on after it.
\<close>

fun alloc_run :: "('a \<Rightarrow> size_t \<Rightarrow> size_t \<Rightarrow> (u64 \<times> 'a) res) \<Rightarrow> 'a \<Rightarrow> (size_t \<times> size_t) list
    \<Rightarrow> (u64 \<times> size_t) list \<times> 'a" where
  "alloc_run alloc a [] = ([], a)"
| "alloc_run alloc a ((n, al) # rs) =
     (case alloc a n al of
        Inl e \<Rightarrow> alloc_run alloc a rs
      | Inr (p, a') \<Rightarrow> (let (bs, b) = alloc_run alloc a' rs in ((p, n) # bs, b)))"

locale upward_allocator =
  fixes alloc :: "'a \<Rightarrow> size_t \<Rightarrow> size_t \<Rightarrow> (u64 \<times> 'a) res"
    and inv :: "'a \<Rightarrow> bool"
    and admissible :: "'a \<Rightarrow> size_t \<Rightarrow> size_t \<Rightarrow> bool"
    and top :: "'a \<Rightarrow> nat"
    and limit :: "'a \<Rightarrow> nat"
  assumes top_limit: "inv a \<Longrightarrow> top a \<le> limit a"
    and alloc_inv: "inv a \<Longrightarrow> admissible a n al \<Longrightarrow> alloc a n al = Inr (p, a') \<Longrightarrow> inv a'"
    and alloc_limit: "inv a \<Longrightarrow> admissible a n al \<Longrightarrow> alloc a n al = Inr (p, a') \<Longrightarrow>
      limit a' = limit a \<and> (\<forall>n al. admissible a' n al = admissible a n al)"
    and alloc_block: "inv a \<Longrightarrow> admissible a n al \<Longrightarrow> alloc a n al = Inr (p, a') \<Longrightarrow>
      unat al dvd unat p \<and> top a \<le> unat p \<and> unat p + unat n = top a'"
begin

lemma run_blocks:
  assumes "inv a" and "\<forall>(n, al) \<in> set rs. admissible a n al" and "alloc_run alloc a rs = (bs, b)"
  shows "inv b \<and> limit b = limit a \<and> top a \<le> top b
    \<and> (\<forall>(p, n) \<in> set bs. top a \<le> unat p \<and> unat p + unat n \<le> top b)
    \<and> sorted_wrt (\<lambda>(p, n) (p', n'). unat p + unat n \<le> unat p') bs"
  using assms
proof (induction rs arbitrary: a bs)
  case (Cons r rs)
  obtain n al where r: "r = (n, al)" by (cases r)
  show ?case
  proof (cases "alloc a n al")
    case (Inl e)
    with Cons r show ?thesis by simp
  next
    case (Inr pa)
    obtain p a' where pa: "pa = (p, a')" by (cases pa)
    obtain bs' where run: "alloc_run alloc a' rs = (bs', b)" and bs: "bs = (p, n) # bs'"
      using Cons.prems(3) Inr pa r by (auto split: prod.splits)
    have adm: "admissible a n al" and a: "alloc a n al = Inr (p, a')"
      using Cons.prems(2) r Inr pa by auto
    note laws = alloc_inv [OF Cons.prems(1) adm a] alloc_limit [OF Cons.prems(1) adm a]
      alloc_block [OF Cons.prems(1) adm a]
    have "\<forall>(n, al) \<in> set rs. admissible a' n al" using laws(2) Cons.prems(2) by auto
    from Cons.IH [OF laws(1) this run] laws show ?thesis
      unfolding bs by fastforce
  qed
qed (auto intro: top_limit)

lemma run_disjoint:
  assumes "inv a" and "\<forall>(n, al) \<in> set rs. admissible a n al" and "alloc_run alloc a rs = (bs, b)"
    and "i < j" and "j < length bs"
  shows "unat (fst (bs ! i)) + unat (snd (bs ! i)) \<le> unat (fst (bs ! j))"
proof -
  have "sorted_wrt (\<lambda>(p, n) (p', n'). unat p + unat n \<le> unat p') bs"
    using run_blocks [OF assms(1-3)] by blast
  from sorted_wrt_nth_less [OF this assms(4,5)] show ?thesis by (simp add: case_prod_beta)
qed

end

section \<open>The arena is one\<close>

text \<open>The vector lies in the address space and the used part is a prefix of it.\<close>

definition arena_inv :: "arena \<Rightarrow> bool" where
  "arena_inv a \<longleftrightarrow> unat (a_data a) + length (a_storage a) < 2 ^ 64
     \<and> unat (a_offset a) \<le> length (a_storage a)"

text \<open>
  A request the arithmetic can carry out without wrapping around: the alignment is a power of
  two, and neither rounding an address of the storage up nor adding the size to an offset
  leaves 64 bits.
\<close>

definition sane_request :: "arena \<Rightarrow> size_t \<Rightarrow> size_t \<Rightarrow> bool" where
  "sane_request a n al \<longleftrightarrow> pow2_size (unat al)
     \<and> unat (a_data a) + length (a_storage a) + unat al \<le> 2 ^ 64
     \<and> length (a_storage a) + unat al + unat n \<le> 2 ^ 64"

definition arena_top :: "arena \<Rightarrow> nat" where
  "arena_top a = unat (a_data a) + unat (a_offset a)"

definition arena_limit :: "arena \<Rightarrow> nat" where
  "arena_limit a = unat (a_data a) + length (a_storage a)"

text \<open>The outcome of a request, with everything as numbers.\<close>

lemma arena_allocate_nat:
  assumes inv: "arena_inv a" and req: "sane_request a n al"
  defines "p \<equiv> align_up (a_data a + a_offset a) al"
  shows "arena_allocate a n al =
      (if unat p + unat n \<le> arena_limit a then Inr (p, a\<lparr>a_offset := p + n - a_data a\<rparr>)
       else Inl Bad_Alloc)"
    and "unat al dvd unat p" and "arena_top a \<le> unat p" and "unat p < arena_top a + unat al"
    and "unat p + unat n \<le> arena_limit a \<Longrightarrow>
      unat (p + n - a_data a) = unat p + unat n - unat (a_data a)"
proof -
  let ?base = "a_data a + a_offset a"
  have base: "unat ?base = arena_top a"
    using inv by (simp add: arena_inv_def arena_top_def unat_add_no_wrap)
  have al: "pow2_size (unat al)" "unat ?base + unat al \<le> 2 ^ 64"
    using inv req by (auto simp: base sane_request_def arena_inv_def arena_top_def)
  note p = align_up [OF al, folded p_def]
  then show pos: "unat al dvd unat p" "arena_top a \<le> unat p" "unat p < arena_top a + unat al"
    by (simp_all add: base)
  define d where "d = p - ?base"
  have delta: "unat d = unat p - arena_top a"
    using pos(2) base by (simp add: d_def unat_sub word_le_nat_alt)
  have small: "unat d < unat al" using pos delta by linarith
  have d: "unat (a_offset a + d) = unat (a_offset a) + unat d"
    using inv req small by (intro unat_add_no_wrap) (auto simp: arena_inv_def sane_request_def)
  have sum: "unat (a_offset a + d + n) = unat (a_offset a) + unat d + unat n"
    using inv req small unat_add_no_wrap [of "a_offset a + d" n]
    by (auto simp: d arena_inv_def sane_request_def)
  have cap: "unat (arena_capacity a) = length (a_storage a)"
    using inv by (simp add: arena_capacity_def arena_inv_def)
  have fits: "a_offset a + d + n > arena_capacity a \<longleftrightarrow> \<not> unat p + unat n \<le> arena_limit a"
    unfolding word_less_nat_alt sum cap delta using pos(2)
    by (auto simp: arena_limit_def arena_top_def)
  have off: "a_offset a + (d + n) = p + n - a_data a" by (simp add: d_def algebra_simps)
  show "arena_allocate a n al =
      (if unat p + unat n \<le> arena_limit a then Inr (p, a\<lparr>a_offset := p + n - a_data a\<rparr>)
       else Inl Bad_Alloc)"
    unfolding arena_allocate_def Let_def p_def [symmetric] d_def [symmetric] fits off by simp
  have "unat (p + n - a_data a) = unat (a_offset a + d + n)"
    unfolding off [symmetric] by (simp add: add.assoc)
  then show "unat (p + n - a_data a) = unat p + unat n - unat (a_data a)"
    using pos(2) by (simp add: sum delta arena_top_def)
qed

lemma arena_allocate_InrD:
  assumes "arena_inv a" and "sane_request a n al" and "arena_allocate a n al = Inr (p, a')"
  shows "arena_inv a'" and "unat al dvd unat p" and "arena_top a \<le> unat p"
    and "unat p + unat n = arena_top a'" and "arena_top a' \<le> arena_limit a"
    and "a_data a' = a_data a" and "a_storage a' = a_storage a"
  using assms(1,3) arena_allocate_nat [OF assms(1,2)]
  by (auto simp: arena_inv_def arena_top_def arena_limit_def split: if_splits)

interpretation arena: upward_allocator arena_allocate arena_inv sane_request arena_top arena_limit
proof
  show "arena_top a \<le> arena_limit a" if "arena_inv a" for a
    using that by (simp add: arena_inv_def arena_top_def arena_limit_def)
next
  fix a n al p a'
  assume "arena_inv a" "sane_request a n al" "arena_allocate a n al = Inr (p, a')"
  note a = arena_allocate_InrD [OF this]
  show "arena_inv a'" by (rule a(1))
  show "arena_limit a' = arena_limit a \<and> (\<forall>n al. sane_request a' n al = sane_request a n al)"
    using a(6,7) by (simp add: arena_limit_def sane_request_def)
  show "unat al dvd unat p \<and> arena_top a \<le> unat p \<and> unat p + unat n = arena_top a'"
    using a by simp
qed

section \<open>Objects between two resets\<close>

text \<open>
  What a user of the arena does: create objects, allocate raw memory, reset. Beside the arena
  runs the list of the blocks handed out since the last reset, newest first: address, size,
  alignment and, for an object, its bytes. A request that throws changes nothing.
\<close>

datatype arena_op = Create "u8 list" size_t | Allocate size_t size_t | Reset

type_synonym block = "u64 \<times> nat \<times> size_t \<times> u8 list option"

fun arena_step :: "arena_op \<Rightarrow> arena \<times> block list \<Rightarrow> arena \<times> block list" where
  "arena_step (Create obj al) (a, live) =
     (case arena_create a obj al of Inl e \<Rightarrow> (a, live)
      | Inr (p, a') \<Rightarrow> (a', (p, length obj, al, Some obj) # live))"
| "arena_step (Allocate n al) (a, live) =
     (case arena_allocate a n al of Inl e \<Rightarrow> (a, live)
      | Inr (p, a') \<Rightarrow> (a', (p, unat n, al, None) # live))"
| "arena_step Reset (a, live) = (arena_reset a, [])"

fun arena_steps :: "arena_op list \<Rightarrow> arena \<times> block list \<Rightarrow> arena \<times> block list" where
  "arena_steps [] s = s"
| "arena_steps (op # ops) s = arena_steps ops (arena_step op s)"

fun sane_op :: "arena \<Rightarrow> arena_op \<Rightarrow> bool" where
  "sane_op a (Create obj al) \<longleftrightarrow> length obj < 2 ^ 64 \<and> sane_request a (size_of_list obj) al"
| "sane_op a (Allocate n al) \<longleftrightarrow> sane_request a n al"
| "sane_op a Reset \<longleftrightarrow> True"

fun block_ok :: "arena \<Rightarrow> block \<Rightarrow> bool" where
  "block_ok a (p, n, al, content) \<longleftrightarrow> unat al dvd unat p
     \<and> unat (a_data a) \<le> unat p \<and> unat p + n \<le> arena_top a
     \<and> (\<forall>bs. content = Some bs \<longrightarrow>
          mem_read (a_storage a) (unat p - unat (a_data a)) (length bs) = Inr bs \<and> n = length bs)"

fun above :: "block \<Rightarrow> block \<Rightarrow> bool" where
  "above (p, n, _) (p', n', _) \<longleftrightarrow> unat p' + n' \<le> unat p"

definition life_inv :: "arena \<times> block list \<Rightarrow> bool" where
  "life_inv s \<longleftrightarrow> arena_inv (fst s) \<and> (\<forall>b \<in> set (snd s). block_ok (fst s) b)
     \<and> sorted_wrt above (snd s)"

lemma arena_create_InrD:
  assumes inv: "arena_inv a" and req: "sane_request a (size_of_list obj) al"
    and len: "length obj < 2 ^ 64" and c: "arena_create a obj al = Inr (p, a')"
  obtains st a1 where "arena_allocate a (size_of_list obj) al = Inr (p, a1)"
    and "mem_write (a_storage a) (unat p - unat (a_data a)) obj = Inr st"
    and "a' = a1\<lparr>a_storage := st\<rparr>"
proof -
  obtain a1 st where a1: "arena_allocate a (size_of_list obj) al = Inr (p, a1)"
    and st: "mem_write (a_storage a1) (unat (p - a_data a1)) obj = Inr st" "a' = a1\<lparr>a_storage := st\<rparr>"
    using c by (auto simp: arena_create_def res_bind_Inr_iff)
  note a = arena_allocate_InrD [OF inv req a1]
  have "unat (p - a_data a) = unat p - unat (a_data a)"
    using a(3) by (simp add: unat_sub word_le_nat_alt arena_top_def)
  with a1 st a show thesis by (intro that) auto
qed

lemma arena_create_total:
  assumes inv: "arena_inv a" and req: "sane_request a (size_of_list obj) al"
    and len: "length obj < 2 ^ 64" and a1: "arena_allocate a (size_of_list obj) al = Inr (p, a1)"
  shows "\<exists>a'. arena_create a obj al = Inr (p, a')"
proof -
  note a = arena_allocate_InrD [OF inv req a1]
  have "unat (p - a_data a1) = unat p - unat (a_data a)"
    using a by (simp add: unat_sub word_le_nat_alt arena_top_def)
  then have "unat (p - a_data a1) + length obj \<le> length (a_storage a1)"
    using a len by (simp add: arena_top_def arena_limit_def)
  then show ?thesis using a1 by (simp add: arena_create_def mem_write_def)
qed

text \<open>A new block above the old ones keeps the invariant.\<close>

lemma life_inv_push:
  assumes s: "life_inv (a, live)" and inv': "arena_inv a'" and data: "a_data a' = a_data a"
    and b: "block_ok a' (p, n, al, c)" and top: "arena_top a \<le> unat p" "arena_top a \<le> arena_top a'"
    and keep: "\<And>q k. q + k \<le> unat p - unat (a_data a) \<Longrightarrow>
      mem_read (a_storage a') q k = mem_read (a_storage a) q k"
  shows "life_inv (a', (p, n, al, c) # live)"
proof -
  have "block_ok a' b' \<and> above (p, n, al, c) b'" if "b' \<in> set live" for b'
  proof -
    obtain p' n' al' c' where b': "b' = (p', n', al', c')" by (cases b')
    with s that have "block_ok a (p', n', al', c')" by (auto simp: life_inv_def)
    with top show ?thesis
      unfolding b' by (auto simp: data keep)
  qed
  with s inv' b show ?thesis by (auto simp: life_inv_def)
qed

lemma life_inv_create:
  assumes s: "life_inv (a, live)" and req: "sane_request a (size_of_list obj) al" "length obj < 2 ^ 64"
    and c: "arena_create a obj al = Inr (p, a')"
  shows "life_inv (a', (p, length obj, al, Some obj) # live) \<and> a_data a' = a_data a
    \<and> length (a_storage a') = length (a_storage a)"
proof -
  have inv: "arena_inv a" using s by (simp add: life_inv_def)
  from arena_create_InrD [OF inv req c] obtain stg a1
    where a1: "arena_allocate a (size_of_list obj) al = Inr (p, a1)"
      and w: "mem_write (a_storage a) (unat p - unat (a_data a)) obj = Inr stg"
      and a': "a' = a1\<lparr>a_storage := stg\<rparr>" .
  note al = arena_allocate_InrD [OF inv req(1) a1]
  have len: "length stg = length (a_storage a)" using w by (rule mem_write_length)
  have top: "arena_top a' = arena_top a1" by (simp add: a' arena_top_def)
  have "life_inv (a', (p, length obj, al, Some obj) # live)"
  proof (rule life_inv_push [OF s])
    show "arena_inv a'" using al(1,7) len by (simp add: a' arena_inv_def)
    show "block_ok a' (p, length obj, al, Some obj)"
      using al top read_after_write [OF w] req(2) by (simp add: a' arena_top_def)
    show "mem_read (a_storage a') q k = mem_read (a_storage a) q k"
      if "q + k \<le> unat p - unat (a_data a)" for q k
      using that read_other [OF w, of q k] by (simp add: a')
    show "arena_top a \<le> unat p" "arena_top a \<le> arena_top a'" "a_data a' = a_data a"
      using al top by (simp_all add: a')
  qed
  then show ?thesis using al(6) len by (simp add: a')
qed

lemma life_inv_allocate:
  assumes s: "life_inv (a, live)" and req: "sane_request a n al" and c: "arena_allocate a n al = Inr (p, a')"
  shows "life_inv (a', (p, unat n, al, None) # live) \<and> a_data a' = a_data a
    \<and> length (a_storage a') = length (a_storage a)"
proof -
  have "arena_inv a" using s by (simp add: life_inv_def)
  note al = arena_allocate_InrD [OF this req c]
  have "life_inv (a', (p, unat n, al, None) # live)"
    by (rule life_inv_push [OF s al(1,6)]) (use al in \<open>auto simp: arena_top_def\<close>)
  then show ?thesis using al(6,7) by simp
qed

lemma life_inv_step:
  assumes s: "life_inv (a, live)" and op: "sane_op a op" and st: "arena_step op (a, live) = (a', live')"
  shows "life_inv (a', live') \<and> a_data a' = a_data a \<and> length (a_storage a') = length (a_storage a)"
proof (cases op)
  case (Create obj al)
  with s op st show ?thesis using life_inv_create [OF s, of obj al]
    by (auto split: sum.splits prod.splits)
next
  case (Allocate n al)
  with s op st show ?thesis using life_inv_allocate [OF s, of n al]
    by (auto split: sum.splits prod.splits)
next
  case Reset
  with s st show ?thesis by (auto simp: life_inv_def arena_reset_def arena_inv_def)
qed

lemma sane_op_cong:
  "a_data a' = a_data a \<Longrightarrow> length (a_storage a') = length (a_storage a) \<Longrightarrow> sane_op a' op = sane_op a op"
  by (cases op) (simp_all add: sane_request_def)

lemma life_inv_steps:
  assumes "life_inv s" and "\<forall>op \<in> set ops. sane_op (fst s) op"
  shows "life_inv (arena_steps ops s) \<and> a_data (fst (arena_steps ops s)) = a_data (fst s)
    \<and> length (a_storage (fst (arena_steps ops s))) = length (a_storage (fst s))"
  using assms
proof (induction ops arbitrary: s)
  case (Cons op ops)
  obtain a live a' live' where s: "s = (a, live)" and st: "arena_step op (a, live) = (a', live')"
    by (metis surj_pair)
  have step: "life_inv (a', live')" "a_data a' = a_data a" "length (a_storage a') = length (a_storage a)"
    using life_inv_step [OF _ _ st] Cons.prems s by auto
  moreover have "\<forall>op \<in> set ops. sane_op (fst (a', live')) op"
    using Cons.prems(2) s sane_op_cong [OF step(2,3)] by auto
  ultimately show ?case using Cons.IH [of "(a', live')"] by (simp add: s st)
qed simp

section \<open>Properties\<close>

text \<open>The used part and the remaining span make up the storage.\<close>

lemma arena_accounting:
  assumes "arena_inv a"
  shows "unat (arena_used a) + unat (snd (arena_remaining a)) = length (a_storage a)"
    and "unat (fst (arena_remaining a)) = arena_top a"
  using assms
  by (simp_all add: arena_remaining_def arena_capacity_def arena_used_def unat_sub
      word_le_nat_alt arena_inv_def arena_top_def unat_add_no_wrap)

text \<open>
  The outcome of a request of any size, as numbers: only rounding the address up must not leave
  the address space.
\<close>

lemma arena_allocate_mod:
  assumes inv: "arena_inv a" and al: "pow2_size (unat al)"
    and high: "unat (a_data a) + length (a_storage a) + unat al \<le> 2 ^ 64"
  defines "p \<equiv> align_up (a_data a + a_offset a) al"
  shows "arena_allocate a n al =
      (if length (a_storage a) < (unat p - unat (a_data a) + unat n) mod 2 ^ 64 then Inl Bad_Alloc
       else Inr (p, a\<lparr>a_offset := p + n - a_data a\<rparr>))"
    and "unat (p + n - a_data a) = (unat p - unat (a_data a) + unat n) mod 2 ^ 64"
    and "unat al dvd unat p" and "arena_top a \<le> unat p" and "unat p < arena_top a + unat al"
    and "unat p - unat (a_data a) < 2 ^ 64"
proof -
  let ?base = "a_data a + a_offset a"
  have base: "unat ?base = arena_top a"
    using inv by (simp add: arena_inv_def arena_top_def unat_add_no_wrap)
  have "unat ?base + unat al \<le> 2 ^ 64"
    using inv high by (auto simp: base arena_inv_def arena_top_def)
  note p = align_up [OF al this, folded p_def]
  then show "unat al dvd unat p" "arena_top a \<le> unat p" "unat p < arena_top a + unat al"
    by (simp_all add: base)
  show "unat p - unat (a_data a) < 2 ^ 64" using unat_less_2p64 [of p] by linarith
  have off: "a_offset a + (p - ?base) + n = p + n - a_data a"
    and off': "a_offset a + ((p - ?base) + n) = p + n - a_data a" by (simp_all add: algebra_simps)
  have "p + n - a_data a = (p - a_data a) + n" by (simp add: algebra_simps)
  moreover have "unat (p - a_data a) = unat p - unat (a_data a)"
    using p(2) base by (simp add: unat_sub word_le_nat_alt arena_top_def)
  moreover have "unat ((p - a_data a) + n) = (unat (p - a_data a) + unat n) mod 2 ^ 64"
    by (simp add: unat_word_ariths)
  ultimately show sum: "unat (p + n - a_data a) = (unat p - unat (a_data a) + unat n) mod 2 ^ 64"
    by (simp only:)
  have "unat (arena_capacity a) = length (a_storage a)"
    using inv by (simp add: arena_capacity_def arena_inv_def)
  then have "arena_capacity a < p + n - a_data a
      \<longleftrightarrow> length (a_storage a) < (unat p - unat (a_data a) + unat n) mod 2 ^ 64"
    by (simp only: word_less_nat_alt sum)
  then show "arena_allocate a n al =
      (if length (a_storage a) < (unat p - unat (a_data a) + unat n) mod 2 ^ 64 then Inl Bad_Alloc
       else Inr (p, a\<lparr>a_offset := p + n - a_data a\<rparr>))"
    unfolding arena_allocate_def Let_def p_def [symmetric] off off' by simp
qed

lemma least_multiple:
  assumes "(A :: nat) dvd p" and "p < t + A" and "A dvd q" and "t \<le> q"
  shows "p \<le> q"
proof (rule ccontr)
  assume n: "\<not> p \<le> q"
  then have "A dvd p - q" "0 < p - q" using assms(1,3) by simp_all
  then have "A \<le> p - q" by (rule dvd_imp_le)
  with assms(2,4) n show False by linarith
qed

text \<open>
  C13: \<open>allocate\<close> for every size, and every alignment that is a power of two and with which the end of
  the storage can be rounded up inside the address space. Let \<open>p\<close> be the lowest aligned address
  behind the used part and \<open>used\<close> the distance from the start of the storage to the end of a block
  at \<open>p\<close>. The request throws \<open>bad_alloc\<close> when \<open>used\<close> modulo 2^64 exceeds the storage; otherwise it
  returns \<open>p\<close> and the used part is \<open>used\<close> modulo 2^64 long. So as long as \<open>used\<close> stays below 2^64, it
  throws exactly when no such block fits anywhere behind the used part, and else the used part
  ends with the block and \<open>remaining()\<close> is what is left of the storage; a larger size wraps around,
  and is accepted with whatever the wrapped value says.
\<close>

theorem arena_allocate_exact:
  assumes inv: "arena_inv a" and al: "pow2_size (unat al)"
    and high: "unat (a_data a) + length (a_storage a) + unat al \<le> 2 ^ 64"
  shows "\<exists>p used. unat al dvd unat p \<and> arena_top a \<le> unat p
    \<and> (\<forall>q. unat al dvd q \<and> arena_top a \<le> q \<longrightarrow> unat p \<le> q)
    \<and> used = unat p - unat (a_data a) + unat n
    \<and> arena_allocate a n al =
        (if length (a_storage a) < used mod 2 ^ 64 then Inl Bad_Alloc
         else Inr (p, a\<lparr>a_offset := word_of_nat (used mod 2 ^ 64)\<rparr>))
    \<and> (used < 2 ^ 64 \<longrightarrow>
        (arena_allocate a n al = Inl Bad_Alloc \<longleftrightarrow>
          \<not> (\<exists>q. unat al dvd q \<and> arena_top a \<le> q \<and> q + unat n \<le> arena_limit a))
        \<and> (\<forall>p' a'. arena_allocate a n al = Inr (p', a') \<longrightarrow>
             arena_inv a' \<and> arena_top a' = unat p + unat n \<and> arena_top a' \<le> arena_limit a
             \<and> unat (arena_used a') + unat (snd (arena_remaining a')) = length (a_storage a)
             \<and> unat (fst (arena_remaining a')) = arena_top a'))"
proof -
  define p where "p = align_up (a_data a + a_offset a) al"
  define used where "used = unat p - unat (a_data a) + unat n"
  note m = arena_allocate_mod [OF inv al high, folded p_def]
  note eq = m(1) [of n, folded used_def] and off = m(2) [of n, folded used_def]
  have least: "unat p \<le> q" if "unat al dvd q" "arena_top a \<le> q" for q
    using least_multiple [OF m(3,5) that] .
  have data: "unat (a_data a) \<le> unat p" using m(4) by (simp add: arena_top_def)
  have "word_of_nat (unat (p + n - a_data a)) = p + n - a_data a" by simp
  then have "word_of_nat (used mod 2 ^ 64) = p + n - a_data a" unfolding off .
  then have eq': "arena_allocate a n al =
      (if length (a_storage a) < used mod 2 ^ 64 then Inl Bad_Alloc
       else Inr (p, a\<lparr>a_offset := word_of_nat (used mod 2 ^ 64)\<rparr>))" using eq by simp
  have fits: "length (a_storage a) < used \<longleftrightarrow> arena_limit a < unat p + unat n"
    using data by (auto simp: used_def arena_limit_def)
  have refused: "arena_allocate a n al = Inl Bad_Alloc \<longleftrightarrow>
      \<not> (\<exists>q. unat al dvd q \<and> arena_top a \<le> q \<and> q + unat n \<le> arena_limit a)" if "used < 2 ^ 64"
  proof -
    have "arena_allocate a n al = Inl Bad_Alloc \<longleftrightarrow> arena_limit a < unat p + unat n"
      using that fits by (simp add: eq)
    with least m(3,4) show ?thesis by (meson add_le_mono1 le_trans not_le)
  qed
  have given: "arena_inv a' \<and> arena_top a' = unat p + unat n \<and> arena_top a' \<le> arena_limit a
      \<and> unat (arena_used a') + unat (snd (arena_remaining a')) = length (a_storage a)
      \<and> unat (fst (arena_remaining a')) = arena_top a'"
    if "used < 2 ^ 64" and r: "arena_allocate a n al = Inr (p', a')" for p' a'
  proof -
    have "\<not> length (a_storage a) < used" and a': "a' = a\<lparr>a_offset := p + n - a_data a\<rparr>"
      using r that(1) by (auto simp: eq split: if_splits)
    then have "unat (a_offset a') = used" "used \<le> length (a_storage a)" using off that(1) by simp_all
    then have i: "arena_inv a'" and top: "arena_top a' = unat p + unat n"
      using inv data by (simp_all add: a' arena_inv_def arena_top_def used_def)
    moreover have "arena_top a' \<le> arena_limit a" using top fits \<open>used \<le> length (a_storage a)\<close> by simp
    ultimately show ?thesis using arena_accounting [OF i] by (simp add: a')
  qed
  show ?thesis
    by (rule exI [of _ p], rule exI [of _ used])
      (intro conjI allI impI m(3,4) used_def eq' refused; use least given in blast)
qed

theorem arena_allocate_exact_witness:
  "arena_allocate (arena_new 4097 64) 65 1 = Inl Bad_Alloc
   \<and> \<not> (\<exists>q. 4097 \<le> q \<and> q + 65 \<le> (4097 + 64 :: nat))
   \<and> arena_allocate (arena_new 4097 64) (- 16) 1 = Inl Bad_Alloc"
proof -
  let ?a = "arena_new 4097 64"
  have pre: "arena_inv ?a" "pow2_size (unat (1 :: size_t))"
    "unat (a_data ?a) + length (a_storage ?a) + unat (1 :: size_t) \<le> 2 ^ 64"
    by (simp_all add: arena_inv_def arena_new_def pow2_size_def exI [of _ 0])
  have top: "arena_top ?a = 4097" "arena_limit ?a = 4161" "length (a_storage ?a) = 64" "a_data ?a = 4097"
    by (simp_all add: arena_top_def arena_limit_def arena_new_def)
  have refused: "arena_allocate ?a n 1 = Inl Bad_Alloc" if "64 < unat n" for n
  proof -
    from arena_allocate_exact [OF pre, of n, unfolded top] obtain p used where
      p: "4097 \<le> unat p" "\<forall>q. unat (1 :: size_t) dvd q \<and> 4097 \<le> q \<longrightarrow> unat p \<le> q"
      and used: "used = unat p - unat (4097 :: u64) + unat n"
      and r: "arena_allocate ?a n 1 = (if 64 < used mod 2 ^ 64 then Inl Bad_Alloc
         else Inr (p, ?a\<lparr>a_offset := word_of_nat (used mod 2 ^ 64)\<rparr>))"
      by (elim exE conjE) (rule that)
    have "unat p = 4097" using p(1) p(2) [rule_format, of 4097] by simp
    then have "used mod 2 ^ 64 = unat n" using used unat_less_2p64 [of n] by simp
    then show ?thesis using that r by simp
  qed
  have "unat (65 :: size_t) = 65" "unat (- 16 :: size_t) = 2 ^ 64 - 16" by simp_all
  then show ?thesis using refused [of 65] refused [of "- 16"] by simp
qed

text \<open>
  A sequence of allocations from a fresh arena, some of which may throw, hands out blocks
  that lie inside the storage, one behind the other, so no two of them overlap.
\<close>

theorem arena_blocks_disjoint:
  assumes "unat data + bytes < 2 ^ 64"
    and "\<forall>(n, al) \<in> set rs. sane_request (arena_new data bytes) n al"
    and "alloc_run arena_allocate (arena_new data bytes) rs = (bs, a)"
  shows "(\<forall>(p, n) \<in> set bs. unat data \<le> unat p \<and> unat p + unat n \<le> unat data + bytes)
       \<and> (\<forall>i j. i < j \<and> j < length bs \<longrightarrow>
            unat (fst (bs ! i)) + unat (snd (bs ! i)) \<le> unat (fst (bs ! j)))"
proof -
  let ?a = "arena_new data bytes"
  have inv: "arena_inv ?a" using assms(1) by (simp add: arena_inv_def arena_new_def)
  have "top' \<le> arena_limit ?a" if "top' \<le> arena_top a" for top'
    using that arena.run_blocks [OF inv assms(2,3)] arena.top_limit [of a] by auto
  moreover have "arena_top ?a = unat data" "arena_limit ?a = unat data + bytes"
    by (simp_all add: arena_top_def arena_limit_def arena_new_def)
  ultimately show ?thesis
    using arena.run_blocks [OF inv assms(2,3)] arena.run_disjoint [OF inv assms(2,3)]
    by fastforce
qed

theorem arena_blocks_disjoint_witness:
  "\<exists>a. alloc_run arena_allocate (arena_new 4096 64) [(3, 1), (8, 8), (99, 1)] = ([(4096, 3), (4104, 8)], a)
    \<and> unat (4096 :: u64) + unat (3 :: u64) \<le> unat (4104 :: u64)"
proof -
  obtain bs a where r: "alloc_run arena_allocate (arena_new 4096 64) [(3, 1), (8, 8), (99, 1)] = (bs, a)"
    by (cases "alloc_run arena_allocate (arena_new 4096 64) [(3, 1), (8, 8), (99, 1)]")
  have "fst (alloc_run arena_allocate (arena_new 4096 64) [(3, 1), (8, 8), (99, 1)]) = [(4096, 3), (4104, 8)]"
    by code_simp
  with r have bs: "bs = [(4096, 3), (4104, 8)]" by simp
  have "pow2_size 1" "pow2_size 8"
    using exI [of "\<lambda>k. k < 64 \<and> (1 :: nat) = 2 ^ k" 0] exI [of "\<lambda>k. k < 64 \<and> (8 :: nat) = 2 ^ k" 3]
    by (simp_all add: pow2_size_def)
  then have "\<forall>(n, al) \<in> set [(3, 1), (8, 8), (99, 1)]. sane_request (arena_new 4096 64) n al"
    by (simp add: sane_request_def arena_new_def)
  from arena_blocks_disjoint [OF _ this r] have "unat (fst (bs ! 0)) + unat (snd (bs ! 0)) \<le> unat (fst (bs ! 1))"
    by (simp add: bs)
  with r bs show ?thesis by simp
qed

text \<open>
  C12: In every sequence of \<open>create\<close>, \<open>allocate\<close> and \<open>reset\<close> on a fresh arena whose storage lies in the
  address space, as long as every alignment is a power of two and the arithmetic of no request
  leaves 64 bits (\<open>sane_op\<close>: neither rounding up the end of the storage nor adding alignment and
  size to its length), every object created since the last reset still has the bytes it was created
  with, lies at an aligned address inside the used part, and overlaps no other block handed out
  since then.
\<close>

theorem arena_objects_intact:
  assumes "unat data + bytes < 2 ^ 64" and "\<forall>op \<in> set ops. sane_op (arena_new data bytes) op"
    and "arena_steps ops (arena_new data bytes, []) = (a, live)"
  shows "(\<forall>(p, n, al, content) \<in> set live. unat al dvd unat p
            \<and> unat data \<le> unat p \<and> unat p + n \<le> unat data + unat (arena_used a)
            \<and> (\<forall>obj. content = Some obj \<longrightarrow>
                 mem_read (a_storage a) (unat p - unat data) (length obj) = Inr obj))
       \<and> sorted_wrt (\<lambda>(p, n, _) (p', n', _). unat p' + n' \<le> unat p) live
       \<and> unat (arena_used a) \<le> bytes"
proof -
  have "life_inv (arena_new data bytes, [])"
    using assms(1) by (simp add: life_inv_def arena_inv_def arena_new_def)
  from life_inv_steps [OF this, of ops] assms(2,3)
  have inv: "life_inv (a, live)" and "a_data a = a_data (arena_new data bytes)"
    and "length (a_storage a) = length (a_storage (arena_new data bytes))"
    by simp_all
  then have "a_data a = data" "length (a_storage a) = bytes" by (simp_all add: arena_new_def)
  have "above = (\<lambda>(p, n, _) (p', n', _). unat p' + n' \<le> unat p)"
    by (intro ext) auto
  with inv \<open>a_data a = data\<close> \<open>length (a_storage a) = bytes\<close> show ?thesis
    by (fastforce simp: life_inv_def arena_inv_def arena_used_def arena_top_def)
qed

theorem arena_objects_intact_witness:
  "mem_read (a_storage (fst (arena_steps [Create [1, 2, 3] 4, Allocate 1 1, Create [9] 1]
      (arena_new 4096 8, [])))) 0 3 = Inr [1, 2, 3]"
proof -
  let ?ops = "[Create [1, 2, 3] 4, Allocate 1 1, Create [9] 1]"
  obtain a live where r: "arena_steps ?ops (arena_new 4096 8, []) = (a, live)"
    by (cases "arena_steps ?ops (arena_new 4096 8, [])")
  have "snd (arena_steps ?ops (arena_new 4096 8, []))
      = [(4100, 1, 1, Some [9]), (4099, 1, 1, None), (4096, 3, 4, Some [1, 2, 3])]" by code_simp
  with r have live: "(4096, 3, 4, Some [1, 2, 3]) \<in> set live" by simp
  have "pow2_size 1" "pow2_size 4"
    using exI [of "\<lambda>k. k < 64 \<and> (1 :: nat) = 2 ^ k" 0] exI [of "\<lambda>k. k < 64 \<and> (4 :: nat) = 2 ^ k" 2]
    by (simp_all add: pow2_size_def)
  then have "\<forall>op \<in> set ?ops. sane_op (arena_new 4096 8) op"
    by (simp add: sane_request_def arena_new_def)
  from conjunct1 [OF arena_objects_intact [OF _ this r], rule_format, OF _ live]
  have "mem_read (a_storage a) 0 (length [1 :: u8, 2, 3]) = Inr [1, 2, 3]" by simp
  then show ?thesis unfolding r by (simp add: numeral_3_eq_3)
qed

text \<open>
  Outside those bounds the check is void: a request for 2^64 - k bytes, where k bytes are in
  use, wraps around and succeeds, and gives back the last k bytes in use; the next allocation
  of k bytes overlaps the blocks that were handed out there.
\<close>

theorem arena_allocate_wraps:
  assumes inv: "arena_inv a" and k: "0 < k" "k \<le> a_offset a"
  shows "arena_allocate a (- k) 1 = Inr (a_data a + a_offset a, a\<lparr>a_offset := a_offset a - k\<rparr>)
       \<and> arena_allocate (a\<lparr>a_offset := a_offset a - k\<rparr>) k 1 = Inr (a_data a + a_offset a - k, a)"
proof -
  have up: "align_up b 1 = b" for b by (simp add: align_up_def)
  have "unat (a_offset a - k) \<le> unat (a_offset a)"
    using k(2) by (simp add: unat_sub word_le_nat_alt)
  then have "\<not> a_offset a - k > arena_capacity a" "\<not> a_offset a > arena_capacity a"
    using inv by (auto simp: arena_inv_def arena_capacity_def word_less_nat_alt)
  then show ?thesis
    by (simp add: arena_allocate_def up arena_capacity_def algebra_simps)
qed

theorem arena_allocate_wraps_witness:
  "arena_allocate \<lparr>a_data = 4096, a_storage = replicate 64 0, a_offset = 16\<rparr> (- 16) 1
     = Inr (4112, \<lparr>a_data = 4096, a_storage = replicate 64 0, a_offset = 0\<rparr>)"
  using arena_allocate_wraps [of "\<lparr>a_data = 4096, a_storage = replicate 64 0, a_offset = 16\<rparr>" 16]
  by (simp add: arena_inv_def)

end
