(* ===== verification/ExternalCalls.thy ===== *)
theory ExternalCalls
  imports Prelude
begin

text \<open>
  Wrappers around libraries the repository only calls. The library is an environment: it answers
  each call as it likes, knowing all calls before. A wrapper is a function of its own members and
  the trace of the calls made so far, which it extends. What a wrapper owes to its library is a
  protocol, an automaton over the calls, and the locale \<open>protocol_client\<close> is the discipline that
  makes every use of the wrapper obey it.
\<close>

section \<open>Protocols\<close>

text \<open>The automaton reads calls; \<open>None\<close> is a call the protocol forbids.\<close>

fun follow :: "('p \<Rightarrow> 'e \<Rightarrow> 'p option) \<Rightarrow> 'p \<Rightarrow> 'e list \<Rightarrow> 'p option" where
  "follow delta p [] = Some p"
| "follow delta p (e # es) = (case delta p e of None \<Rightarrow> None | Some p' \<Rightarrow> follow delta p' es)"

lemma follow_append:
  "follow delta p (es @ fs) = (case follow delta p es of None \<Rightarrow> None | Some q \<Rightarrow> follow delta q fs)"
  by (induction es arbitrary: p) (simp_all split: option.split)

text \<open>
  Operations on a state \<open>'h\<close>, the members of an object or what a caller holds: \<open>call\<close> runs one.
  \<open>rests h p\<close> says that \<open>p\<close> is a phase the protocol can be in between two operations.
\<close>

fun run_ops :: "('op \<Rightarrow> 'h \<times> 'e list \<Rightarrow> 'h \<times> 'e list) \<Rightarrow> 'op list \<Rightarrow> 'h \<times> 'e list \<Rightarrow> 'h \<times> 'e list" where
  "run_ops call [] s = s"
| "run_ops call (x # xs) s = run_ops call xs (call x s)"

locale protocol_client =
  fixes delta :: "'p \<Rightarrow> 'e \<Rightarrow> 'p option"
    and call :: "'op \<Rightarrow> 'h \<times> 'e list \<Rightarrow> 'h \<times> 'e list"
    and rests :: "'h \<Rightarrow> 'p \<Rightarrow> bool"
  assumes call_obeys: "call x (h, tr) = (h', tr') \<Longrightarrow> rests h p \<Longrightarrow>
      \<exists>es p'. tr' = tr @ es \<and> follow delta p es = Some p' \<and> rests h' p'"
begin

lemma run_obeys:
  "run_ops call xs (h, tr) = (h', tr') \<Longrightarrow> rests h p \<Longrightarrow>
    \<exists>es p'. tr' = tr @ es \<and> follow delta p es = Some p' \<and> rests h' p'"
proof (induction xs arbitrary: h tr p)
  case (Cons x xs)
  obtain h1 tr1 where c: "call x (h, tr) = (h1, tr1)" by fastforce
  obtain es p1 where es: "tr1 = tr @ es" "follow delta p es = Some p1" "rests h1 p1"
    using call_obeys [OF c Cons.prems(2)] by blast
  have "run_ops call xs (h1, tr1) = (h', tr')" using Cons.prems(1) c by simp
  from Cons.IH [OF this es(3)] obtain fs p' where
    "tr' = tr1 @ fs" "follow delta p1 fs = Some p'" "rests h' p'" by blast
  with es have "tr' = tr @ (es @ fs)" "follow delta p (es @ fs) = Some p'" "rests h' p'"
    by (simp_all add: follow_append)
  then show ?case by blast
qed simp

end

text \<open>An object that holds a resource also has a destructor, which gives everything back.\<close>

locale protocol_owner = protocol_client +
  fixes destroy :: "'h \<times> 'e list \<Rightarrow> 'h \<times> 'e list"
    and idle :: 'p
  assumes destroy_obeys: "destroy (h, tr) = (h', tr') \<Longrightarrow> rests h p \<Longrightarrow>
      \<exists>es. tr' = tr @ es \<and> follow delta p es = Some idle"
begin

text \<open>The life of an object, from its construction to its destruction.\<close>

lemma life_obeys:
  assumes "rests h p" and "follow delta idle tr = Some p"
  shows "follow delta idle (snd (destroy (run_ops call xs (h, tr)))) = Some idle"
proof -
  obtain h1 tr1 where r: "run_ops call xs (h, tr) = (h1, tr1)" by fastforce
  obtain h2 tr2 where d: "destroy (h1, tr1) = (h2, tr2)" by fastforce
  obtain es p1 where es: "tr1 = tr @ es" "follow delta p es = Some p1" "rests h1 p1"
    using run_obeys [OF r assms(1)] by blast
  obtain fs where "tr2 = tr1 @ fs" "follow delta p1 fs = Some idle"
    using destroy_obeys [OF d es(3)] by blast
  with es(1,2) assms(2) show ?thesis unfolding r d by (simp add: follow_append)
qed

end

end
