(* ===== verification/PmrArena.thy ===== *)
theory PmrArena
  imports Arena ExternalCalls
begin

text \<open>
  \<open>ll::PmrMonotonicArena\<close> and \<open>ll::PmrUnsyncPool\<close> of \<open>include/ll/pmr_arena.hpp\<close>. The standard
  library's \<open>monotonic_buffer_resource\<close> and \<open>unsynchronized_pool_resource\<close> are environments that
  answer the calls; what the standard promises of the first is a named hypothesis.
\<close>

section \<open>The monotonic arena\<close>

text \<open>
  The calls on \<open>resource_\<close>: a request of some bytes with an alignment, answered by an address or, as
  the null resource is behind the buffer, by \<open>bad_alloc\<close> (\<open>None\<close>); and \<open>release\<close>. A resource is the
  function from the calls made so far to its answer for the next request.
\<close>

datatype mr_call = Mr_Allocate size_t size_t "u64 option" | Mr_Release

type_synonym resource = "mr_call list \<Rightarrow> size_t \<Rightarrow> size_t \<Rightarrow> u64 option"

text \<open>\<open>pm_data\<close> is the address of \<open>buffer_\<close>, given by its allocator.\<close>

record pmr_arena =
  pm_data :: u64
  pm_buffer :: "u8 list"
  pm_calls :: "mr_call list"

definition pmr_new :: "u64 \<Rightarrow> nat \<Rightarrow> pmr_arena" where
  "pmr_new data bytes = \<lparr>pm_data = data, pm_buffer = replicate bytes 0, pm_calls = []\<rparr>"

text \<open>\<open>resource_.allocate(n, al)\<close>, also from outside through \<open>resource()\<close>.\<close>

definition pmr_allocate :: "resource \<Rightarrow> pmr_arena \<Rightarrow> size_t \<Rightarrow> size_t \<Rightarrow> u64 res \<times> pmr_arena" where
  "pmr_allocate mr a n al =
     (let answer = mr (pm_calls a) n al;
          a = a\<lparr>pm_calls := pm_calls a @ [Mr_Allocate n al answer]\<rparr>
      in case answer of None \<Rightarrow> (Inl Bad_Alloc, a) | Some p \<Rightarrow> (Inr p, a))"

text \<open>\<open>create<T>(args...)\<close>, where \<open>obj\<close> are the bytes of \<open>T(args...)\<close> and \<open>al\<close> is \<open>alignof(T)\<close>.\<close>

definition pmr_create :: "resource \<Rightarrow> pmr_arena \<Rightarrow> u8 list \<Rightarrow> size_t \<Rightarrow> u64 res \<times> pmr_arena" where
  "pmr_create mr a obj al =
     (case pmr_allocate mr a (size_of_list obj) al of
        (Inl e, a) \<Rightarrow> (Inl e, a)
      | (Inr mem, a) \<Rightarrow>
          (case mem_write (pm_buffer a) (unat (mem - pm_data a)) obj of
             Inl e \<Rightarrow> (Inl e, a)
           | Inr b \<Rightarrow> (Inr mem, a\<lparr>pm_buffer := b\<rparr>)))"

text \<open>A caller that lets the exception pass.\<close>

fun uncaught :: "u64 res \<times> pmr_arena \<Rightarrow> (u64 \<times> pmr_arena) res" where
  "uncaught (r, a) = res_bind r (\<lambda>p. Inr (p, a))"

text \<open>\<open>destroy\<close> runs the destructor \<open>dtor\<close> on the object, unless the pointer is null.\<close>

definition pmr_destroy :: "(u64 \<Rightarrow> 'w \<Rightarrow> 'w) \<Rightarrow> u64 \<Rightarrow> 'w \<Rightarrow> 'w" where
  "pmr_destroy dtor p w = (if p \<noteq> 0 then dtor p w else w)"

definition pmr_release :: "pmr_arena \<Rightarrow> pmr_arena" where
  "pmr_release a = a\<lparr>pm_calls := pm_calls a @ [Mr_Release]\<rparr>"

definition pmr_capacity :: "pmr_arena \<Rightarrow> size_t" where
  "pmr_capacity a = size_of_list (pm_buffer a)"

section \<open>What the standard promises of the resource\<close>

text \<open>The blocks handed out since the last release, newest first: address, size and alignment.\<close>

fun note_block :: "mr_call \<Rightarrow> (u64 \<times> size_t \<times> size_t) list \<Rightarrow> (u64 \<times> size_t \<times> size_t) list" where
  "note_block (Mr_Allocate n al None) bs = bs"
| "note_block (Mr_Allocate n al (Some p)) bs = (p, n, al) # bs"
| "note_block Mr_Release bs = []"

definition blocks_out :: "mr_call list \<Rightarrow> (u64 \<times> size_t \<times> size_t) list" where
  "blocks_out tr = fold note_block tr []"

lemma blocks_out_snoc [simp]: "blocks_out (tr @ [c]) = note_block c (blocks_out tr)"
  by (simp add: blocks_out_def)

lemma blocks_out_Nil [simp]: "blocks_out [] = []"
  by (simp add: blocks_out_def)

text \<open>The bytes of a block, as addresses.\<close>

definition bytes_of :: "u64 \<Rightarrow> nat \<Rightarrow> nat set" where
  "bytes_of p n = {unat p..<unat p + n}"

text \<open>
  Over a buffer of \<open>bytes\<close> bytes at \<open>data\<close> and with nothing to fall back on, every block is aligned as
  asked, lies in the buffer, and has no byte in common with the blocks handed out since the last
  release. Where in the buffer it lies the standard leaves open.
\<close>

definition monotonic_resource :: "u64 \<Rightarrow> nat \<Rightarrow> resource \<Rightarrow> bool" where
  "monotonic_resource data bytes mr \<longleftrightarrow>
     (\<forall>tr n al p. pow2_size (unat al) \<longrightarrow> mr tr n al = Some p \<longrightarrow>
        unat al dvd unat p \<and> unat data \<le> unat p \<and> unat p + unat n \<le> unat data + bytes
        \<and> (\<forall>(q, m, _) \<in> set (blocks_out tr). bytes_of p (unat n) \<inter> bytes_of q (unat m) = {}))"

text \<open>
  The resource takes a block from the unused part of the buffer when it fits there. Every block uses
  up its size and what its alignment skips, so a request is not refused as long as those of
  all blocks handed out since the last release, and its own, fit in the buffer together. This is
  asked only of the sequences of calls the resource has answered itself.
\<close>

fun answered :: "resource \<Rightarrow> mr_call list \<Rightarrow> mr_call list \<Rightarrow> bool" where
  "answered mr before [] = True"
| "answered mr before (Mr_Allocate n al r # tr) \<longleftrightarrow>
     r = mr before n al \<and> answered mr (before @ [Mr_Allocate n al r]) tr"
| "answered mr before (Mr_Release # tr) \<longleftrightarrow> answered mr (before @ [Mr_Release]) tr"

definition room_used :: "mr_call list \<Rightarrow> nat" where
  "room_used tr = (\<Sum>(p, n, al) \<leftarrow> blocks_out tr. unat n + unat al)"

definition serves_what_fits :: "nat \<Rightarrow> resource \<Rightarrow> bool" where
  "serves_what_fits bytes mr \<longleftrightarrow>
     (\<forall>tr n al. answered mr [] tr \<longrightarrow> pow2_size (unat al) \<longrightarrow> room_used tr + unat n + unat al \<le> bytes
        \<longrightarrow> mr tr n al \<noteq> None)"

lemma answered_snoc:
  "answered mr before (tr @ [c]) \<longleftrightarrow> answered mr before tr \<and>
     (case c of Mr_Allocate n al r \<Rightarrow> r = mr (before @ tr) n al | Mr_Release \<Rightarrow> True)"
  by (induction mr before tr rule: answered.induct) (auto split: mr_call.split)

section \<open>Objects between two releases\<close>

text \<open>
  The use of the arena that is modelled for \<open>ll::Arena\<close>: objects are created, raw blocks come from
  \<open>resource()->allocate\<close>, and everything is released at once. A request that throws leaves the
  blocks as they are.
\<close>

fun pmr_step :: "resource \<Rightarrow> arena_op \<Rightarrow> pmr_arena \<times> block list \<Rightarrow> pmr_arena \<times> block list" where
  "pmr_step mr (Create obj al) (a, live) =
     (case pmr_create mr a obj al of (Inl e, a) \<Rightarrow> (a, live)
      | (Inr p, a) \<Rightarrow> (a, (p, length obj, al, Some obj) # live))"
| "pmr_step mr (Allocate n al) (a, live) =
     (case pmr_allocate mr a n al of (Inl e, a) \<Rightarrow> (a, live)
      | (Inr p, a) \<Rightarrow> (a, (p, unat n, al, None) # live))"
| "pmr_step mr Reset (a, live) = (pmr_release a, [])"

fun pmr_steps :: "resource \<Rightarrow> arena_op list \<Rightarrow> pmr_arena \<times> block list \<Rightarrow> pmr_arena \<times> block list" where
  "pmr_steps mr [] s = s"
| "pmr_steps mr (op # ops) s = pmr_steps mr ops (pmr_step mr op s)"

text \<open>A type has an alignment that is a power of two, and a size below 2^64.\<close>

fun typed_op :: "arena_op \<Rightarrow> bool" where
  "typed_op (Create obj al) \<longleftrightarrow> pow2_size (unat al) \<and> length obj < 2 ^ 64"
| "typed_op (Allocate n al) \<longleftrightarrow> pow2_size (unat al)"
| "typed_op Reset \<longleftrightarrow> True"

fun pmr_block_ok :: "pmr_arena \<Rightarrow> block \<Rightarrow> bool" where
  "pmr_block_ok a (p, n, al, content) \<longleftrightarrow> unat al dvd unat p \<and> n < 2 ^ 64
     \<and> unat (pm_data a) \<le> unat p \<and> unat p + n \<le> unat (pm_data a) + length (pm_buffer a)
     \<and> (\<forall>obj. content = Some obj \<longrightarrow> n = length obj
          \<and> mem_read (pm_buffer a) (unat p - unat (pm_data a)) n = Inr obj)"

fun apart :: "block \<Rightarrow> block \<Rightarrow> bool" where
  "apart (p, n, _) (q, m, _) \<longleftrightarrow> bytes_of p n \<inter> bytes_of q m = {}"

definition pmr_inv :: "resource \<Rightarrow> pmr_arena \<times> block list \<Rightarrow> bool" where
  "pmr_inv mr s \<longleftrightarrow> monotonic_resource (pm_data (fst s)) (length (pm_buffer (fst s))) mr
     \<and> unat (pm_data (fst s)) + length (pm_buffer (fst s)) < 2 ^ 64
     \<and> answered mr [] (pm_calls (fst s))
     \<and> map (\<lambda>(p, n, al, _). (p, word_of_nat n, al)) (snd s) = blocks_out (pm_calls (fst s))
     \<and> (\<forall>b \<in> set (snd s). pmr_block_ok (fst s) b) \<and> sorted_wrt apart (snd s)"

text \<open>Two blocks are apart when one of them is empty or ends before the other one starts.\<close>

lemma bytes_apart:
  "bytes_of p n \<inter> bytes_of q m = {} \<longleftrightarrow>
     n = 0 \<or> m = 0 \<or> unat p + n \<le> unat q \<or> unat q + m \<le> unat p"
proof
  assume empty: "bytes_of p n \<inter> bytes_of q m = {}"
  show "n = 0 \<or> m = 0 \<or> unat p + n \<le> unat q \<or> unat q + m \<le> unat p"
  proof (rule ccontr)
    assume "\<not> ?thesis"
    then have "max (unat p) (unat q) \<in> bytes_of p n \<inter> bytes_of q m" by (auto simp: bytes_of_def)
    with empty show False by simp
  qed
qed (auto simp: bytes_of_def)

text \<open>Writing into a block leaves the bytes of the blocks apart from it.\<close>

lemma read_apart:
  assumes w: "mem_write buf (unat p - d) obj = Inr buf'" and "d \<le> unat p" and "d \<le> unat q"
    and "bytes_of p (length obj) \<inter> bytes_of q m = {}"
  shows "mem_read buf' (unat q - d) m = mem_read buf (unat q - d) m"
proof -
  consider "obj = []" | "m = 0" | "unat q - d + m \<le> unat p - d \<or> unat p - d + length obj \<le> unat q - d"
    using assms(2-4) unfolding bytes_apart by fastforce
  then show ?thesis
  proof cases
    case 1
    with w show ?thesis by (auto simp: mem_write_def split: if_splits)
  next
    case 2
    with mem_write_length [OF w] show ?thesis by (simp add: mem_read_def)
  next
    case 3
    with read_other [OF w] show ?thesis by blast
  qed
qed

lemma pmr_block_ok_calls: "pmr_block_ok (a\<lparr>pm_calls := tr\<rparr>) = pmr_block_ok a"
proof
  show "pmr_block_ok (a\<lparr>pm_calls := tr\<rparr>) b = pmr_block_ok a b" for b by (cases b) simp
qed

lemma pmr_allocate_refused:
  assumes "pmr_inv mr (a, live)" and "pmr_allocate mr a n al = (Inl e, a')"
  shows "e = Bad_Alloc \<and> pmr_inv mr (a', live) \<and> pm_data a' = pm_data a \<and> pm_buffer a' = pm_buffer a"
  using assms
  by (auto simp: pmr_allocate_def Let_def pmr_inv_def answered_snoc pmr_block_ok_calls
      simp del: pmr_block_ok.simps split: option.splits)

lemma pmr_allocate_given:
  assumes inv: "pmr_inv mr (a, live)" and al: "pow2_size (unat al)"
    and r: "pmr_allocate mr a n al = (Inr p, a')"
  shows "pmr_inv mr (a', (p, unat n, al, None) # live)"
    and "pm_data a' = pm_data a" and "pm_buffer a' = pm_buffer a"
proof -
  have p: "mr (pm_calls a) n al = Some p"
    and a': "a' = a\<lparr>pm_calls := pm_calls a @ [Mr_Allocate n al (Some p)]\<rparr>"
    using r by (auto simp: pmr_allocate_def Let_def split: option.splits)
  then show "pm_data a' = pm_data a" "pm_buffer a' = pm_buffer a" by simp_all
  have blocks: "map (\<lambda>(p, n, al, _). (p, word_of_nat n, al)) live = blocks_out (pm_calls a)"
    and ok: "\<forall>b \<in> set live. pmr_block_ok a b" using inv by (simp_all add: pmr_inv_def)
  have place: "unat al dvd unat p" "unat (pm_data a) \<le> unat p"
      "unat p + unat n \<le> unat (pm_data a) + length (pm_buffer a)"
    and other: "\<And>q m al'. (q, m, al') \<in> set (blocks_out (pm_calls a)) \<Longrightarrow>
      bytes_of p (unat n) \<inter> bytes_of q (unat m) = {}"
    using inv al p unfolding pmr_inv_def monotonic_resource_def by fastforce+
  have "apart (p, unat n, al, None) b" if b: "b \<in> set live" for b
  proof -
    obtain q m al' c where b': "b = (q, m, al', c)" by (cases b)
    then have "(q, word_of_nat m, al') \<in> set (blocks_out (pm_calls a))"
      using b unfolding blocks [symmetric] by force
    moreover have "m < 2 ^ 64" using ok b b' by auto
    ultimately show ?thesis using other b' by fastforce
  qed
  then show "pmr_inv mr (a', (p, unat n, al, None) # live)"
    using inv place p by (simp add: pmr_inv_def a' answered_snoc pmr_block_ok_calls)
qed

lemma pmr_create_cases:
  assumes inv: "pmr_inv mr (a, live)" and al: "pow2_size (unat al)" and len: "length obj < 2 ^ 64"
    and r: "pmr_create mr a obj al = (out, a')"
  shows "pm_data a' = pm_data a \<and> length (pm_buffer a') = length (pm_buffer a)
    \<and> (case out of Inl e \<Rightarrow> e = Bad_Alloc \<and> mr (pm_calls a) (size_of_list obj) al = None \<and> pmr_inv mr (a', live)
       | Inr p \<Rightarrow> pmr_inv mr (a', (p, length obj, al, Some obj) # live))"
proof (cases "pmr_allocate mr a (size_of_list obj) al")
  case (Pair got a1)
  show ?thesis
  proof (cases got)
    case (Inl e)
    then have "mr (pm_calls a) (size_of_list obj) al = None"
      using Pair by (auto simp: pmr_allocate_def Let_def split: option.splits)
    with Inl Pair r pmr_allocate_refused [OF inv, of _ al e a1] show ?thesis
      by (auto simp: pmr_create_def)
  next
    case (Inr p)
    note a1 = pmr_allocate_given [OF inv al Pair [unfolded Inr]]
    have n: "unat (size_of_list obj) = length obj" using len by simp
    have ok: "pmr_block_ok a1 (p, length obj, al, None)" and apart: "\<forall>b \<in> set live. apart (p, length obj, al, None) b"
      and old: "\<forall>b \<in> set live. pmr_block_ok a1 b"
      using a1(1) by (simp_all add: pmr_inv_def n)
    then have off: "unat (p - pm_data a1) = unat p - unat (pm_data a1)"
      by (simp add: unat_sub word_le_nat_alt)
    have fits: "unat p - unat (pm_data a1) + length obj \<le> length (pm_buffer a1)"
      using ok by auto
    then obtain b where b: "mem_write (pm_buffer a1) (unat p - unat (pm_data a1)) obj = Inr b"
      using mem_write_Inr_iff by blast
    have a': "out = Inr p" "a' = a1\<lparr>pm_buffer := b\<rparr>"
      using r Pair Inr b off by (simp_all add: pmr_create_def)
    have len: "length b = length (pm_buffer a1)" using b by (rule mem_write_length)
    have "pmr_block_ok a' blk" if blk: "blk \<in> set live" for blk
    proof -
      obtain q m al' c where q: "blk = (q, m, al', c)" by (cases blk)
      have "pmr_block_ok a1 (q, m, al', c)" "apart (p, length obj, al, None) (q, m, al', c)"
        using old apart blk q by blast+
      then have "unat (pm_data a1) \<le> unat p" "unat (pm_data a1) \<le> unat q"
        "bytes_of p (length obj) \<inter> bytes_of q m = {}" using ok by simp_all
      from read_apart [OF b this] old blk q len show ?thesis by (auto simp: a')
    qed
    moreover have "pmr_block_ok a' (p, length obj, al, Some obj)"
      using ok read_after_write [OF b] len by (simp add: a')
    moreover have "apart (p, length obj, al, Some obj) b = apart (p, length obj, al, None) b" for b
      by (cases b) simp
    ultimately have "pmr_inv mr (a', (p, length obj, al, Some obj) # live)"
      using a1(1) len by (simp add: pmr_inv_def a' n)
    then show ?thesis using a1 len by (simp add: a')
  qed
qed

lemma pmr_inv_new:
  "unat data + bytes < 2 ^ 64 \<Longrightarrow> monotonic_resource data bytes mr \<Longrightarrow> pmr_inv mr (pmr_new data bytes, [])"
  by (simp add: pmr_inv_def pmr_new_def)

lemma pmr_inv_release: "pmr_inv mr (a, live) \<Longrightarrow> pmr_inv mr (pmr_release a, [])"
  by (simp add: pmr_inv_def pmr_release_def answered_snoc)

lemma pmr_inv_step:
  assumes "pmr_inv mr s" and "typed_op op"
  shows "pmr_inv mr (pmr_step mr op s) \<and> pm_data (fst (pmr_step mr op s)) = pm_data (fst s)
    \<and> length (pm_buffer (fst (pmr_step mr op s))) = length (pm_buffer (fst s))"
proof -
  obtain a live where s: "s = (a, live)" by (cases s)
  show ?thesis
  proof (cases op)
    case (Create obj al)
    obtain out a' where r: "pmr_create mr a obj al = (out, a')" by fastforce
    from pmr_create_cases [OF _ _ _ r] assms s Create r show ?thesis by (cases out) auto
  next
    case (Allocate n al)
    obtain out a' where r: "pmr_allocate mr a n al = (out, a')" by fastforce
    show ?thesis
    proof (cases out)
      case (Inl e)
      with pmr_allocate_refused [of mr a live n al e a'] assms s Allocate r show ?thesis by simp
    next
      case (Inr p)
      with pmr_allocate_given [of mr a live al n p a'] assms s Allocate r show ?thesis by simp
    qed
  next
    case Reset
    with assms(1) s pmr_inv_release show ?thesis by (auto simp: pmr_release_def)
  qed
qed

lemma pmr_inv_steps:
  assumes "pmr_inv mr s" and "\<forall>op \<in> set ops. typed_op op"
  shows "pmr_inv mr (pmr_steps mr ops s) \<and> pm_data (fst (pmr_steps mr ops s)) = pm_data (fst s)
    \<and> length (pm_buffer (fst (pmr_steps mr ops s))) = length (pm_buffer (fst s))"
  using assms
proof (induction ops arbitrary: s)
  case (Cons op ops)
  with pmr_inv_step [of mr s op] show ?case by simp
qed simp

text \<open>An object that is still there is read back, and there is room for objects that fit.\<close>

lemma pmr_object_reads:
  assumes "pmr_inv mr (a, live)" and "(p, n, al, Some obj) \<in> set live"
  shows "mem_read (pm_buffer a) (unat (p - pm_data a)) n = Inr obj"
proof -
  have ok: "pmr_block_ok a (p, n, al, Some obj)" using assms unfolding pmr_inv_def by fastforce
  then have "unat (p - pm_data a) = unat p - unat (pm_data a)"
    by (simp add: unat_sub word_le_nat_alt)
  with ok show ?thesis by auto
qed

lemma pmr_room:
  assumes "pmr_inv mr (a, live)"
  shows "room_used (pm_calls a) = (\<Sum>(p, n, al, _) \<leftarrow> live. n + unat al)"
proof -
  have blocks: "blocks_out (pm_calls a) = map (\<lambda>(p, n, al, _). (p, word_of_nat n, al)) live"
    and "\<forall>b \<in> set live. pmr_block_ok a b" using assms by (simp_all add: pmr_inv_def)
  then have "map (\<lambda>(p, n :: size_t, al). unat n + unat al) (blocks_out (pm_calls a))
      = map (\<lambda>(p, n, al, _). n + unat al) live"
    by (auto simp: blocks case_prod_beta)
  then show ?thesis by (simp only: room_used_def)
qed

lemma pmr_create_fits:
  assumes inv: "pmr_inv mr (a, live)" and serves: "serves_what_fits (length (pm_buffer a)) mr"
    and al: "pow2_size (unat al)"
    and fits: "(\<Sum>(p, n, al, _) \<leftarrow> live. n + unat al) + length obj + unat al \<le> length (pm_buffer a)"
  obtains p a' where "pmr_create mr a obj al = (Inr p, a')"
    and "pmr_inv mr (a', (p, length obj, al, Some obj) # live)"
    and "pm_data a' = pm_data a" and "length (pm_buffer a') = length (pm_buffer a)"
proof -
  obtain out a' where r: "pmr_create mr a obj al = (out, a')" by fastforce
  have "length (pm_buffer a) < 2 ^ 64" and ans: "answered mr [] (pm_calls a)"
    using inv by (simp_all add: pmr_inv_def)
  then have len: "length obj < 2 ^ 64" using fits by linarith
  then have "room_used (pm_calls a) + unat (size_of_list obj) + unat al \<le> length (pm_buffer a)"
    using fits pmr_room [OF inv] by simp
  with serves ans al have "mr (pm_calls a) (size_of_list obj) al \<noteq> None"
    unfolding serves_what_fits_def by blast
  with pmr_create_cases [OF inv al len r] r that show thesis by (cases out) auto
qed

section \<open>Properties\<close>

text \<open>
  C27: Over any resource that keeps the promises of the standard's \<open>monotonic_buffer_resource\<close>, wherever
  it places its blocks, and through every sequence of \<open>create\<close>, raw allocations and \<open>release\<close>: every
  object created since the last release still has the bytes it was created with, at an aligned
  address inside the buffer, and shares no byte with any other block handed out since then; these
  blocks are all the resource has handed out, since \<open>create\<close> fails only when the resource refuses.
\<close>

theorem pmr_objects_intact:
  assumes data: "unat data + bytes < 2 ^ 64" and mr: "monotonic_resource data bytes mr"
    and ops: "\<forall>op \<in> set ops. typed_op op"
    and run: "pmr_steps mr ops (pmr_new data bytes, []) = (a, live)"
  shows "(\<forall>(p, n, al, content) \<in> set live. unat al dvd unat p
            \<and> unat data \<le> unat p \<and> unat p + n \<le> unat data + bytes
            \<and> (\<forall>obj. content = Some obj \<longrightarrow>
                 mem_read (pm_buffer a) (unat p - unat data) (length obj) = Inr obj))
       \<and> sorted_wrt (\<lambda>(p, n, _) (q, m, _). bytes_of p n \<inter> bytes_of q m = {}) live
       \<and> map (\<lambda>(p, n, al, _). (p, word_of_nat n, al)) live = blocks_out (pm_calls a)
       \<and> length (pm_buffer a) = bytes"
proof -
  from pmr_inv_steps [OF pmr_inv_new [OF data mr] ops] run
  have inv: "pmr_inv mr (a, live)" and same: "pm_data a = data" "length (pm_buffer a) = bytes"
    by (simp_all add: pmr_new_def)
  have "apart = (\<lambda>(p, n, _) (q, m, _). bytes_of p n \<inter> bytes_of q m = {})" by (intro ext) auto
  with inv same show ?thesis by (fastforce simp: pmr_inv_def)
qed

text \<open>
  Two placements a library may choose: upwards from the start of the buffer, and downwards from its
  end. Both keep the promises.
\<close>

definition bump_up :: "u64 \<Rightarrow> nat \<Rightarrow> resource" where
  "bump_up data bytes tr n al =
     (let top = foldr max (map (\<lambda>(p, m, _). unat p + unat m) (blocks_out tr)) (unat data);
          q = (top + (unat al - 1)) div unat al * unat al
      in if q + unat n \<le> unat data + bytes then Some (word_of_nat q) else None)"

definition bump_down :: "u64 \<Rightarrow> nat \<Rightarrow> resource" where
  "bump_down data bytes tr n al =
     (let bottom = foldr min (map (\<lambda>(p, _). unat p) (blocks_out tr)) (unat data + bytes);
          q = (bottom - unat n) div unat al * unat al
      in if unat n \<le> bottom \<and> unat data \<le> q then Some (word_of_nat q) else None)"

lemma foldr_max_upper: "d \<le> foldr max xs (d :: nat)" "x \<in> set xs \<Longrightarrow> x \<le> foldr max xs d"
  by (induction xs) auto

lemma foldr_min_lower: "foldr min xs (d :: nat) \<le> d" "x \<in> set xs \<Longrightarrow> foldr min xs d \<le> x"
  by (induction xs) auto

lemma Some_address:
  assumes "(if fits then Some (word_of_nat q :: u64) else None) = Some p" and "fits \<Longrightarrow> q < 2 ^ 64"
  shows "fits \<and> unat p = q"
  using assms by (auto split: if_splits)

lemma bump_upD:
  assumes "bump_up data bytes tr n al = Some p" and "unat data + bytes < 2 ^ 64"
  defines "tp \<equiv> foldr max (map (\<lambda>(p, m, _). unat p + unat m) (blocks_out tr)) (unat data)"
  shows "(tp + (unat al - 1)) div unat al * unat al + unat n \<le> unat data + bytes
    \<and> unat p = (tp + (unat al - 1)) div unat al * unat al"
  by (rule Some_address [OF assms(1) [unfolded bump_up_def Let_def, folded tp_def]])
    (use assms(2) in linarith)

lemma bump_downD:
  assumes "bump_down data bytes tr n al = Some p" and "unat data + bytes < 2 ^ 64"
  defines "bottom \<equiv> foldr min (map (\<lambda>(p, _). unat p) (blocks_out tr)) (unat data + bytes)"
  shows "(unat n \<le> bottom \<and> unat data \<le> (bottom - unat n) div unat al * unat al)
    \<and> unat p = (bottom - unat n) div unat al * unat al"
proof (rule Some_address [OF assms(1) [unfolded bump_down_def Let_def, folded bottom_def]])
  have "bottom \<le> unat data + bytes" unfolding bottom_def by (rule foldr_min_lower(1))
  moreover have "(bottom - unat n) div unat al * unat al \<le> bottom - unat n" by simp
  ultimately show "(bottom - unat n) div unat al * unat al < 2 ^ 64" using assms(2) by linarith
qed

lemma bump_up_monotonic:
  assumes "unat data + bytes < 2 ^ 64"
  shows "monotonic_resource data bytes (bump_up data bytes)"
  unfolding monotonic_resource_def
proof (intro allI impI)
  fix tr n al p
  assume al: "pow2_size (unat al)" and r: "bump_up data bytes tr n al = Some p"
  let ?ends = "map (\<lambda>(p, m, _). unat p + unat m) (blocks_out tr)"
  let ?top = "foldr max ?ends (unat data)"
  let ?q = "(?top + (unat al - 1)) div unat al * unat al"
  have q: "unat p = ?q" "?q + unat n \<le> unat data + bytes"
    using bump_upD [OF r assms] by blast+
  note up = round_up [OF pow2_size_pos [OF al], of ?top]
  have "unat data \<le> ?top" by (rule foldr_max_upper(1))
  then have "unat data \<le> unat p" using up(2) q(1) by linarith
  moreover have "unat al dvd unat p" using up(1) q(1) by presburger
  moreover have "unat p + unat n \<le> unat data + bytes" using q by linarith
  moreover have "bytes_of p (unat n) \<inter> bytes_of p' (unat m) = {}"
    if "(p', m, al') \<in> set (blocks_out tr)" for p' m al'
  proof -
    have "unat p' + unat m \<in> set ?ends" using that by force
    then have "unat p' + unat m \<le> ?top" by (rule foldr_max_upper(2))
    then show ?thesis using up(2) q(1) by (simp add: bytes_apart)
  qed
  ultimately show "unat al dvd unat p \<and> unat data \<le> unat p \<and> unat p + unat n \<le> unat data + bytes
      \<and> (\<forall>(q, m, _) \<in> set (blocks_out tr). bytes_of p (unat n) \<inter> bytes_of q (unat m) = {})"
    by auto
qed

lemma bump_down_monotonic:
  assumes "unat data + bytes < 2 ^ 64"
  shows "monotonic_resource data bytes (bump_down data bytes)"
  unfolding monotonic_resource_def
proof (intro allI impI)
  fix tr n al p
  assume al: "pow2_size (unat al)" and r: "bump_down data bytes tr n al = Some p"
  let ?starts = "map (\<lambda>(p, _). unat p) (blocks_out tr)"
  let ?bottom = "foldr min ?starts (unat data + bytes)"
  let ?q = "(?bottom - unat n) div unat al * unat al"
  have low: "?bottom \<le> unat data + bytes" by (rule foldr_min_lower(1))
  have le: "?q \<le> ?bottom - unat n" by simp
  have q: "unat p = ?q" "unat n \<le> ?bottom" "unat data \<le> ?q"
    using bump_downD [OF r assms] by blast+
  have "bytes_of p (unat n) \<inter> bytes_of p' (unat m) = {}"
    if "(p', m, al') \<in> set (blocks_out tr)" for p' m al'
  proof -
    have "unat p' \<in> set ?starts" using that by force
    then have "?bottom \<le> unat p'" by (rule foldr_min_lower(2))
    then have "unat p + unat n \<le> unat p'" using le q(1,2) by linarith
    then show ?thesis by (simp add: bytes_apart)
  qed
  moreover have "unat p + unat n \<le> unat data + bytes" using q(1,2) le low by linarith
  ultimately show "unat al dvd unat p \<and> unat data \<le> unat p \<and> unat p + unat n \<le> unat data + bytes
      \<and> (\<forall>(q, m, _) \<in> set (blocks_out tr). bytes_of p (unat n) \<inter> bytes_of q (unat m) = {})"
    using q(1,3) by auto
qed

lemma bump_up_serves:
  assumes "unat data + bytes < 2 ^ 64"
  shows "serves_what_fits bytes (bump_up data bytes)"
proof -
  let ?top = "\<lambda>tr. foldr max (map (\<lambda>(p, m, _). unat p + unat m) (blocks_out tr)) (unat data)"
  have skip: "(t + (A - 1)) div A * A \<le> t + A" for t A :: nat
    using div_times_less_eq_dividend [of "t + (A - 1)" A] by linarith
  have top: "?top tr \<le> unat data + room_used tr" if "answered (bump_up data bytes) [] tr" for tr
    using that
  proof (induction tr rule: rev_induct)
    case Nil
    show ?case by simp
  next
    case (snoc c tr)
    then have IH: "?top tr \<le> unat data + room_used tr" by (simp add: answered_snoc)
    show ?case
    proof (cases c)
      case (Mr_Allocate n al r)
      show ?thesis
      proof (cases r)
        case None
        with IH Mr_Allocate show ?thesis by (simp add: room_used_def)
      next
        case (Some p)
        let ?q = "(?top tr + (unat al - 1)) div unat al * unat al"
        have "bump_up data bytes tr n al = Some p"
          using snoc.prems Mr_Allocate Some by (simp add: answered_snoc)
        then have "unat p = ?q" using bump_upD assms by blast
        then show ?thesis using IH skip [of "?top tr" "unat al"] Mr_Allocate Some
          by (simp add: room_used_def)
      qed
    qed (simp add: room_used_def)
  qed
  show ?thesis
    unfolding serves_what_fits_def
  proof (intro allI impI)
    fix tr and n al :: size_t
    assume "answered (bump_up data bytes) [] tr" and "room_used tr + unat n + unat al \<le> bytes"
    with top [of tr] skip [of "?top tr" "unat al"]
    have "(?top tr + (unat al - 1)) div unat al * unat al + unat n \<le> unat data + bytes" by linarith
    then show "bump_up data bytes tr n al \<noteq> None" by (simp add: bump_up_def Let_def)
  qed
qed

theorem pmr_objects_intact_witness:
  "mem_read (pm_buffer (fst (pmr_steps (bump_down 4096 8) [Create [7] 1, Reset, Create [1, 2, 3] 1, Allocate 2 1, Create [9] 1]
      (pmr_new 4096 8, [])))) 5 3 = Inr [1, 2, 3]"
proof -
  let ?ops = "[Create [7] 1, Reset, Create [1, 2, 3] 1, Allocate 2 1, Create [9] 1]"
  let ?s = "pmr_steps (bump_down 4096 8) ?ops (pmr_new 4096 8, [])"
  obtain a live where r: "?s = (a, live)" by (cases ?s)
  have "snd ?s = [(4098, 1, 1, Some [9]), (4099, 2, 1, None), (4101, 3, 1, Some [1, 2, 3])]"
    by (simp add: pmr_create_def pmr_allocate_def bump_down_def pmr_new_def pmr_release_def
        blocks_out_def mem_write_def Let_def)
  with r have live: "(4101, 3, 1, Some [1, 2, 3]) \<in> set live" by simp
  have "pow2_size 1" using exI [of "\<lambda>k. k < 64 \<and> (1 :: nat) = 2 ^ k" 0] by (simp add: pow2_size_def)
  then have typed: "\<forall>op \<in> set ?ops. typed_op op" by simp
  have data: "unat (4096 :: u64) + 8 < 2 ^ 64" by simp
  from pmr_objects_intact [OF data bump_down_monotonic [OF data] typed r, THEN conjunct1, rule_format, OF live]
  have "mem_read (pm_buffer a) 5 (length [1 :: u8, 2, 3]) = Inr [1, 2, 3]" by simp
  then show ?thesis unfolding r by (simp add: numeral_3_eq_3)
qed

section \<open>The unsynchronized pool\<close>

text \<open>
  \<open>ll::PmrUnsyncPool\<close> with a type of size \<open>n\<close> and alignment \<open>al\<close>: the pool and the constructors
  are the environment. An allocation gives an address or throws (\<open>None\<close>), a constructor returns
  or throws.
\<close>

type_synonym typed_block = "u64 \<times> size_t \<times> size_t"

datatype unsync_call =
    Pool_Allocate size_t size_t "u64 option"
  | Construct u64 "cxx_error option"
  | Destroy u64
  | Pool_Deallocate u64 size_t size_t

record unsync_env =
  on_pool_allocate :: "unsync_call list \<Rightarrow> size_t \<Rightarrow> size_t \<Rightarrow> u64 option"
  on_construct :: "unsync_call list \<Rightarrow> u64 \<Rightarrow> cxx_error option"

definition unsync_create :: "unsync_env \<Rightarrow> size_t \<Rightarrow> size_t \<Rightarrow> unsync_call list \<Rightarrow> u64 res \<times> unsync_call list" where
  "unsync_create env n al tr =
     (let r = on_pool_allocate env tr n al;
          tr = tr @ [Pool_Allocate n al r]
      in case r of
           None \<Rightarrow> (Inl Bad_Alloc, tr)
         | Some mem \<Rightarrow>
             let x = on_construct env tr mem;
                 tr = tr @ [Construct mem x]
             in (case x of Some e \<Rightarrow> (Inl e, tr) | None \<Rightarrow> (Inr mem, tr)))"

definition destroy_and_deallocate :: "size_t \<Rightarrow> size_t \<Rightarrow> u64 \<Rightarrow> unsync_call list \<Rightarrow> unsync_call list" where
  "destroy_and_deallocate n al p tr =
     (if p = 0 then tr else tr @ [Destroy p] @ [Pool_Deallocate p n al])"

text \<open>
  The protocol: memory is constructed in when it is allocated, destroyed when there is an object,
  and given back without one, with the size and the alignment it was allocated with. \<open>up_raw\<close> is
  the memory without an object, \<open>up_objects\<close> the objects; a null pointer is neither.
\<close>

record unsync_phase =
  up_raw :: "typed_block list"
  up_objects :: "typed_block list"

definition block_at :: "u64 \<Rightarrow> typed_block list \<Rightarrow> typed_block option" where
  "block_at p bs = find (\<lambda>b. fst b = p) bs"

fun unsync_trans :: "unsync_phase \<Rightarrow> unsync_call \<Rightarrow> unsync_phase option" where
  "unsync_trans ph (Pool_Allocate n al None) = Some ph"
| "unsync_trans ph (Pool_Allocate n al (Some p)) =
     Some (if p = 0 then ph else ph\<lparr>up_raw := (p, n, al) # up_raw ph\<rparr>)"
| "unsync_trans ph (Construct p x) =
     (if p = 0 then Some ph
      else case block_at p (up_raw ph) of
             None \<Rightarrow> None
           | Some b \<Rightarrow> Some (if x = None then ph\<lparr>up_raw := remove1 b (up_raw ph), up_objects := b # up_objects ph\<rparr> else ph))"
| "unsync_trans ph (Destroy p) =
     (case block_at p (up_objects ph) of
        None \<Rightarrow> None
      | Some b \<Rightarrow> Some (ph\<lparr>up_raw := b # up_raw ph, up_objects := remove1 b (up_objects ph)\<rparr>))"
| "unsync_trans ph (Pool_Deallocate p n al) =
     (if (p, n, al) \<in> set (up_raw ph) then Some (ph\<lparr>up_raw := remove1 (p, n, al) (up_raw ph)\<rparr>) else None)"

text \<open>A caller that keeps its objects, with their types, and destroys each with its type.\<close>

datatype unsync_op = New size_t size_t | Drop u64

fun unsync_op_call :: "unsync_env \<Rightarrow> unsync_op \<Rightarrow> typed_block list \<times> unsync_call list
    \<Rightarrow> typed_block list \<times> unsync_call list" where
  "unsync_op_call env (New n al) (held, tr) =
     (case unsync_create env n al tr of
        (Inr p, tr) \<Rightarrow> (if p = 0 then held else (p, n, al) # held, tr)
      | (Inl e, tr) \<Rightarrow> (held, tr))"
| "unsync_op_call env (Drop p) (held, tr) =
     (case block_at p held of
        None \<Rightarrow> (held, tr)
      | Some (q, n, al) \<Rightarrow> (remove1 (q, n, al) held, destroy_and_deallocate n al q tr))"

definition unsync_rests :: "typed_block list \<Rightarrow> unsync_phase \<Rightarrow> bool" where
  "unsync_rests held ph \<longleftrightarrow> up_objects ph = held \<and> (\<forall>b \<in> set held. fst b \<noteq> 0)"

lemma block_atD: "block_at p bs = Some b \<Longrightarrow> b \<in> set bs \<and> fst b = p"
  by (auto simp: block_at_def find_Some_iff)

lemma block_at_hd [simp]: "block_at p ((p, n, al) # bs) = Some (p, n, al)"
  by (simp add: block_at_def)

interpretation unsync: protocol_client unsync_trans "unsync_op_call env" unsync_rests for env
proof unfold_locales
  fix x :: unsync_op and held tr held' tr' ph
  assume c: "unsync_op_call env x (held, tr) = (held', tr')" and r: "unsync_rests held ph"
  show "\<exists>es ph'. tr' = tr @ es \<and> follow unsync_trans ph es = Some ph' \<and> unsync_rests held' ph'"
  proof (cases x)
    case (New n al)
    with c r show ?thesis
      by (auto simp: unsync_create_def unsync_rests_def Let_def split: option.splits if_splits)
  next
    case (Drop p)
    show ?thesis
    proof (cases "block_at p held")
      case None
      with c Drop r show ?thesis by auto
    next
      case (Some b)
      then obtain n al where b: "b = (p, n, al)" "b \<in> set held" using block_atD [OF Some] by (cases b) auto
      then have "p \<noteq> 0" using r by (auto simp: unsync_rests_def)
      moreover have "\<forall>b \<in> set (remove1 (p, n, al) held). fst b \<noteq> 0"
        using r set_remove1_subset by (fastforce simp: unsync_rests_def)
      ultimately show ?thesis
        using c Drop r Some b by (auto simp: destroy_and_deallocate_def unsync_rests_def)
    qed
  qed
qed

text \<open>
  Whatever the pool and the constructors do, a caller that destroys its objects with the types
  it created them with uses the pool properly: an object is constructed only in memory just
  allocated, destroyed before its memory is given back, and given back with its size and
  alignment; the objects alive are those the caller holds.
\<close>

theorem unsync_pool_protocol:
  "\<exists>ph. follow unsync_trans \<lparr>up_raw = [], up_objects = []\<rparr>
         (snd (run_ops (unsync_op_call env) ops ([], []))) = Some ph
     \<and> up_objects ph = fst (run_ops (unsync_op_call env) ops ([], []))"
proof -
  obtain held tr where r: "run_ops (unsync_op_call env) ops ([], []) = (held, tr)" by fastforce
  have "unsync_rests [] \<lparr>up_raw = [], up_objects = []\<rparr>" by (simp add: unsync_rests_def)
  from unsync.run_obeys [OF r this] show ?thesis by (auto simp: r unsync_rests_def)
qed

text \<open>When the constructor throws, \<open>create\<close> passes the exception on and the block stays allocated.\<close>

lemma unsync_create_leaks:
  assumes "on_pool_allocate env [] n al = Some p" and "p \<noteq> 0"
    and "on_construct env [Pool_Allocate n al (Some p)] p = Some e"
  shows "fst (unsync_create env n al []) = Inl e
    \<and> follow unsync_trans \<lparr>up_raw = [], up_objects = []\<rparr> (snd (unsync_create env n al []))
        = Some \<lparr>up_raw = [(p, n, al)], up_objects = []\<rparr>"
  using assms by (simp add: unsync_create_def)

end
