(* ===== verification/ObjectPool.thy ===== *)
theory ObjectPool
  imports Prelude
begin

text \<open>
  The fixed pool \<open>ll::ObjectPool<T, N>\<close> of \<open>include/ll/arena.hpp\<close>: a stack of pointers to the
  free ones of \<open>N\<close> slots. The theory holds its operations, the interface of a pool that checks
  objects out and back in with the facts its clients rely on, and what the operations do when a
  client breaks the rules.
\<close>

section \<open>State and operations\<close>

text \<open>
  A \<open>T*\<close> is null or an object, identified by a number: slot \<open>i\<close> of the pool is object \<open>i\<close> for
  \<open>i < N\<close>, and numbers from \<open>N\<close> on are objects from elsewhere. The values in the slots belong to
  the clients; the operations never touch them.
\<close>

type_synonym obj_ptr = "nat option"

record pool =
  p_free :: "obj_ptr list"
  p_top :: size_t

definition pool_new :: "nat \<Rightarrow> pool" where
  "pool_new n = \<lparr>p_free = fold (\<lambda>i free. free[i := Some i]) [0..<n] (replicate n None),
                 p_top = word_of_nat n\<rparr>"

definition acquire :: "pool \<Rightarrow> (obj_ptr \<times> pool) res" where
  "acquire p =
     (if p_top p = 0 then Inr (None, p)
      else res_bind (arr_get (p_free p) (p_top p - 1)) (\<lambda>r. Inr (r, p\<lparr>p_top := p_top p - 1\<rparr>)))"

definition release :: "pool \<Rightarrow> obj_ptr \<Rightarrow> pool res" where
  "release p r =
     (if r = None \<or> p_top p \<ge> size_of_list (p_free p) then Inr p
      else res_bind (arr_set (p_free p) (p_top p) r)
             (\<lambda>free. Inr (p\<lparr>p_free := free, p_top := p_top p + 1\<rparr>)))"

definition available :: "pool \<Rightarrow> size_t" where
  "available p = p_top p"

section \<open>Pools that check objects out\<close>

datatype pool_op = Acquire | Release nat

text \<open>
  A client that follows the rules: \<open>held\<close> are the objects it has checked out, \<open>Release k\<close> gives
  back the one at position \<open>k\<close>. \<open>pool_run\<close> also collects what \<open>acquire\<close> returned.
\<close>

fun pool_run :: "('p \<Rightarrow> (obj_ptr \<times> 'p) res) \<Rightarrow> ('p \<Rightarrow> obj_ptr \<Rightarrow> 'p res) \<Rightarrow> pool_op list
    \<Rightarrow> 'p \<times> nat list \<Rightarrow> (obj_ptr list \<times> 'p \<times> nat list) res" where
  "pool_run acq rel [] (p, held) = Inr ([], p, held)"
| "pool_run acq rel (Acquire # ops) (p, held) =
     res_bind (acq p) (\<lambda>(r, p').
     res_bind (pool_run acq rel ops (p', case r of None \<Rightarrow> held | Some i \<Rightarrow> i # held))
       (\<lambda>(rs, s). Inr (r # rs, s)))"
| "pool_run acq rel (Release k # ops) (p, held) =
     (if k < length held
      then res_bind (rel p (Some (held ! k)))
             (\<lambda>p'. pool_run acq rel ops (p', take k held @ drop (Suc k) held))
      else pool_run acq rel ops (p, held))"

locale checkout_pool =
  fixes acq :: "'p \<Rightarrow> (obj_ptr \<times> 'p) res"
    and rel :: "'p \<Rightarrow> obj_ptr \<Rightarrow> 'p res"
    and inv :: "'p \<Rightarrow> bool"
    and free :: "'p \<Rightarrow> nat set"
    and size :: "'p \<Rightarrow> nat"
  assumes free_slots: "inv p \<Longrightarrow> free p \<subseteq> {..<size p}"
    and acquire_none: "inv p \<Longrightarrow> free p = {} \<Longrightarrow> acq p = Inr (None, p)"
    and acquire_some: "inv p \<Longrightarrow> free p \<noteq> {} \<Longrightarrow>
      \<exists>i p'. acq p = Inr (Some i, p') \<and> inv p' \<and> i \<in> free p \<and> free p' = free p - {i} \<and> size p' = size p"
    and release_held: "inv p \<Longrightarrow> i < size p \<Longrightarrow> i \<notin> free p \<Longrightarrow>
      \<exists>p'. rel p (Some i) = Inr p' \<and> inv p' \<and> free p' = insert i (free p) \<and> size p' = size p"
begin

definition consistent :: "'p \<times> nat list \<Rightarrow> bool" where
  "consistent s \<longleftrightarrow> inv (fst s) \<and> distinct (snd s)
     \<and> set (snd s) = {..<size (fst s)} - free (fst s)"

lemma take_drop_without:
  assumes "distinct xs" and "k < length xs"
  shows "distinct (take k xs @ drop (Suc k) xs)"
    and "set (take k xs @ drop (Suc k) xs) = set xs - {xs ! k}"
proof -
  have split: "xs = take k xs @ xs ! k # drop (Suc k) xs" using assms(2) by (rule id_take_nth_drop)
  then have "distinct (take k xs @ xs ! k # drop (Suc k) xs)" using assms(1) by simp
  then show "distinct (take k xs @ drop (Suc k) xs)" by auto
  have "set xs = set (take k xs) \<union> {xs ! k} \<union> set (drop (Suc k) xs)"
    by (subst split) auto
  with \<open>distinct (take k xs @ xs ! k # drop (Suc k) xs)\<close>
  show "set (take k xs @ drop (Suc k) xs) = set xs - {xs ! k}" by auto
qed

lemma run_consistent:
  assumes "consistent s"
  shows "\<exists>rs s'. pool_run acq rel ops s = Inr (rs, s') \<and> consistent s' \<and> size (fst s') = size (fst s)"
  using assms
proof (induction ops arbitrary: s)
  case Nil
  then show ?case by (cases s) simp
next
  case (Cons op ops)
  obtain p held where s: "s = (p, held)" by (cases s)
  have p: "inv p" "distinct held" "set held = {..<size p} - free p"
    using Cons.prems s by (simp_all add: consistent_def)
  show ?case
  proof (cases op)
    case Acquire
    show ?thesis
    proof (cases "free p = {}")
      case True
      then have a: "acq p = Inr (None, p)" by (rule acquire_none [OF p(1)])
      obtain rs s' where "pool_run acq rel ops (p, held) = Inr (rs, s')" "consistent s'"
        "size (fst s') = size p"
        using Cons.IH [of "(p, held)"] Cons.prems s by auto
      with a show ?thesis by (simp add: s Acquire)
    next
      case False
      obtain i p' where a: "acq p = Inr (Some i, p')" "inv p'" "i \<in> free p" "free p' = free p - {i}"
        "size p' = size p"
        using acquire_some [OF p(1) False] by blast
      have "consistent (p', i # held)"
        using a p free_slots [OF p(1)] by (auto simp: consistent_def)
      from Cons.IH [OF this] obtain rs s' where
        "pool_run acq rel ops (p', i # held) = Inr (rs, s')" "consistent s'" "size (fst s') = size p"
        using a(5) by auto
      with a(1) show ?thesis by (simp add: s Acquire)
    qed
  next
    case (Release k)
    show ?thesis
    proof (cases "k < length held")
      case True
      then have "held ! k \<in> set held" by simp
      with p have k: "held ! k < size p" "held ! k \<notin> free p" by auto
      obtain p' where r: "rel p (Some (held ! k)) = Inr p'" "inv p'" "free p' = insert (held ! k) (free p)"
        "size p' = size p"
        using release_held [OF p(1) k] by blast
      have "consistent (p', take k held @ drop (Suc k) held)"
        using r p k take_drop_without [OF p(2) True]
        by (simp only: consistent_def fst_conv snd_conv) auto
      from Cons.IH [OF this] r(1,4) True show ?thesis by (simp add: s Release)
    next
      case False
      with Cons.IH [of s] Cons.prems s Release show ?thesis by simp
    qed
  qed
qed

end

section \<open>The stack is such a pool\<close>

definition pool_size :: "pool \<Rightarrow> nat" where
  "pool_size p = length (p_free p)"

definition free_list :: "pool \<Rightarrow> obj_ptr list" where
  "free_list p = take (unat (p_top p)) (p_free p)"

definition free_slots :: "pool \<Rightarrow> nat set" where
  "free_slots p = {i. Some i \<in> set (free_list p)}"

definition stack_inv :: "pool \<Rightarrow> bool" where
  "stack_inv p \<longleftrightarrow> length (p_free p) < 2 ^ 64 \<and> unat (p_top p) \<le> length (p_free p)"

definition pool_inv :: "pool \<Rightarrow> bool" where
  "pool_inv p \<longleftrightarrow> stack_inv p \<and> distinct (free_list p)
     \<and> set (free_list p) \<subseteq> Some ` {..<pool_size p}"

text \<open>Whatever the pointers are, the two operations push and pop on \<open>free_list\<close>.\<close>

lemma acquire_pop:
  assumes "stack_inv p"
  shows "acquire p = (if free_list p = [] then Inr (None, p)
      else Inr (last (free_list p), p\<lparr>p_top := p_top p - 1\<rparr>))"
    and "free_list p \<noteq> [] \<Longrightarrow> free_list (p\<lparr>p_top := p_top p - 1\<rparr>) = butlast (free_list p)
      \<and> stack_inv (p\<lparr>p_top := p_top p - 1\<rparr>)"
proof -
  have len: "length (free_list p) = unat (p_top p)" using assms by (simp add: free_list_def stack_inv_def)
  then have nil: "free_list p = [] \<longleftrightarrow> p_top p = 0" by (metis length_0_conv unat_eq_zero)
  have pred: "unat (p_top p - 1) = unat (p_top p) - 1" "0 < unat (p_top p)" if "p_top p \<noteq> 0"
    using that by (simp_all add: unat_minus_one unat_gt_0)
  show "acquire p = (if free_list p = [] then Inr (None, p)
      else Inr (last (free_list p), p\<lparr>p_top := p_top p - 1\<rparr>))"
  proof (cases "p_top p = 0")
    case False
    have "last (free_list p) = p_free p ! (unat (p_top p) - 1)"
      using False nil pred(2) len by (simp add: last_conv_nth) (simp add: free_list_def)
    moreover have "unat (p_top p - 1) < length (p_free p)"
      using pred [OF False] assms by (simp only: stack_inv_def) linarith
    ultimately show ?thesis using False pred(1) [OF False] by (simp add: acquire_def nil)
  qed (simp add: acquire_def nil)
  show "free_list (p\<lparr>p_top := p_top p - 1\<rparr>) = butlast (free_list p) \<and> stack_inv (p\<lparr>p_top := p_top p - 1\<rparr>)"
    if "free_list p \<noteq> []"
    using that assms pred unfolding nil
    by (auto simp: free_list_def stack_inv_def butlast_take)
qed

lemma release_push:
  assumes "stack_inv p"
  shows "\<exists>p'. release p r = Inr p' \<and> stack_inv p' \<and> pool_size p' = pool_size p
    \<and> free_list p' = (if r = None \<or> length (free_list p) = pool_size p then free_list p
                      else free_list p @ [r])"
proof -
  have len: "length (free_list p) = unat (p_top p)" using assms by (simp add: free_list_def stack_inv_def)
  have full: "p_top p \<ge> size_of_list (p_free p) \<longleftrightarrow> unat (p_top p) = pool_size p"
    using assms by (auto simp: word_le_nat_alt pool_size_def stack_inv_def)
  show ?thesis
  proof (cases "r = None \<or> unat (p_top p) = pool_size p")
    case True
    with assms len show ?thesis by (simp add: release_def full)
  next
    case False
    then have room: "unat (p_top p) < length (p_free p)" using assms by (auto simp: stack_inv_def pool_size_def)
    then have "unat (p_top p + 1) = Suc (unat (p_top p))"
      using assms by (simp add: unat_add_no_wrap stack_inv_def)
    with False room assms len show ?thesis
      by (auto simp: release_def full free_list_def stack_inv_def pool_size_def take_Suc_conv_app_nth)
  qed
qed

lemma pool_new_free: "p_free (pool_new n) = map Some [0..<n]"
proof -
  have "fold (\<lambda>i free. free[i := Some i]) [0..<m] (replicate n None)
      = map Some [0..<m] @ replicate (n - m) None" if "m \<le> n" for m
    using that
  proof (induction m)
    case (Suc m)
    then show ?case by (cases "n - m") (auto simp: list_update_append)
  qed simp
  then show ?thesis by (simp add: pool_new_def)
qed

lemma pool_new_inv:
  assumes "n < 2 ^ 64"
  shows "pool_inv (pool_new n)" and "pool_size (pool_new n) = n"
    and "free_list (pool_new n) = map Some [0..<n]"
proof -
  show size: "pool_size (pool_new n) = n" by (simp add: pool_size_def pool_new_free)
  have "unat (p_top (pool_new n)) = n" using assms by (simp add: pool_new_def)
  then show list: "free_list (pool_new n) = map Some [0..<n]" by (simp add: free_list_def pool_new_free)
  show "pool_inv (pool_new n)"
    using assms \<open>unat (p_top (pool_new n)) = n\<close>
    by (auto simp: pool_inv_def stack_inv_def size list pool_new_free distinct_map)
qed

interpretation object_pool: checkout_pool acquire release pool_inv free_slots pool_size
proof
  fix p i assume p: "pool_inv p"
  then have stack: "stack_inv p" and dist: "distinct (free_list p)"
    and sub: "set (free_list p) \<subseteq> Some ` {..<pool_size p}" by (simp_all add: pool_inv_def)
  have empty: "free_slots p = {} \<longleftrightarrow> free_list p = []"
    using sub by (cases "free_list p") (auto simp: free_slots_def)
  show "free_slots p \<subseteq> {..<pool_size p}" using sub by (auto simp: free_slots_def)
  show "acquire p = Inr (None, p)" if "free_slots p = {}"
    using that acquire_pop(1) [OF stack] by (simp add: empty)
  show "\<exists>i p'. acquire p = Inr (Some i, p') \<and> pool_inv p' \<and> i \<in> free_slots p
      \<and> free_slots p' = free_slots p - {i} \<and> pool_size p' = pool_size p" if "free_slots p \<noteq> {}"
  proof -
    have ne: "free_list p \<noteq> []" using that empty by simp
    let ?p = "p\<lparr>p_top := p_top p - 1\<rparr>"
    have split: "free_list p = free_list ?p @ [last (free_list p)]" and st: "stack_inv ?p"
      using acquire_pop(2) [OF stack ne] ne by simp_all
    obtain i where i: "last (free_list p) = Some i" using sub last_in_set [OF ne] by auto
    have acq: "acquire p = Inr (Some i, ?p)" using acquire_pop(1) [OF stack] ne i by simp
    have "distinct (free_list ?p @ [Some i])" "set (free_list ?p @ [Some i]) \<subseteq> Some ` {..<pool_size p}"
      using dist sub split i by simp_all
    then have "pool_inv ?p" "i \<in> free_slots p" "free_slots ?p = free_slots p - {i}"
      unfolding pool_inv_def free_slots_def using st split i by (auto simp: pool_size_def)
    with acq show ?thesis by (auto simp: pool_size_def)
  qed
  show "\<exists>p'. release p (Some i) = Inr p' \<and> pool_inv p' \<and> free_slots p' = insert i (free_slots p)
      \<and> pool_size p' = pool_size p" if i: "i < pool_size p" "i \<notin> free_slots p"
  proof -
    have "set (free_list p) \<subseteq> Some ` ({..<pool_size p} - {i})"
      using sub i(2) by (auto simp: free_slots_def)
    then have "card (set (free_list p)) \<le> card (Some ` ({..<pool_size p} - {i}))"
      by (intro card_mono) auto
    then have "length (free_list p) < pool_size p"
      using i(1) distinct_card [OF dist] by (simp add: card_image)
    with release_push [OF stack, of "Some i"] show ?thesis
      using dist sub i by (auto simp: pool_inv_def free_slots_def)
  qed
qed

section \<open>Properties\<close>

text \<open>
  C17: A client that only gives back objects it holds never gets an object twice: after any
  sequence of \<open>acquire\<close> and \<open>release\<close> on a new pool, which never fails, the objects it holds are
  distinct slots of the pool, and the pool still has exactly the others, as many as \<open>available()\<close>
  says; so \<open>acquire\<close> returns null exactly when all \<open>N\<close> objects are held.
\<close>

theorem pool_exclusive:
  assumes n: "n < 2 ^ 64"
  shows "\<exists>rs p held. pool_run acquire release ops (pool_new n, []) = Inr (rs, p, held)
       \<and> distinct held \<and> set held \<subseteq> {..<n} \<and> free_slots p = {..<n} - set held
       \<and> unat (available p) + length held = n
       \<and> (fst (projr (acquire p)) = None \<longleftrightarrow> length held = n)"
proof -
  note new = pool_new_inv [OF n]
  have "free_slots (pool_new n) = {..<n}" by (auto simp: free_slots_def new(3))
  then have "object_pool.consistent (pool_new n, [])" by (simp add: object_pool.consistent_def new)
  from object_pool.run_consistent [OF this] obtain rs p held where
    run: "pool_run acquire release ops (pool_new n, []) = Inr (rs, p, held)"
    and c: "object_pool.consistent (p, held)" and size: "pool_size p = n"
    using new(2) by fastforce
  have p: "pool_inv p" "distinct held" "set held = {..<n} - free_slots p"
    using c size by (simp_all add: object_pool.consistent_def)
  have sub: "free_slots p \<subseteq> {..<n}" using object_pool.free_slots [OF p(1)] size by simp
  have inj: "Some ` free_slots p = set (free_list p)"
    using p(1) by (auto simp: free_slots_def pool_inv_def)
  have "card (free_slots p) = card (set (free_list p))"
    unfolding inj [symmetric] by (simp add: card_image)
  also have "\<dots> = unat (available p)"
    using p(1) distinct_card [of "free_list p"]
    by (simp add: pool_inv_def available_def) (simp add: free_list_def stack_inv_def)
  finally have avail: "card (free_slots p) = unat (available p)" .
  have "length held = n - card (free_slots p)"
    using p(2,3) sub distinct_card [OF p(2)] by (simp add: card_Diff_subset finite_subset)
  moreover have "card (free_slots p) \<le> n" using card_mono [OF _ sub] by simp
  ultimately have total: "unat (available p) + length held = n" using avail by simp
  have "fst (projr (acquire p)) = None \<longleftrightarrow> free_slots p = {}"
    using object_pool.acquire_none [OF p(1)] object_pool.acquire_some [OF p(1)] by fastforce
  also have "\<dots> \<longleftrightarrow> length held = n"
    using total avail card_0_eq [OF finite_subset [OF sub]] by auto
  finally have null: "fst (projr (acquire p)) = None \<longleftrightarrow> length held = n" .
  have "set held \<subseteq> {..<n}" "free_slots p = {..<n} - set held" using p(3) sub by auto
  with run p(2) total null show ?thesis by (intro exI conjI)
qed

theorem pool_exclusive_witness:
  "\<exists>rs p held. pool_run acquire release [Acquire, Acquire, Release 1, Acquire] (pool_new 2, [])
      = Inr (rs, p, held) \<and> distinct held \<and> unat (available p) + length held = 2"
  using pool_exclusive [of 2 "[Acquire, Acquire, Release 1, Acquire]"] by auto

text \<open>
  Whatever pointers are given back, foreign, null or twice the same, no operation leaves the
  bounds of the array: \<open>release\<close> drops null pointers and pointers beyond \<open>N\<close>, and otherwise the
  next \<open>acquire\<close> returns the pointer given back last, with the pool as it was before.
\<close>

theorem pool_stack_discipline:
  assumes inv: "stack_inv p"
  shows "\<exists>p'. release p r = Inr p' \<and> stack_inv p'
       \<and> (if r = None \<or> unat (available p) = pool_size p then p' = p
          else unat (available p') = Suc (unat (available p))
            \<and> (\<exists>p''. acquire p' = Inr (r, p'') \<and> stack_inv p'' \<and> free_list p'' = free_list p))"
proof -
  have len: "length (free_list q) = unat (available q)" if "stack_inv q" for q
    using that by (simp add: free_list_def stack_inv_def available_def)
  obtain p' where p': "release p r = Inr p'" "stack_inv p'"
    "free_list p' = (if r = None \<or> length (free_list p) = pool_size p then free_list p else free_list p @ [r])"
    using release_push [OF inv] by blast
  show ?thesis
  proof (cases "r = None \<or> unat (available p) = pool_size p")
    case True
    then have "release p r = Inr p"
      using inv by (auto simp: release_def available_def pool_size_def word_le_nat_alt stack_inv_def)
    with True inv show ?thesis by simp
  next
    case False
    then have l: "free_list p' = free_list p @ [r]" using p'(3) len [OF inv] by simp
    then have "unat (available p') = Suc (unat (available p))"
      using len [OF p'(2)] len [OF inv] by simp
    with False p'(1,2) acquire_pop [OF p'(2)] show ?thesis by (auto simp: l)
  qed
qed

theorem pool_stack_discipline_witness:
  "\<exists>p'. release (pool_new 2\<lparr>p_top := 1\<rparr>) (Some 77) = Inr p' \<and> stack_inv p'"
  using pool_stack_discipline [of "pool_new 2\<lparr>p_top := 1\<rparr>" "Some 77"]
  by (auto simp: stack_inv_def pool_new_free)

text \<open>
  The pool does not notice a double release: with at least two objects out, giving the same
  object back twice makes the next two calls of \<open>acquire\<close> hand it out to two owners.
\<close>

theorem pool_double_release:
  assumes inv: "stack_inv p" and room: "unat (available p) + 2 \<le> pool_size p"
  shows "\<exists>p1 p2 p3 p4. release p (Some i) = Inr p1 \<and> release p1 (Some i) = Inr p2
       \<and> acquire p2 = Inr (Some i, p3) \<and> acquire p3 = Inr (Some i, p4)"
proof -
  have len: "length (free_list q) = unat (available q)" if "stack_inv q" for q
    using that by (simp add: free_list_def stack_inv_def available_def)
  obtain p1 where p1: "release p (Some i) = Inr p1" "stack_inv p1" "pool_size p1 = pool_size p"
    "free_list p1 = free_list p @ [Some i]"
    using release_push [OF inv, of "Some i"] room len [OF inv] by auto
  obtain p2 where p2: "release p1 (Some i) = Inr p2" "stack_inv p2"
    "free_list p2 = free_list p @ [Some i, Some i]"
    using release_push [OF p1(2), of "Some i"] room len [OF inv] p1(3,4) by auto
  note pop = acquire_pop [OF p2(2)]
  let ?p3 = "p2\<lparr>p_top := p_top p2 - 1\<rparr>"
  have p3: "acquire p2 = Inr (Some i, ?p3)" "stack_inv ?p3" "free_list ?p3 = free_list p @ [Some i]"
    using pop p2(3) by (simp_all add: butlast_append)
  then have "\<exists>p4. acquire ?p3 = Inr (Some i, p4)" using acquire_pop(1) [OF p3(2)] by simp
  with p1 p2 p3 show ?thesis by blast
qed

theorem pool_double_release_witness:
  "\<exists>p1 p2 p3 p4. release (pool_new 2\<lparr>p_top := 0\<rparr>) (Some 1) = Inr p1 \<and> release p1 (Some 1) = Inr p2
     \<and> acquire p2 = Inr (Some 1, p3) \<and> acquire p3 = Inr (Some 1, p4)"
  using pool_double_release [of "pool_new 2\<lparr>p_top := 0\<rparr>" 1]
  by (simp add: stack_inv_def pool_new_free available_def pool_size_def)

end
