(* ===== verification/CacheLine.thy ===== *)
theory CacheLine
  imports Arena
begin

text \<open>
  Cache lines: \<open>include/ll/cache_line.hpp\<close> and the layout of the members of \<open>ll::SpscQueue\<close>, whose
  \<open>alignas(kCacheLine)\<close> keeps the consumer's index, the producer's index and the slots on different
  lines. Sizes and addresses of live objects are natural numbers: an object lies within the
  address space.
\<close>

section \<open>Lines and padding\<close>

text \<open>\<open>interference\<close> is \<open>std::hardware_destructive_interference_size\<close>, when the library has it.\<close>

definition kCacheLine :: "nat option \<Rightarrow> nat" where
  "kCacheLine interference = (case interference of Some n \<Rightarrow> n | None \<Rightarrow> 64)"

definition round_up_to :: "nat \<Rightarrow> nat \<Rightarrow> nat" where
  "round_up_to a n = (n + (a - 1)) div a * a"

text \<open>
  The layout of a class: every member is at the next multiple of its alignment, and the size is
  rounded up to the largest alignment. A member is its size and its alignment.
\<close>

fun member_offsets :: "nat \<Rightarrow> (nat \<times> nat) list \<Rightarrow> nat list" where
  "member_offsets at [] = []"
| "member_offsets at ((sz, al) # ms) =
     (let off = round_up_to al at in off # member_offsets (off + sz) ms)"

fun members_end :: "nat \<Rightarrow> (nat \<times> nat) list \<Rightarrow> nat" where
  "members_end at [] = at"
| "members_end at ((sz, al) # ms) = members_end (round_up_to al at + sz) ms"

definition class_align :: "(nat \<times> nat) list \<Rightarrow> nat" where
  "class_align ms = foldr (\<lambda>(sz, al). max al) ms 1"

definition class_size :: "(nat \<times> nat) list \<Rightarrow> nat" where
  "class_size ms = round_up_to (class_align ms) (members_end 0 ms)"

text \<open>\<open>CacheLinePadded<T>\<close>: the alignment of the class is a line, or that of \<open>T\<close> if it is larger.\<close>

definition padded_align :: "nat \<Rightarrow> nat \<Rightarrow> nat" where
  "padded_align line al = max line al"

definition padded_size :: "nat \<Rightarrow> nat \<Rightarrow> nat \<Rightarrow> nat" where
  "padded_size line sz al = round_up_to (padded_align line al) sz"

text \<open>The members of \<open>SpscQueue<T, Capacity>\<close>, an atomic index having 8 bytes.\<close>

definition spsc_members :: "nat \<Rightarrow> nat \<Rightarrow> nat \<Rightarrow> nat \<Rightarrow> (nat \<times> nat) list" where
  "spsc_members line capacity sz al = [(8, max line 8), (8, max line 8), (capacity * sz, max line al)]"

section \<open>Objects on different lines\<close>

definition lines_of :: "nat \<Rightarrow> nat \<Rightarrow> nat \<Rightarrow> nat set" where
  "lines_of line at sz = (\<lambda>i. (at + i) div line) ` {..<sz}"

lemma lines_apart:
  assumes "line dvd b" and "a + n \<le> b" and "0 < line"
  shows "lines_of line a n \<inter> lines_of line b m = {}"
proof -
  have "(a + i) div line < (b + j) div line" if "i < n" for i j
  proof -
    obtain q where q: "b = line * q" using assms(1) by (rule dvdE)
    have "a + i < line * q" using that assms(2) q by simp
    then have "(a + i) div line < q" by (simp add: div_less_iff_less_mult assms(3) mult.commute)
    also have "q \<le> (b + j) div line" using assms(3) by (simp add: q)
    finally show ?thesis .
  qed
  then show ?thesis by (force simp: lines_of_def)
qed

lemma round_up_to:
  assumes "0 < a"
  shows "a dvd round_up_to a n" and "n \<le> round_up_to a n" and "round_up_to a n < n + a"
  unfolding round_up_to_def using round_up [OF assms, of n] by blast+

section \<open>Properties\<close>

text \<open>
  C39: No false sharing in the queue: for an object at an address aligned as its class asks for, the
  index of the consumer, the index of the producer and the slots have no cache line in common, and
  they lie within the object.
\<close>

theorem spsc_no_false_sharing:
  assumes line: "line = 2 ^ k" and al: "al = 2 ^ j" and obj: "class_align (spsc_members line capacity sz al) dvd at"
  defines "off \<equiv> member_offsets 0 (spsc_members line capacity sz al)"
  shows "length off = 3
    \<and> lines_of line (at + off ! 0) 8 \<inter> lines_of line (at + off ! 1) 8 = {}
    \<and> lines_of line (at + off ! 0) 8 \<inter> lines_of line (at + off ! 2) (capacity * sz) = {}
    \<and> lines_of line (at + off ! 1) 8 \<inter> lines_of line (at + off ! 2) (capacity * sz) = {}
    \<and> off ! 2 + capacity * sz \<le> class_size (spsc_members line capacity sz al)"
proof -
  have pow: "line dvd max line (2 ^ i)" for i
    unfolding line by (cases "k \<le> i") (auto simp: max_def le_imp_power_dvd)
  have l8: "line dvd max line 8" using pow [of 3] by simp
  have la: "line dvd max line al" using pow [of j] al by simp
  have pos: "0 < line" "0 < max line 8" "0 < max line al" by (simp_all add: line al less_max_iff_disj)
  let ?o1 = "round_up_to (max line 8) 8" and ?o2 = "round_up_to (max line al) (round_up_to (max line 8) 8 + 8)"
  have off: "off = [0, ?o1, ?o2]"
    by (simp add: off_def spsc_members_def Let_def round_up_to_def)
  have align: "class_align (spsc_members line capacity sz al) = max (max line 8) (max line al)"
    using pos by (simp add: class_align_def spsc_members_def)
  have at: "line dvd at"
  proof -
    have "line dvd max (max line 8) (max line al)" using l8 la by (auto simp: max_def)
    then show ?thesis using obj unfolding align by (rule dvd_trans)
  qed
  have o1: "line dvd ?o1" "8 \<le> ?o1" and o2: "line dvd ?o2" "?o1 + 8 \<le> ?o2"
    using round_up_to [OF pos(2), of 8] round_up_to [OF pos(3), of "?o1 + 8"] l8 la dvd_trans by blast+
  have "lines_of line at 8 \<inter> lines_of line (at + ?o1) 8 = {}"
    using at o1 pos(1) by (intro lines_apart) simp_all
  moreover have "lines_of line at 8 \<inter> lines_of line (at + ?o2) (capacity * sz) = {}"
    using at o1 o2 pos(1) by (intro lines_apart) simp_all
  moreover have "lines_of line (at + ?o1) 8 \<inter> lines_of line (at + ?o2) (capacity * sz) = {}"
    using at o2 pos(1) by (intro lines_apart) simp_all
  moreover have "?o2 + capacity * sz \<le> class_size (spsc_members line capacity sz al)"
  proof -
    have "0 < class_align (spsc_members line capacity sz al)" using pos by (simp add: align)
    from round_up_to(2) [OF this] show ?thesis
      unfolding class_size_def by (simp add: spsc_members_def round_up_to_def)
  qed
  ultimately show ?thesis by (simp add: off)
qed

theorem spsc_no_false_sharing_witness:
  "member_offsets 0 (spsc_members 64 8 4 4) = [0, 64, 128]
   \<and> lines_of 64 (4096 + 64) 8 \<inter> lines_of 64 (4096 + 128) (8 * 4) = {}"
proof -
  have off: "member_offsets 0 (spsc_members 64 8 4 4) = [0, 64, 128]"
    by (simp add: spsc_members_def round_up_to_def)
  have nth: "[0, 64, 128 :: nat] ! 1 = 64" "[0, 64, 128 :: nat] ! 2 = 128" by simp_all
  have "class_align (spsc_members 64 8 4 4) dvd 4096" by (simp add: class_align_def spsc_members_def)
  from spsc_no_false_sharing [OF _ _ this, of 6 2]
  have "lines_of 64 (4096 + [0, 64, 128] ! 1) 8 \<inter> lines_of 64 (4096 + [0, 64, 128] ! 2) (8 * 4) = {}"
    unfolding off by simp
  with off show ?thesis unfolding nth by blast
qed

text \<open>Neighbours in an array of \<open>CacheLinePadded<T>\<close> are on different lines too.\<close>

theorem padded_no_false_sharing:
  assumes line: "line = 2 ^ k" and al: "al = 2 ^ j" and at: "padded_align line al dvd at" and "m < n"
  shows "lines_of line (at + m * padded_size line sz al) sz
    \<inter> lines_of line (at + n * padded_size line sz al) sz = {}"
proof -
  let ?s = "padded_size line sz al"
  have pos: "0 < line" "0 < padded_align line al" by (simp_all add: line padded_align_def less_max_iff_disj)
  have pad: "line dvd padded_align line al"
    unfolding line al padded_align_def
    by (cases "k \<le> j") (auto simp: max_def le_imp_power_dvd)
  note s = round_up_to [OF pos(2), of sz, folded padded_size_def]
  have "line dvd at + n * ?s" using at pad s(1) by (meson dvd_add dvd_mult dvd_trans)
  moreover have "at + m * ?s + sz \<le> at + n * ?s"
  proof -
    have "m * ?s + sz \<le> Suc m * ?s" using s(2) by simp
    also have "\<dots> \<le> n * ?s" using \<open>m < n\<close> by (intro mult_le_mono1) simp
    finally show ?thesis by simp
  qed
  ultimately show ?thesis using pos(1) by (intro lines_apart)
qed

text \<open>Within the array of the slots, neighbours smaller than a line do share one.\<close>

lemma slots_share_a_line:
  assumes "0 < sz" and "2 * sz \<le> line" and "line dvd at"
  shows "lines_of line at sz \<inter> lines_of line (at + sz) sz \<noteq> {}"
proof -
  obtain q where q: "at = line * q" using assms(3) by (rule dvdE)
  have "at div line \<in> lines_of line at sz" using assms(1) by (auto simp: lines_of_def intro: image_eqI [of _ _ 0])
  moreover have "(at + sz) div line = at div line" using assms by (simp add: q)
  then have "at div line \<in> lines_of line (at + sz) sz"
    using assms(1) by (auto simp: lines_of_def intro: image_eqI [of _ _ 0])
  ultimately show ?thesis by blast
qed

end
