(* ===== verification/KernelBypass.thy ===== *)
theory KernelBypass
  imports Bytes
begin

text \<open>
  The poll-mode receive interface of \<open>include/ll/kernel_bypass.hpp\<close>: the contract of
  \<open>IPollModeRx::poll\<close> as a locale with its client, a polling loop; the stub backend
  \<open>StubPollModeRx\<close>, which is proved to meet the contract and to be a mailbox for one packet;
  the packet views, which point into the stub's buffer; and the build-time backend choice.
\<close>

section \<open>Packet views\<close>

text \<open>
  \<open>data\<close> is null or a position in the receive buffer of the backend: a view does not hold the
  packet, it shows what the buffer holds when it is read.
\<close>

record packet_view =
  pv_data :: "nat option"
  pv_length :: size_t
  pv_hw_timestamp_ns :: u64
  pv_port_id :: u16
  pv_queue_id :: u16

definition packet_view_default :: packet_view where
  "packet_view_default = \<lparr>pv_data = None, pv_length = 0, pv_hw_timestamp_ns = 0, pv_port_id = 0,
     pv_queue_id = 0\<rparr>"

definition view_bytes :: "u8 list \<Rightarrow> packet_view \<Rightarrow> u8 list res" where
  "view_bytes buf pv =
     (case pv_data pv of None \<Rightarrow> Inl Null_Deref
      | Some at \<Rightarrow> mem_read buf at (unat (pv_length pv)))"

section \<open>The contract of a poll-mode receiver\<close>

text \<open>
  \<open>poll\<close> fills a prefix of the caller's array and returns its length. \<open>waiting\<close> are the packets
  the receiver has for its user, in order, and \<open>packet s v\<close> is the packet a view shows in state
  \<open>s\<close>. The user polls in a loop with the same array and handles what each call delivered before
  the next call.
\<close>

fun poll_loop :: "('s \<Rightarrow> 'v list \<Rightarrow> size_t \<times> 'v list \<times> 's) \<Rightarrow> ('s \<Rightarrow> 'v \<Rightarrow> 'p) \<Rightarrow> nat \<Rightarrow> 's
    \<Rightarrow> 'v list \<Rightarrow> 'p list \<times> 's" where
  "poll_loop poll packet 0 s out = ([], s)"
| "poll_loop poll packet (Suc k) s out =
     (let (n, out', s') = poll s out;
          (ps, s'') = poll_loop poll packet k s' out'
      in (map (packet s') (take (unat n) out') @ ps, s''))"

locale poll_mode_rx =
  fixes poll :: "'s \<Rightarrow> 'v list \<Rightarrow> size_t \<times> 'v list \<times> 's"
    and inv :: "'s \<Rightarrow> bool"
    and waiting :: "'s \<Rightarrow> 'p list"
    and packet :: "'s \<Rightarrow> 'v \<Rightarrow> 'p"
  assumes poll_inv: "inv s \<Longrightarrow> poll s out = (n, out', s') \<Longrightarrow> inv s'"
    and poll_fills: "inv s \<Longrightarrow> poll s out = (n, out', s') \<Longrightarrow>
      unat n \<le> length out \<and> length out' = length out \<and> drop (unat n) out' = drop (unat n) out"
    and poll_delivers: "inv s \<Longrightarrow> poll s out = (n, out', s') \<Longrightarrow>
      map (packet s') (take (unat n) out') @ waiting s' = waiting s"
    and poll_progress: "inv s \<Longrightarrow> poll s out = (n, out', s') \<Longrightarrow> out \<noteq> [] \<Longrightarrow> waiting s \<noteq> [] \<Longrightarrow> n \<noteq> 0"
begin

text \<open>The loop delivers the waiting packets once each and in order.\<close>

lemma loop_delivers:
  assumes "inv s" and "poll_loop poll packet k s out = (ps, s')"
  shows "inv s' \<and> ps @ waiting s' = waiting s"
  using assms
proof (induction k arbitrary: s out ps)
  case (Suc k)
  obtain n out1 s1 where p: "poll s out = (n, out1, s1)" by (cases "poll s out")
  obtain ps1 where l: "poll_loop poll packet k s1 out1 = (ps1, s')"
    and ps: "ps = map (packet s1) (take (unat n) out1) @ ps1"
    using Suc.prems(2) p by (auto simp: Let_def split: prod.splits)
  from Suc.IH [OF poll_inv [OF Suc.prems(1) p] l] poll_delivers [OF Suc.prems(1) p]
  show ?case by (simp add: ps)
qed simp

text \<open>As many calls as packets are enough to empty the receiver.\<close>

lemma loop_drains:
  assumes "inv s" and "out \<noteq> []" and "length (waiting s) \<le> k"
    and "poll_loop poll packet k s out = (ps, s')"
  shows "ps = waiting s \<and> waiting s' = []"
  using assms
proof (induction k arbitrary: s out ps)
  case 0
  then show ?case by simp
next
  case (Suc k)
  obtain n out1 s1 where p: "poll s out = (n, out1, s1)" by (cases "poll s out")
  obtain ps1 where l: "poll_loop poll packet k s1 out1 = (ps1, s')"
    and ps: "ps = map (packet s1) (take (unat n) out1) @ ps1"
    using Suc.prems(4) p by (auto simp: Let_def split: prod.splits)
  have f: "unat n \<le> length out" "length out1 = length out" using poll_fills [OF Suc.prems(1) p] by auto
  have d: "map (packet s1) (take (unat n) out1) @ waiting s1 = waiting s"
    by (rule poll_delivers [OF Suc.prems(1) p])
  have "length (waiting s1) \<le> k"
  proof (cases "waiting s = []")
    case True
    with d show ?thesis by simp
  next
    case False
    then have "0 < unat n" using poll_progress [OF Suc.prems(1) p Suc.prems(2)] by (simp add: unat_gt_0)
    moreover have "length (waiting s) = unat n + length (waiting s1)"
      using f by (subst d [symmetric]) simp
    ultimately show ?thesis using Suc.prems(3) by simp
  qed
  moreover have "out1 \<noteq> []" using f(2) Suc.prems(2) by auto
  ultimately show ?case
    using Suc.IH [OF poll_inv [OF Suc.prems(1) p] _ _ l] d by (simp add: ps)
qed

end

section \<open>The stub backend\<close>

record stub_rx =
  rx_open :: bool
  rx_pending :: bool
  rx_port :: u16
  rx_queue :: u16
  rx_len :: size_t
  rx_slot :: "u8 list"

definition stub_new :: stub_rx where
  "stub_new = \<lparr>rx_open = False, rx_pending = False, rx_port = 0, rx_queue = 0, rx_len = 0,
     rx_slot = replicate 2048 0\<rparr>"

definition stub_open :: "stub_rx \<Rightarrow> u16 \<Rightarrow> u16 \<Rightarrow> bool \<times> stub_rx" where
  "stub_open rx port_id queue_id =
     (True, rx\<lparr>rx_port := port_id, rx_queue := queue_id, rx_open := True\<rparr>)"

definition stub_close :: "stub_rx \<Rightarrow> stub_rx" where
  "stub_close rx = rx\<lparr>rx_open := False\<rparr>"

definition inject_for_test :: "stub_rx \<Rightarrow> u8 list \<Rightarrow> stub_rx res" where
  "inject_for_test rx payload =
     (if size_of_list payload > size_of_list (rx_slot rx) then Inr rx
      else res_bind (mem_write (rx_slot rx) 0 payload)
             (\<lambda>slot. Inr (rx\<lparr>rx_slot := slot, rx_len := size_of_list payload, rx_pending := True\<rparr>)))"

text \<open>The views of the caller's array are overwritten in place; \<open>poll\<close> is \<open>noexcept\<close>.\<close>

definition stub_poll :: "stub_rx \<Rightarrow> packet_view list \<Rightarrow> size_t \<times> packet_view list \<times> stub_rx" where
  "stub_poll rx out =
     (if \<not> rx_open rx \<or> \<not> rx_pending rx \<or> out = [] then (0, out, rx)
      else (1, out[0 := \<lparr>pv_data = Some 0, pv_length = rx_len rx, pv_hw_timestamp_ns = 0,
                         pv_port_id = rx_port rx, pv_queue_id = rx_queue rx\<rparr>],
            rx\<lparr>rx_pending := False\<rparr>))"

definition stub_inv :: "stub_rx \<Rightarrow> bool" where
  "stub_inv rx \<longleftrightarrow> length (rx_slot rx) = 2048 \<and> unat (rx_len rx) \<le> 2048"

text \<open>What a user sees of a view: its port, its queue and the bytes it shows.\<close>

definition view_packet :: "stub_rx \<Rightarrow> packet_view \<Rightarrow> u16 \<times> u16 \<times> u8 list res" where
  "view_packet rx pv = (pv_port_id pv, pv_queue_id pv, view_bytes (rx_slot rx) pv)"

definition stub_waiting :: "stub_rx \<Rightarrow> (u16 \<times> u16 \<times> u8 list res) list" where
  "stub_waiting rx =
     (if rx_open rx \<and> rx_pending rx
      then [(rx_port rx, rx_queue rx, Inr (take (unat (rx_len rx)) (rx_slot rx)))] else [])"

interpretation stub: poll_mode_rx stub_poll stub_inv stub_waiting view_packet
proof
  fix rx out n out' rx'
  assume inv: "stub_inv rx" and p: "stub_poll rx out = (n, out', rx')"
  show "stub_inv rx'" using inv p by (auto simp: stub_poll_def stub_inv_def split: if_splits)
  show "unat n \<le> length out \<and> length out' = length out \<and> drop (unat n) out' = drop (unat n) out"
    using p by (cases out) (auto simp: stub_poll_def split: if_splits)
  show "map (view_packet rx') (take (unat n) out') @ stub_waiting rx' = stub_waiting rx"
    using inv p by (cases out)
      (auto simp: stub_poll_def stub_waiting_def view_packet_def view_bytes_def mem_read_def
        stub_inv_def split: if_splits)
  show "n \<noteq> 0" if "out \<noteq> []" "stub_waiting rx \<noteq> []"
    using that p by (auto simp: stub_poll_def stub_waiting_def split: if_splits)
qed

section \<open>The stub is a mailbox\<close>

text \<open>
  The abstract device: it is open or closed, remembers the port and queue it was opened with,
  and holds at most one packet, of at most 2048 bytes. A second packet replaces one that was
  not read; a packet that is too long is dropped.
\<close>

record mailbox =
  mb_open :: bool
  mb_port :: u16
  mb_queue :: u16
  mb_packet :: "u8 list option"

datatype rx_op = Open u16 u16 | Close | Inject "u8 list" | Poll nat

type_synonym received = "(u16 \<times> u16 \<times> u8 list res) list"

fun mailbox_step :: "mailbox \<Rightarrow> rx_op \<Rightarrow> received \<times> mailbox" where
  "mailbox_step m (Open p q) = ([], m\<lparr>mb_open := True, mb_port := p, mb_queue := q\<rparr>)"
| "mailbox_step m Close = ([], m\<lparr>mb_open := False\<rparr>)"
| "mailbox_step m (Inject bs) = ([], if length bs \<le> 2048 then m\<lparr>mb_packet := Some bs\<rparr> else m)"
| "mailbox_step m (Poll n) =
     (if mb_open m \<and> 0 < n
      then (case mb_packet m of None \<Rightarrow> []
            | Some bs \<Rightarrow> [(mb_port m, mb_queue m, Inr bs)], m\<lparr>mb_packet := None\<rparr>)
      else ([], m))"

text \<open>The stub's members, called by a user who polls with an array of \<open>n\<close> fresh views.\<close>

fun stub_step :: "stub_rx \<Rightarrow> rx_op \<Rightarrow> (received \<times> stub_rx) res" where
  "stub_step rx (Open p q) = Inr ([], snd (stub_open rx p q))"
| "stub_step rx Close = Inr ([], stub_close rx)"
| "stub_step rx (Inject bs) = res_bind (inject_for_test rx bs) (\<lambda>rx'. Inr ([], rx'))"
| "stub_step rx (Poll n) =
     (let (k, out, rx') = stub_poll rx (replicate n packet_view_default)
      in Inr (map (view_packet rx') (take (unat k) out), rx'))"

fun stub_steps :: "stub_rx \<Rightarrow> rx_op list \<Rightarrow> (received \<times> stub_rx) res" where
  "stub_steps rx [] = Inr ([], rx)"
| "stub_steps rx (op # ops) =
     res_bind (stub_step rx op) (\<lambda>(r, rx'). res_bind (stub_steps rx' ops) (\<lambda>(rs, rx''). Inr (r @ rs, rx'')))"

fun mailbox_steps :: "mailbox \<Rightarrow> rx_op list \<Rightarrow> received \<times> mailbox" where
  "mailbox_steps m [] = ([], m)"
| "mailbox_steps m (op # ops) =
     (let (r, m') = mailbox_step m op; (rs, m'') = mailbox_steps m' ops in (r @ rs, m''))"

definition mailbox_of :: "stub_rx \<Rightarrow> mailbox" where
  "mailbox_of rx = \<lparr>mb_open = rx_open rx, mb_port = rx_port rx, mb_queue = rx_queue rx,
     mb_packet = (if rx_pending rx then Some (take (unat (rx_len rx)) (rx_slot rx)) else None)\<rparr>"

fun payload_sized :: "rx_op \<Rightarrow> bool" where
  "payload_sized (Inject bs) \<longleftrightarrow> length bs < 2 ^ 64"
| "payload_sized _ \<longleftrightarrow> True"

lemma inject_eq:
  assumes "stub_inv rx" and "length bs < 2 ^ 64"
  shows "inject_for_test rx bs = Inr (if length bs \<le> 2048
    then rx\<lparr>rx_slot := bs @ drop (length bs) (rx_slot rx), rx_len := size_of_list bs, rx_pending := True\<rparr>
    else rx)"
  using assms
  by (auto simp: inject_for_test_def stub_inv_def word_less_nat_alt mem_write_def)

lemma stub_step_mailbox:
  assumes inv: "stub_inv rx" and op: "payload_sized op"
  shows "\<exists>r rx'. stub_step rx op = Inr (r, rx') \<and> stub_inv rx'
    \<and> mailbox_step (mailbox_of rx) op = (r, mailbox_of rx')"
proof (cases op)
  case (Inject bs)
  with inv op inject_eq [OF inv, of bs] show ?thesis
    by (auto simp: mailbox_of_def stub_inv_def)
next
  case (Poll n)
  obtain k out rx' where p: "stub_poll rx (replicate n packet_view_default) = (k, out, rx')"
    by (cases "stub_poll rx (replicate n packet_view_default)")
  have "map (view_packet rx') (take (unat k) out) @ stub_waiting rx' = stub_waiting rx"
    by (rule stub.poll_delivers [OF inv p])
  with p stub.poll_inv [OF inv p] show ?thesis
    by (auto simp: Poll stub_poll_def stub_waiting_def mailbox_of_def split: if_splits)
qed (use inv in \<open>simp_all add: stub_open_def stub_close_def mailbox_of_def stub_inv_def\<close>)

lemma stub_steps_mailbox:
  assumes "stub_inv rx" and "\<forall>op \<in> set ops. payload_sized op"
  shows "\<exists>r rx'. stub_steps rx ops = Inr (r, rx') \<and> stub_inv rx'
    \<and> mailbox_steps (mailbox_of rx) ops = (r, mailbox_of rx')"
  using assms
proof (induction ops arbitrary: rx)
  case (Cons op ops)
  from Cons.prems stub_step_mailbox [of rx op] obtain r rx' where
    s: "stub_step rx op = Inr (r, rx')" "stub_inv rx'"
      "mailbox_step (mailbox_of rx) op = (r, mailbox_of rx')" by auto
  with Cons.IH [of rx'] Cons.prems(2) show ?case by (auto simp: Let_def)
qed simp

section \<open>Backend choice\<close>

text \<open>
  The macros \<open>LL_HAS_DPDK\<close> and \<open>LL_HAS_ONLOAD\<close> are set by the build: they are the arguments of
  what depends on them.
\<close>

datatype backend = Backend_None | Backend_Stub | Backend_Dpdk | Backend_OpenOnload | Backend_EfVi

record build_config =
  LL_HAS_DPDK :: int
  LL_HAS_ONLOAD :: int

definition dpdk_built :: "build_config \<Rightarrow> bool" where
  "dpdk_built c \<longleftrightarrow> LL_HAS_DPDK c \<noteq> 0"

definition onload_built :: "build_config \<Rightarrow> bool" where
  "onload_built c \<longleftrightarrow> LL_HAS_ONLOAD c \<noteq> 0"

definition stub_backend :: backend where "stub_backend = Backend_Stub"

definition stub_name :: string where "stub_name = ''stub-poll-mode-rx''"

definition backend_status :: "build_config \<Rightarrow> string" where
  "backend_status c =
     (if dpdk_built c then ''dpdk-headers-present (implement rte_eth_rx_burst in lab)''
      else if onload_built c then ''onload/ef_vi-headers-present (implement EF_VI RX in lab)''
      else ''stub-only (no NIC SDK linked)'')"

definition make_default_rx :: stub_rx where "make_default_rx = stub_new"

definition preferred_backend_name :: "build_config \<Rightarrow> string" where
  "preferred_backend_name c =
     (if dpdk_built c then ''dpdk'' else if onload_built c then ''onload'' else ''stub'')"

record bypass_capabilities =
  cap_stub :: bool
  cap_dpdk :: bool
  cap_onload :: bool

definition capabilities :: "build_config \<Rightarrow> bypass_capabilities" where
  "capabilities c = \<lparr>cap_stub = True, cap_dpdk = dpdk_built c, cap_onload = onload_built c\<rparr>"

section \<open>The interface\<close>

text \<open>
  \<open>IPollModeRx\<close> as the table of its virtual functions, and the table of \<open>StubPollModeRx\<close>. A caller
  that holds an \<open>IPollModeRx&\<close> calls through the table; the contract of its \<open>poll\<close> is the locale.
\<close>

record 's poll_rx_table =
  vt_backend :: backend
  vt_name :: string
  vt_open :: "'s \<Rightarrow> u16 \<Rightarrow> u16 \<Rightarrow> bool \<times> 's"
  vt_close :: "'s \<Rightarrow> 's"
  vt_poll :: "'s \<Rightarrow> packet_view list \<Rightarrow> size_t \<times> packet_view list \<times> 's"

definition stub_table :: "stub_rx poll_rx_table" where
  "stub_table = \<lparr>vt_backend = stub_backend, vt_name = stub_name, vt_open = stub_open,
     vt_close = stub_close, vt_poll = stub_poll\<rparr>"

interpretation stub_dispatch: poll_mode_rx "vt_poll stub_table" stub_inv stub_waiting view_packet
  using stub.poll_mode_rx_axioms by (simp add: stub_table_def)

text \<open>Opening through the table makes a packet that was injected before available to the loop.\<close>

lemma stub_dispatch_delivers:
  assumes "stub_inv rx" and "length payload \<le> 2048" and "out \<noteq> []"
    and "inject_for_test rx payload = Inr rx1" and "vt_open stub_table rx1 port queue = (ok, rx2)"
    and "poll_loop (vt_poll stub_table) view_packet (Suc k) rx2 out = (ps, rx3)"
  shows "ok \<and> ps = [(port, queue, Inr payload)] \<and> stub_waiting rx3 = []"
proof -
  have rx1: "rx1 = rx\<lparr>rx_slot := payload @ drop (length payload) (rx_slot rx), rx_len := size_of_list payload,
      rx_pending := True\<rparr>" using assms(1,2,4) by (auto simp: inject_eq)
  have rx2: "ok" "rx2 = rx1\<lparr>rx_port := port, rx_queue := queue, rx_open := True\<rparr>"
    using assms(5) by (auto simp: stub_table_def stub_open_def)
  have "stub_inv rx2" "stub_waiting rx2 = [(port, queue, Inr payload)]"
    using assms(1,2) by (simp_all add: rx1 rx2 stub_inv_def stub_waiting_def)
  with stub_dispatch.loop_drains [OF _ assms(3) _ assms(6)] rx2(1) show ?thesis by simp
qed

section \<open>Properties\<close>

text \<open>
  C16: The stub behaves as a one-packet mailbox: for every sequence of \<open>open\<close>, \<open>close\<close>,
  \<open>inject_for_test\<close> and \<open>poll\<close> on a new stub, which never reads or writes outside its buffer,
  the packets the user reads through the returned views, with their port and queue, are those
  the mailbox delivers.
\<close>

theorem stub_is_mailbox:
  assumes "\<forall>op \<in> set ops. payload_sized op"
  shows "\<exists>received rx. stub_steps stub_new ops = Inr (received, rx) \<and> stub_inv rx
       \<and> mailbox_steps (mailbox_of stub_new) ops = (received, mailbox_of rx)"
  by (rule stub_steps_mailbox [OF _ assms]) (simp add: stub_inv_def stub_new_def)

theorem stub_is_mailbox_witness:
  "\<exists>rx. stub_steps stub_new [Inject [1, 2], Open 3 4, Inject [5], Poll 8, Poll 8]
     = Inr ([(3, 4, Inr [5])], rx)"
proof -
  let ?ops = "[Inject [1, 2], Open 3 4, Inject [5], Poll 8, Poll 8]"
  have "fst (mailbox_steps (mailbox_of stub_new) ?ops) = [(3, 4, Inr [5])]"
    by (simp add: mailbox_of_def stub_new_def)
  with stub_is_mailbox [of ?ops] show ?thesis by auto
qed

text \<open>
  A polling loop on the stub, with an array that is not empty, delivers the waiting packet
  once, and the receiver is then empty; every call fills only the entries it counts, at most as
  many as the array has.
\<close>

theorem stub_poll_contract:
  assumes inv: "stub_inv rx" and out: "out \<noteq> []" and p: "stub_poll rx out = (n, out', rx')"
  shows "unat n \<le> length out \<and> length out' = length out \<and> drop (unat n) out' = drop (unat n) out
       \<and> (n = 0 \<longleftrightarrow> stub_waiting rx = [])
       \<and> (\<forall>k ps rx''. poll_loop stub_poll view_packet (Suc k) rx out = (ps, rx'')
            \<longrightarrow> ps = stub_waiting rx \<and> stub_waiting rx'' = [])"
proof -
  have one: "length (stub_waiting rx) \<le> Suc k" for k by (simp add: stub_waiting_def)
  have "n = 0 \<longleftrightarrow> stub_waiting rx = []"
    using p out by (auto simp: stub_poll_def stub_waiting_def split: if_splits)
  with stub.poll_fills [OF inv p] stub.loop_drains [OF inv out one] show ?thesis by blast
qed

theorem stub_poll_contract_witness:
  "stub_waiting (stub_new\<lparr>rx_open := True, rx_pending := True\<rparr>) = [(0, 0, Inr [])]
   \<and> fst (poll_loop stub_poll view_packet 3 (stub_new\<lparr>rx_open := True, rx_pending := True\<rparr>)
        [packet_view_default]) = [(0, 0, Inr [])]"
proof -
  let ?rx = "stub_new\<lparr>rx_open := True, rx_pending := True\<rparr>"
  obtain ps rx'' where l: "poll_loop stub_poll view_packet (Suc 2) ?rx [packet_view_default] = (ps, rx'')"
    by (cases "poll_loop stub_poll view_packet (Suc 2) ?rx [packet_view_default]")
  have inv: "stub_inv ?rx" by (simp add: stub_inv_def stub_new_def)
  have w: "stub_waiting ?rx = [(0, 0, Inr [])]" by (simp add: stub_waiting_def stub_new_def)
  obtain n out' rx' where p: "stub_poll ?rx [packet_view_default] = (n, out', rx')"
    by (cases "stub_poll ?rx [packet_view_default]")
  have "ps = stub_waiting ?rx" using stub_poll_contract [OF inv _ p] l by blast
  with l w show ?thesis by (simp add: numeral_3_eq_3)
qed

text \<open>
  A view is only good until the next packet arrives: after one, the view returned before
  still has its old length but shows the first bytes of the new packet, and bytes of the old
  one only behind the end of the new.
\<close>

theorem stub_view_aliases:
  assumes inv: "stub_inv rx" and p: "stub_poll rx out = (1, out', rx')"
    and i: "inject_for_test rx' payload = Inr rx''" and len: "length payload \<le> 2048"
  shows "view_bytes (rx_slot rx') (out' ! 0) = Inr (take (unat (rx_len rx)) (rx_slot rx))
       \<and> view_bytes (rx_slot rx'') (out' ! 0) =
           Inr (take (unat (rx_len rx)) payload
                @ drop (length payload) (take (unat (rx_len rx)) (rx_slot rx)))"
proof -
  have o: "out \<noteq> []" "out' ! 0 = \<lparr>pv_data = Some 0, pv_length = rx_len rx, pv_hw_timestamp_ns = 0,
      pv_port_id = rx_port rx, pv_queue_id = rx_queue rx\<rparr>" "rx_slot rx' = rx_slot rx"
    using p by (auto simp: stub_poll_def split: if_splits)
  have "stub_inv rx'" by (rule stub.poll_inv [OF inv p])
  then have "rx_slot rx'' = payload @ drop (length payload) (rx_slot rx)"
    using i len o(3) by (auto simp: inject_eq)
  with inv len show ?thesis
    by (auto simp: view_bytes_def o(2,3) mem_read_def stub_inv_def drop_take)
qed

theorem stub_view_aliases_witness:
  "view_bytes ([9, 9] @ replicate 2046 0) \<lparr>pv_data = Some 0, pv_length = 3, pv_hw_timestamp_ns = 0,
     pv_port_id = 0, pv_queue_id = 0\<rparr> = Inr [9, 9, 0]"
proof -
  let ?rx = "stub_new\<lparr>rx_open := True, rx_pending := True, rx_len := 3\<rparr>"
  have inv: "stub_inv ?rx" by (simp add: stub_inv_def stub_new_def)
  have p: "stub_poll ?rx [packet_view_default] = (1, [\<lparr>pv_data = Some 0, pv_length = 3,
      pv_hw_timestamp_ns = 0, pv_port_id = 0, pv_queue_id = 0\<rparr>], ?rx\<lparr>rx_pending := False\<rparr>)"
    by (simp add: stub_poll_def stub_new_def)
  have i: "inject_for_test (?rx\<lparr>rx_pending := False\<rparr>) [9, 9]
      = Inr (?rx\<lparr>rx_slot := [9, 9] @ replicate 2046 0, rx_len := 2\<rparr>)"
    by (subst inject_eq) (simp_all add: stub_inv_def stub_new_def)
  from stub_view_aliases [OF inv p i] show ?thesis
    by (simp add: stub_new_def)
qed

end
