(* ===== verification/LatencyBuffer.thy ===== *)
theory LatencyBuffer
  imports Prelude
begin

text \<open>
  The fixed-capacity sample buffer \<open>ll::LatencyBuffer<Cap>\<close> of \<open>include/ll/tsc_clock.hpp\<close>. The
  clocks of that header, \<open>read_tsc\<close> and \<open>steady_ns\<close>, are in \<open>Platform\<close>: their readings are the samples
  passed in.
\<close>

section \<open>State and operations\<close>

record latency_buffer =
  lb_data :: "u64 list"
  lb_n :: size_t
  lb_dropped :: size_t

definition lb_new :: "nat \<Rightarrow> latency_buffer" where
  "lb_new cap = \<lparr>lb_data = replicate cap 0, lb_n = 0, lb_dropped = 0\<rparr>"

definition lb_try_push :: "latency_buffer \<Rightarrow> u64 \<Rightarrow> (bool \<times> latency_buffer) res" where
  "lb_try_push b sample_ns =
     (if lb_n b \<ge> size_of_list (lb_data b) then Inr (False, b\<lparr>lb_dropped := lb_dropped b + 1\<rparr>)
      else res_bind (arr_set (lb_data b) (lb_n b) sample_ns)
             (\<lambda>data. Inr (True, b\<lparr>lb_data := data, lb_n := lb_n b + 1\<rparr>)))"

definition lb_size :: "latency_buffer \<Rightarrow> size_t" where
  "lb_size b = lb_n b"

text \<open>The members \<open>dropped()\<close> and \<open>data()\<close>.\<close>

definition lb_dropped_count :: "latency_buffer \<Rightarrow> size_t" where
  "lb_dropped_count b = lb_dropped b"

definition lb_raw_data :: "latency_buffer \<Rightarrow> u64 list" where
  "lb_raw_data b = lb_data b"

definition lb_clear :: "latency_buffer \<Rightarrow> latency_buffer" where
  "lb_clear b = b\<lparr>lb_n := 0, lb_dropped := 0\<rparr>"

text \<open>Pushing a sequence of samples; the flags in order.\<close>

fun lb_push_all :: "latency_buffer \<Rightarrow> u64 list \<Rightarrow> (bool list \<times> latency_buffer) res" where
  "lb_push_all b [] = Inr ([], b)"
| "lb_push_all b (x # xs) =
     res_bind (lb_try_push b x) (\<lambda>(ok, b').
     res_bind (lb_push_all b' xs) (\<lambda>(oks, b''). Inr (ok # oks, b'')))"

section \<open>The recorded samples\<close>

definition lb_inv :: "latency_buffer \<Rightarrow> bool" where
  "lb_inv b \<longleftrightarrow> length (lb_data b) < 2 ^ 64 \<and> unat (lb_n b) \<le> length (lb_data b)"

definition lb_samples :: "latency_buffer \<Rightarrow> u64 list" where
  "lb_samples b = take (unat (lb_n b)) (lb_data b)"

lemma lb_try_push_step:
  assumes inv: "lb_inv b"
  shows "\<exists>b'. lb_try_push b x = Inr (length (lb_samples b) < length (lb_data b), b') \<and> lb_inv b'
    \<and> length (lb_data b') = length (lb_data b)
    \<and> (if length (lb_samples b) < length (lb_data b)
       then lb_samples b' = lb_samples b @ [x] \<and> lb_dropped b' = lb_dropped b
       else lb_samples b' = lb_samples b \<and> lb_dropped b' = lb_dropped b + 1)"
proof -
  have len: "length (lb_samples b) = unat (lb_n b)" using inv by (simp add: lb_samples_def lb_inv_def)
  have full: "lb_n b \<ge> size_of_list (lb_data b) \<longleftrightarrow> \<not> unat (lb_n b) < length (lb_data b)"
    using inv by (auto simp: word_le_nat_alt lb_inv_def)
  show ?thesis
  proof (cases "unat (lb_n b) < length (lb_data b)")
    case True
    then have "unat (lb_n b + 1) = Suc (unat (lb_n b))"
      using inv by (simp add: unat_add_no_wrap lb_inv_def)
    with True inv len show ?thesis
      by (auto simp: lb_try_push_def full lb_inv_def lb_samples_def take_Suc_conv_app_nth)
  next
    case False
    with inv len show ?thesis by (simp add: lb_try_push_def full lb_inv_def lb_samples_def)
  qed
qed

lemma lb_push_all_samples:
  assumes "lb_inv b"
  shows "\<exists>oks b'. lb_push_all b xs = Inr (oks, b') \<and> lb_inv b' \<and> length (lb_data b') = length (lb_data b)
    \<and> lb_samples b' = take (length (lb_data b)) (lb_samples b @ xs)
    \<and> oks = map (\<lambda>i. length (lb_samples b) + i < length (lb_data b)) [0..<length xs]
    \<and> lb_dropped b' = lb_dropped b + word_of_nat (length xs - (length (lb_data b) - length (lb_samples b)))"
  using assms
proof (induction xs arbitrary: b)
  case Nil
  then show ?case by (auto simp: lb_samples_def lb_inv_def)
next
  case (Cons x xs)
  have le: "length (lb_samples b) \<le> length (lb_data b)"
    using Cons.prems by (auto simp: lb_samples_def lb_inv_def)
  obtain b1 where step: "lb_try_push b x = Inr (length (lb_samples b) < length (lb_data b), b1)"
    "lb_inv b1" "length (lb_data b1) = length (lb_data b)"
    "if length (lb_samples b) < length (lb_data b)
     then lb_samples b1 = lb_samples b @ [x] \<and> lb_dropped b1 = lb_dropped b
     else lb_samples b1 = lb_samples b \<and> lb_dropped b1 = lb_dropped b + 1"
    using lb_try_push_step [OF Cons.prems, of x] by blast
  obtain oks b2 where run: "lb_push_all b1 xs = Inr (oks, b2)" "lb_inv b2"
    "length (lb_data b2) = length (lb_data b1)"
    "lb_samples b2 = take (length (lb_data b1)) (lb_samples b1 @ xs)"
    "oks = map (\<lambda>i. length (lb_samples b1) + i < length (lb_data b1)) [0..<length xs]"
    "lb_dropped b2 = lb_dropped b1 + word_of_nat (length xs - (length (lb_data b1) - length (lb_samples b1)))"
    using Cons.IH [OF step(2)] by blast
  have flags: "map f [0..<length (x # xs)] = f 0 # map (\<lambda>i. f (Suc i)) [0..<length xs]" for f :: "nat \<Rightarrow> bool"
    by (simp add: upt_conv_Cons map_Suc_upt [symmetric] del: upt_Suc)
  show ?case
  proof (cases "length (lb_samples b) < length (lb_data b)")
    case True
    with step(4) have "lb_samples b1 = lb_samples b @ [x]" "lb_dropped b1 = lb_dropped b" by simp_all
    with True run step(1,3) show ?thesis
      unfolding flags by (simp add: Suc_diff_Suc)
  next
    case False
    with step(4) le have "lb_samples b1 = lb_samples b" "lb_dropped b1 = lb_dropped b + 1"
      "length (lb_samples b) = length (lb_data b)" by simp_all
    with run step(1,3) show ?thesis
      unfolding flags by (simp add: add.assoc)
  qed
qed

section \<open>Properties\<close>

text \<open>
  Whatever the samples, the buffer never writes outside its array: it keeps the first \<open>Cap\<close>
  samples pushed since it was made or cleared, in order, returns true for exactly those, and
  counts the others in \<open>dropped()\<close>.
\<close>

theorem lb_keeps_first:
  assumes "lb_inv b" and "length (lb_data b) = cap"
  shows "\<exists>oks b'. lb_push_all (lb_clear b) xs = Inr (oks, b') \<and> lb_inv b'
       \<and> lb_samples b' = take cap xs \<and> unat (lb_size b') = min cap (length xs)
       \<and> oks = map (\<lambda>i. i < cap) [0..<length xs]
       \<and> lb_dropped b' = word_of_nat (length xs - cap)"
proof -
  have "lb_inv (lb_clear b)" "lb_samples (lb_clear b) = []" "length (lb_data (lb_clear b)) = cap"
    "lb_dropped (lb_clear b) = 0"
    using assms by (simp_all add: lb_inv_def lb_clear_def lb_samples_def)
  with lb_push_all_samples [of "lb_clear b" xs] obtain oks b' where
    r: "lb_push_all (lb_clear b) xs = Inr (oks, b')" "lb_inv b'" "length (lb_data b') = cap"
      "lb_samples b' = take cap xs" "oks = map (\<lambda>i. i < cap) [0..<length xs]"
      "lb_dropped b' = word_of_nat (length xs - cap)" by auto
  have "unat (lb_size b') = length (lb_samples b')"
    using r(2) by (simp add: lb_size_def lb_samples_def lb_inv_def)
  with r show ?thesis by (simp add: min.commute)
qed

theorem lb_keeps_first_witness:
  "\<exists>b'. lb_push_all (lb_clear (lb_new 2)) [10, 20, 30] = Inr ([True, True, False], b')
     \<and> lb_samples b' = [10, 20] \<and> lb_dropped b' = 1"
  using lb_keeps_first [of "lb_new 2" 2 "[10, 20, 30]"]
  by (auto simp: lb_inv_def lb_new_def)

end
