(* ===== verification/Binary64.thy ===== *)
theory Binary64
  imports Complex_Main "HOL-Library.Log_Nat"
begin

text \<open>
  The arithmetic of \<open>double\<close> the code uses: IEEE 754 binary64 with rounding to nearest, ties to
  even. A finite value is a rational number, and every operation is the exact one followed by
  \<open>rd\<close>. Subnormal numbers are included; results beyond the largest finite number do not occur in
  the modelled code, whose values stay below 2^65. The locale \<open>fp_round\<close> is what the clients of
  the arithmetic rely on.
\<close>

section \<open>Rounding\<close>

text \<open>Powers of two with an integer exponent.\<close>

definition p2 :: "int \<Rightarrow> rat" where
  "p2 k = 2 powi k"

text \<open>\<open>ilog2 x\<close> is the exponent of the leading bit of \<open>x > 0\<close>.\<close>

definition ilog2 :: "rat \<Rightarrow> int" where
  "ilog2 x =
     (let (n, d) = quotient_of x;
          k = bitlen n - bitlen d
      in if p2 k \<le> x then k else k - 1)"

definition round_even :: "rat \<Rightarrow> int" where
  "round_even y =
     (let f = \<lfloor>y\<rfloor>; r = y - of_int f
      in if r < 1 / 2 then f else if 1 / 2 < r then f + 1 else if even f then f else f + 1)"

definition ulp_exp :: "rat \<Rightarrow> int" where
  "ulp_exp x = max (ilog2 x - 52) (- 1074)"

definition rd_pos :: "rat \<Rightarrow> rat" where
  "rd_pos x = of_int (round_even (x / p2 (ulp_exp x))) * p2 (ulp_exp x)"

definition rd :: "rat \<Rightarrow> rat" where
  "rd x = (if x = 0 then 0 else if x < 0 then - rd_pos (- x) else rd_pos x)"

lemma p2_pos [simp]: "0 < p2 k" and p2_neq_0 [simp]: "p2 k \<noteq> 0" and p2_ge_0 [simp]: "0 \<le> p2 k"
  by (simp_all add: p2_def)

lemma p2_not_neg [simp]: "\<not> p2 k < 0" "\<not> p2 k \<le> 0"
  by (simp_all add: not_less not_le)

lemma p2_add: "p2 (a + b) = p2 a * p2 b"
  by (simp add: p2_def power_int_add)

lemma p2_diff: "p2 (a - b) = p2 a / p2 b"
  by (simp add: p2_def power_int_diff)

lemma p2_less_iff: "p2 a < p2 b \<longleftrightarrow> a < b"
proof -
  have "p2 i < p2 j" if "i < j" for i j
    unfolding p2_def using that by (rule power_int_strict_increasing) simp
  then show ?thesis by (metis linorder_less_linear order_less_asym order_less_irrefl)
qed

lemma p2_le_iff: "p2 a \<le> p2 b \<longleftrightarrow> a \<le> b"
  using p2_less_iff [of b a] by (simp add: not_less [symmetric])

lemma p2_int: "p2 (int n) = 2 ^ n" and p2_0 [simp]: "p2 0 = 1" and p2_1 [simp]: "p2 1 = 2"
  and p2_numeral [simp]: "p2 (numeral k) = 2 ^ numeral k"
  by (simp_all add: p2_def)

lemma p2_Suc: "p2 (k + 1) = 2 * p2 k"
  by (simp add: p2_add)

lemma floorlog_bounds_rat:
  assumes "0 < n"
  shows "p2 (int (floorlog 2 n) - 1) \<le> of_nat n" and "of_nat n < p2 (int (floorlog 2 n))"
proof -
  have b: "2 ^ (floorlog 2 n - 1) \<le> n" "n < 2 ^ floorlog 2 n" using floorlog_bounds [of n 2] assms by auto
  have "floorlog 2 n \<noteq> 0" using assms by (simp add: floorlog_def)
  then have "int (floorlog 2 n) - 1 = int (floorlog 2 n - 1)" by simp
  then have "p2 (int (floorlog 2 n) - 1) = 2 ^ (floorlog 2 n - 1)" by (simp only: p2_int)
  also have "\<dots> \<le> of_nat n" using b(1) by (metis of_nat_le_iff of_nat_numeral of_nat_power)
  finally show "p2 (int (floorlog 2 n) - 1) \<le> of_nat n" .
  show "of_nat n < p2 (int (floorlog 2 n))"
    using b(2) unfolding p2_int by (metis of_nat_less_iff of_nat_numeral of_nat_power)
qed

lemma ilog2_bounds:
  assumes "0 < x"
  shows "p2 (ilog2 x) \<le> x" and "x < p2 (ilog2 x + 1)"
proof -
  obtain n d where q: "quotient_of x = (n, d)" by (cases "quotient_of x")
  have d: "0 < d" using q by (rule quotient_of_denom_pos)
  have x: "x = of_int n / of_int d" using q by (rule quotient_of_div)
  have n: "0 < n" using assms d by (simp add: x zero_less_divide_iff)
  define a b where "a = int (floorlog 2 (nat n))" and "b = int (floorlog 2 (nat d))"
  have nb: "p2 (a - 1) \<le> of_int n" "of_int n < p2 a"
    using floorlog_bounds_rat [of "nat n"] n by (simp_all add: a_def)
  have db: "p2 (b - 1) \<le> of_int d" "of_int d < p2 b"
    using floorlog_bounds_rat [of "nat d"] d by (simp_all add: b_def)
  have pos: "0 < (of_int d :: rat)" using d by simp
  have "p2 (a - b + 1) * p2 (b - 1) \<le> p2 (a - b + 1) * of_int d"
    using db(1) by (rule mult_left_mono) simp
  then have "p2 a \<le> p2 (a - b + 1) * of_int d" by (simp flip: p2_add)
  then have upper: "x < p2 (a - b + 1)" using nb(2) pos by (simp add: x divide_less_eq)
  have "p2 (a - b - 1) * of_int d \<le> p2 (a - b - 1) * p2 b"
    using db(2) by (intro mult_left_mono) simp_all
  then have "p2 (a - b - 1) * of_int d \<le> p2 (a - 1)" by (simp flip: p2_add)
  then have lower: "p2 (a - b - 1) \<le> x" using nb(1) pos by (simp add: x le_divide_eq)
  have "ilog2 x = (if p2 (a - b) \<le> x then a - b else a - b - 1)"
    by (simp add: ilog2_def q a_def b_def bitlen_def)
  with upper lower show "p2 (ilog2 x) \<le> x" "x < p2 (ilog2 x + 1)" by auto
qed

lemma ilog2_unique:
  assumes "p2 k \<le> x" and "x < p2 (k + 1)"
  shows "ilog2 x = k"
proof -
  have x: "0 < x" using assms(1) p2_pos [of k] by linarith
  note b = ilog2_bounds [OF x]
  have "k < ilog2 x + 1" using assms(1) b(2) by (simp flip: p2_less_iff)
  moreover have "ilog2 x < k + 1" using assms(2) b(1) by (simp flip: p2_less_iff)
  ultimately show ?thesis by simp
qed

lemma ilog2_mono: "0 < x \<Longrightarrow> x \<le> y \<Longrightarrow> ilog2 x \<le> ilog2 y"
proof -
  assume "0 < x" "x \<le> y"
  then have "p2 (ilog2 x) < p2 (ilog2 y + 1)"
    using ilog2_bounds(1) [of x] ilog2_bounds(2) [of y] by linarith
  then show ?thesis by (simp add: p2_less_iff)
qed

section \<open>Rounding to an integer\<close>

lemma round_even_near: "\<bar>of_int (round_even y) - y\<bar> \<le> 1 / 2"
  unfolding round_even_def Let_def using floor_correct [of y]
  by (simp split: if_splits)

lemma round_even_int [simp]: "round_even (of_int m) = m"
  by (simp add: round_even_def)

lemma round_even_mono:
  assumes "x \<le> y"
  shows "round_even x \<le> round_even y"
proof (cases "\<lfloor>x\<rfloor> = \<lfloor>y\<rfloor>")
  case True
  with assms show ?thesis by (auto simp: round_even_def Let_def)
next
  case False
  then have "\<lfloor>x\<rfloor> + 1 \<le> \<lfloor>y\<rfloor>" using floor_mono [OF assms] by simp
  moreover have "round_even x \<le> \<lfloor>x\<rfloor> + 1" "\<lfloor>y\<rfloor> \<le> round_even y"
    by (auto simp: round_even_def Let_def)
  ultimately show ?thesis by linarith
qed

lemma round_even_eqI:
  assumes "\<bar>of_int m - y\<bar> < 1 / 2"
  shows "round_even y = m"
proof -
  have "\<bar>of_int (round_even y - m) :: rat\<bar> < 1" using round_even_near [of y] assms by linarith
  then have "\<bar>round_even y - m\<bar> < 1" by linarith
  then show ?thesis by linarith
qed

lemma round_even_le: "y \<le> of_int m \<Longrightarrow> (of_int (round_even y) :: rat) \<le> of_int m"
  using round_even_mono [of y "of_int m"] by simp

lemma round_even_ge: "of_int m \<le> y \<Longrightarrow> of_int m \<le> (of_int (round_even y) :: rat)"
  using round_even_mono [of "of_int m" y] by simp

section \<open>Properties of the rounding\<close>

lemma scaled_bounds:
  assumes "0 < x"
  shows "x / p2 (ulp_exp x) < 2 ^ 53" and "- 1074 < ulp_exp x \<Longrightarrow> 2 ^ 52 \<le> x / p2 (ulp_exp x)"
proof -
  note b = ilog2_bounds [OF assms]
  have "ilog2 x + 1 \<le> 53 + ulp_exp x" by (simp add: ulp_exp_def)
  then have "p2 (ilog2 x + 1) \<le> p2 (53 + ulp_exp x)" by (simp only: p2_le_iff)
  with b(2) have "x < 2 ^ 53 * p2 (ulp_exp x)" by (simp add: p2_add)
  then show "x / p2 (ulp_exp x) < 2 ^ 53" by (simp add: divide_less_eq)
  show "2 ^ 52 \<le> x / p2 (ulp_exp x)" if "- 1074 < ulp_exp x"
  proof -
    have "ilog2 x = 52 + ulp_exp x" using that by (auto simp: ulp_exp_def max_def split: if_splits)
    then have "2 ^ 52 * p2 (ulp_exp x) \<le> x" using b(1) by (simp add: p2_add)
    then show ?thesis by (simp add: le_divide_eq)
  qed
qed

lemma rd_pos_mono:
  assumes "0 < x" and "x \<le> y"
  shows "rd_pos x \<le> rd_pos y"
proof -
  have y: "0 < y" using assms by linarith
  have "ulp_exp x \<le> ulp_exp y" using ilog2_mono [OF assms] by (simp add: ulp_exp_def)
  then show ?thesis
  proof (cases "ulp_exp x = ulp_exp y")
    case True
    have "round_even (x / p2 (ulp_exp x)) \<le> round_even (y / p2 (ulp_exp x))"
      using assms(2) by (intro round_even_mono divide_right_mono) simp_all
    then show ?thesis unfolding rd_pos_def True by simp
  next
    case False
    with \<open>ulp_exp x \<le> ulp_exp y\<close> have lt: "ulp_exp x + 1 \<le> ulp_exp y" "- 1074 < ulp_exp y"
      by (auto simp: ulp_exp_def)
    have "x / p2 (ulp_exp x) \<le> of_int (2 ^ 53)" using scaled_bounds(1) [OF assms(1)] by simp
    from round_even_le [OF this]
    have "(of_int (round_even (x / p2 (ulp_exp x))) :: rat) \<le> 2 ^ 53" by simp
    then have "rd_pos x \<le> 2 ^ 53 * p2 (ulp_exp x)"
      unfolding rd_pos_def by (intro mult_right_mono) (simp_all add: less_imp_le)
    also have "\<dots> = 2 ^ 52 * p2 (ulp_exp x + 1)" by (simp add: p2_Suc)
    also have "\<dots> \<le> 2 ^ 52 * p2 (ulp_exp y)" using lt(1) by (simp add: p2_le_iff)
    also have "\<dots> \<le> rd_pos y"
    proof -
      have "of_int (2 ^ 52) \<le> y / p2 (ulp_exp y)" using scaled_bounds(2) [OF y lt(2)] by simp
      from round_even_ge [OF this]
      have "2 ^ 52 \<le> (of_int (round_even (y / p2 (ulp_exp y))) :: rat)" by simp
      then show ?thesis unfolding rd_pos_def by (intro mult_right_mono) (simp_all add: less_imp_le)
    qed
    finally show ?thesis .
  qed
qed

lemma rd_pos_nonneg: "0 < x \<Longrightarrow> 0 \<le> rd_pos x"
proof -
  assume "0 < x"
  then have "round_even (of_int 0) \<le> round_even (x / p2 (ulp_exp x))"
    by (intro round_even_mono) simp
  then show ?thesis unfolding round_even_int rd_pos_def by simp
qed

lemma rd_mono:
  assumes "x \<le> y"
  shows "rd x \<le> rd y"
proof -
  have "rd_pos (- y) \<le> rd_pos (- x)" if "y < 0" using that assms by (intro rd_pos_mono) simp_all
  moreover have "rd_pos x \<le> rd_pos y" if "0 < x" using that assms by (intro rd_pos_mono) simp_all
  ultimately show ?thesis
    using assms rd_pos_nonneg [of "- x"] rd_pos_nonneg [of y] by (auto simp: rd_def)
qed

text \<open>Integers of at most 53 bits and their quotients by powers of two are exact.\<close>

lemma ulp_exp_multiple:
  assumes m: "0 < m" "m \<le> 2 ^ 53" and k: "- 1074 \<le> k"
  defines "x \<equiv> of_int m * p2 k :: rat"
  shows "ulp_exp x \<le> k \<or> m = 2 ^ 53 \<and> ulp_exp x = k + 1"
proof (cases "m = 2 ^ 53")
  case True
  then have "x = p2 (53 + k)" by (simp add: x_def p2_add)
  moreover have "ilog2 (p2 (53 + k)) = 53 + k"
    by (rule ilog2_unique) (simp_all add: p2_less_iff)
  ultimately show ?thesis using True k by (auto simp: ulp_exp_def)
next
  case False
  have x: "0 < x" using m(1) by (simp add: x_def)
  have "(of_int m :: rat) < of_int (2 ^ 53)" using m(2) False by (simp only: of_int_less_iff)
  then have "(of_int m :: rat) < 2 ^ 53" by simp
  then have "x < 2 ^ 53 * p2 k" by (simp add: x_def)
  then have "p2 (ilog2 x) < p2 (53 + k)"
    using ilog2_bounds(1) [OF x] unfolding p2_add p2_numeral by linarith
  then show ?thesis using k by (simp add: p2_less_iff ulp_exp_def)
qed

lemma rd_pos_exact:
  assumes m: "0 < m" "m \<le> 2 ^ 53" and k: "- 1074 \<le> k"
  shows "rd_pos (of_int m * p2 k) = of_int m * p2 k"
proof -
  let ?x = "of_int m * p2 k :: rat"
  obtain i :: int where i: "?x / p2 (ulp_exp ?x) = of_int i"
    using ulp_exp_multiple [OF m k]
  proof
    assume le: "ulp_exp ?x \<le> k"
    have "?x / p2 (ulp_exp ?x) = of_int m * p2 (k - ulp_exp ?x)" by (simp add: p2_diff)
    also have "\<dots> = of_int (m * 2 ^ nat (k - ulp_exp ?x))" using le p2_int [of "nat (k - ulp_exp ?x)"] by simp
    finally show thesis by (rule that)
  next
    assume m: "m = 2 ^ 53 \<and> ulp_exp ?x = k + 1"
    from arg_cong [OF conjunct2 [OF m], of "\<lambda>e. ?x / p2 e"]
    have "?x / p2 (ulp_exp ?x) = of_int m * p2 k / p2 (k + 1)" .
    also have "\<dots> = of_int (2 ^ 52)" using m by (simp add: p2_Suc)
    finally show thesis by (rule that)
  qed
  have "rd_pos ?x = ?x / p2 (ulp_exp ?x) * p2 (ulp_exp ?x)"
    unfolding rd_pos_def i round_even_int ..
  then show ?thesis by simp
qed

lemma rd_exact:
  assumes "\<bar>m\<bar> \<le> 2 ^ 53" and "- 1074 \<le> k"
  shows "rd (of_int m * p2 k) = of_int m * p2 k"
  using rd_pos_exact [of m k] rd_pos_exact [of "- m" k] assms
  by (auto simp: rd_def mult_less_0_iff zero_less_mult_iff)

lemma rd_of_int [simp]: "\<bar>m\<bar> \<le> 2 ^ 53 \<Longrightarrow> rd (of_int m) = of_int m"
  using rd_exact [of m 0] by simp

text \<open>In the range of normal numbers the relative error is at most half a unit in the last place.\<close>

lemma rd_relative:
  assumes "p2 (- 1022) \<le> x"
  shows "\<bar>rd x - x\<bar> \<le> x / 2 ^ 53"
proof -
  have x: "0 < x" using assms p2_pos [of "- 1022"] by linarith
  have "p2 (- 1022) < p2 (ilog2 x + 1)" using assms ilog2_bounds(2) [OF x] by linarith
  then have e: "ulp_exp x = ilog2 x - 52" by (simp add: p2_less_iff ulp_exp_def)
  let ?u = "p2 (ulp_exp x) :: rat"
  have "\<bar>of_int (round_even (x / ?u)) - x / ?u\<bar> * ?u \<le> 1 / 2 * ?u"
    by (intro mult_right_mono round_even_near) (simp add: less_imp_le)
  moreover have "\<bar>of_int (round_even (x / ?u)) - x / ?u\<bar> * ?u = \<bar>rd_pos x - x\<bar>"
    unfolding rd_pos_def by (simp add: abs_mult_pos left_diff_distrib less_imp_le)
  moreover have "1 / 2 * ?u = p2 (ilog2 x) / 2 ^ 53" by (simp add: e p2_diff)
  moreover have "p2 (ilog2 x) / 2 ^ 53 \<le> x / 2 ^ 53"
    using ilog2_bounds(1) [OF x] by (intro divide_right_mono) simp_all
  ultimately show ?thesis using x by (simp add: rd_def)
qed

text \<open>How to compute a rounding by hand: the nearest multiple of the unit in the last place.\<close>

lemma rd_eqI:
  assumes "p2 k \<le> x" and "x < p2 (k + 1)" and "- 1022 \<le> k"
    and "\<bar>of_int m - x * p2 (52 - k)\<bar> < 1 / 2"
  shows "rd x = of_int m * p2 (k - 52)"
proof -
  have x: "0 < x" using assms(1) p2_pos [of k] by linarith
  have e: "ulp_exp x = k - 52" using ilog2_unique [OF assms(1,2)] assms(3) by (simp add: ulp_exp_def)
  have "x / p2 (k - 52) = x * p2 (52 - k)"
    by (simp add: p2_diff)
  with assms(4) have "round_even (x / p2 (k - 52)) = m" by (intro round_even_eqI) simp
  then show ?thesis using x by (simp add: rd_def rd_pos_def e)
qed

section \<open>The interface\<close>

locale fp_round =
  fixes rnd :: "rat \<Rightarrow> rat"
  assumes rnd_mono: "x \<le> y \<Longrightarrow> rnd x \<le> rnd y"
    and rnd_int: "\<bar>m\<bar> \<le> 2 ^ 53 \<Longrightarrow> rnd (of_int m) = of_int m"
    and rnd_relative: "p2 (- 1022) \<le> x \<Longrightarrow> \<bar>rnd x - x\<bar> \<le> x / 2 ^ 53"
begin

lemma rnd_0 [simp]: "rnd 0 = 0" and rnd_1 [simp]: "rnd 1 = 1"
  using rnd_int [of 0] rnd_int [of 1] by simp_all

lemma rnd_nonneg: "0 \<le> x \<Longrightarrow> 0 \<le> rnd x"
  using rnd_mono [of 0 x] by simp

lemma rnd_le_int: "x \<le> of_int m \<Longrightarrow> \<bar>m\<bar> \<le> 2 ^ 53 \<Longrightarrow> rnd x \<le> of_int m"
  using rnd_mono [of x "of_int m"] rnd_int by simp

text \<open>A fraction \<open>q\<close> of a count \<open>n\<close>, computed in two roundings, stays between 0 and \<open>n\<close>.\<close>

lemma fraction_bounds:
  assumes "0 \<le> x" and "x \<le> 1" and "int n \<le> 2 ^ 53"
  shows "0 \<le> rnd (rnd x * of_nat n)" and "rnd (rnd x * of_nat n) \<le> of_nat n"
proof -
  have q: "0 \<le> rnd x" "rnd x \<le> 1" using assms rnd_nonneg rnd_mono [of x 1] by simp_all
  show "0 \<le> rnd (rnd x * of_nat n)" using q(1) by (intro rnd_nonneg) simp
  have "rnd x * of_nat n \<le> of_int (int n)" using mult_right_mono [OF q(2), of "of_nat n"] by simp
  from rnd_le_int [OF this] show "rnd (rnd x * of_nat n) \<le> of_nat n" using assms(3) by simp
qed

lemma fraction_mono:
  "x \<le> y \<Longrightarrow> rnd (rnd x * of_nat n) \<le> rnd (rnd y * of_nat n)"
  by (intro rnd_mono mult_right_mono) simp_all

text \<open>Its relative error is at most three units in the last place, so for less than 2^51 it is
  within one of the exact value.\<close>

lemma fraction_close:
  assumes x: "p2 (- 1000) \<le> x" "x \<le> 1" and n: "0 < n" "n \<le> 2 ^ 51"
  shows "0 < rnd (rnd x * of_nat n)" and "\<bar>rnd (rnd x * of_nat n) - x * of_nat n\<bar> < 1"
proof -
  have p: "(0 :: rat) < p2 (- 1000)" "p2 (- 1022) \<le> p2 (- 1000)"
    "p2 (- 1022) \<le> p2 (- 1000) / 2"
    using p2_le_iff [of "- 1022" "- 1000"] p2_le_iff [of "- 1022" "- 1001"] p2_Suc [of "- 1001"]
    by simp_all
  have x0: "0 < x" using x(1) p(1) by linarith
  let ?q = "rnd x" and ?n = "of_nat n :: rat"
  have q: "\<bar>?q - x\<bar> \<le> x / 2 ^ 53" using x(1) p(2) by (intro rnd_relative) linarith
  have "x / 2 ^ 53 \<le> x / 2" using x0 by (intro divide_left_mono) simp_all
  with q have half: "x / 2 \<le> ?q" "?q \<le> 2 * x" using x0 abs_le_D1 [of "?q - x"] abs_le_D2 [of "?q - x"]
    by linarith+
  have n1: "1 \<le> ?n" "?n \<le> 2 ^ 51" using n of_nat_mono [of 1 n, where 'a = rat] of_nat_mono [of n "2 ^ 51", where 'a = rat]
    by simp_all
  have lo: "x / 2 \<le> ?q * ?n"
    using half(1) n1(1) x0 mult_mono [of "x / 2" ?q 1 ?n] by simp
  then have "p2 (- 1022) \<le> ?q * ?n" using x(1) p(3) by linarith
  then have r: "\<bar>rnd (?q * ?n) - ?q * ?n\<bar> \<le> ?q * ?n / 2 ^ 53" by (rule rnd_relative)
  have pos: "0 < ?q * ?n" using lo x0 by linarith
  have "y / 2 ^ 53 < y" if "0 < y" for y :: rat using that by simp
  from this [OF pos] have "?q * ?n / 2 ^ 53 < ?q * ?n" .
  with r show "0 < rnd (?q * ?n)" using abs_le_D2 [of "rnd (?q * ?n) - ?q * ?n"] by linarith
  have e1: "\<bar>?q * ?n - x * ?n\<bar> \<le> x / 2 ^ 53 * ?n"
    using mult_right_mono [OF q, of ?n] by (simp add: abs_mult_pos left_diff_distrib)
  have xn: "x * ?n \<le> 2 ^ 51" using mult_mono [OF x(2) n1(2)] x0 by simp
  have "?q * ?n \<le> 2 * (x * ?n)" using mult_right_mono [OF half(2), of ?n] by simp
  with r have "\<bar>rnd (?q * ?n) - ?q * ?n\<bar> \<le> 2 * (x * ?n) / 2 ^ 53" by (simp add: field_simps)
  moreover have "x / 2 ^ 53 * ?n = (x * ?n) / 2 ^ 53" by simp
  moreover have "3 * (x * ?n) / 2 ^ 53 < 1" using xn by simp
  ultimately show "\<bar>rnd (?q * ?n) - x * ?n\<bar> < 1" using e1 by linarith
qed

end

interpretation binary64: fp_round rd
  by unfold_locales (use rd_mono rd_of_int rd_relative in auto)

end
