(* ===== verification/HdrHistogram.thy ===== *)
theory HdrHistogram
  imports Prelude Binary64 "HOL-Library.Multiset"
begin

text \<open>
  The latency histogram \<open>ll::HdrLatencyHistogram<Buckets>\<close> of \<open>include/ll/hdr_histogram.hpp\<close>:
  recording, the bucket arithmetic, percentiles and the mean in binary64 arithmetic, and what the
  counters say of the recorded samples.
\<close>

section \<open>Floating-point values\<close>

text \<open>A \<open>double\<close>: the two zeros are one value here, which no comparison of the code tells apart.\<close>

datatype double = NaN | Infinity bool | Finite rat

fun double_le :: "double \<Rightarrow> double \<Rightarrow> bool" where
  "double_le NaN y = False"
| "double_le x NaN = False"
| "double_le (Infinity neg) y = (if neg then True else y = Infinity False)"
| "double_le x (Infinity neg) = (\<not> neg)"
| "double_le (Finite x) (Finite y) = (x \<le> y)"

fun double_less :: "double \<Rightarrow> double \<Rightarrow> bool" where
  "double_less NaN y = False"
| "double_less x NaN = False"
| "double_less x y = (\<not> double_le y x)"

text \<open>\<open>std::min(a, b)\<close> is \<open>b < a ? b : a\<close>.\<close>

definition double_min :: "double \<Rightarrow> double \<Rightarrow> double" where
  "double_min a b = (if double_less b a then b else a)"

text \<open>
  \<open>static_cast<std::uint64_t>(std::ceil(x))\<close>: undefined for what does not fit.
\<close>

fun ceil_to_u64 :: "double \<Rightarrow> u64 res" where
  "ceil_to_u64 (Finite x) =
     (if 0 \<le> \<lceil>x\<rceil> \<and> \<lceil>x\<rceil> < 2 ^ 64 then Inr (word_of_int \<lceil>x\<rceil>) else Inl Bad_Conversion)"
| "ceil_to_u64 _ = Inl Bad_Conversion"

text \<open>\<open>clamped / 100.0 * static_cast<double>(count_)\<close>, three operations, each rounded.\<close>

fun percent_of :: "double \<Rightarrow> u64 \<Rightarrow> double" where
  "percent_of (Finite x) n = Finite (rd (rd (x / 100) * rd (of_nat (unat n))))"
| "percent_of (Infinity neg) n = (if n = 0 then NaN else Infinity neg)"
| "percent_of NaN n = NaN"

section \<open>Buckets\<close>

text \<open>\<open>__builtin_clzll(v)\<close>, for \<open>v\<close> other than 0: the zeros before the leading one.\<close>

definition clzll :: "u64 \<Rightarrow> nat" where
  "clzll v = length (takeWhile Not (map (bit v) (rev [0..<64])))"

definition bucket_index :: "nat \<Rightarrow> u64 \<Rightarrow> size_t" where
  "bucket_index buckets v =
     (if v = 0 then 0
      else let lz = word_of_nat (clzll v) :: u32;
               log2 = ucast (63 - lz) :: size_t;
               idx = log2 + 1
           in if idx < word_of_nat buckets then idx else word_of_nat buckets - 1)"

definition bucket_representative :: "size_t \<Rightarrow> u64 res" where
  "bucket_representative idx =
     (if idx = 0 then Inr 0
      else if 64 \<le> unat (idx - 1) then Inl Bad_Shift
      else let lo = push_bit (unat (idx - 1)) 1 :: u64 in Inr (lo + lo div 2))"

section \<open>The histogram\<close>

record histogram =
  hb_buckets :: "u64 list"
  hb_count :: u64
  hb_sum :: u64
  hb_min :: u64
  hb_max :: u64

text \<open>\<open>Buckets\<close> is between 8 and 128; \<open>numeric_limits<std::uint64_t>::max()\<close> is \<open>- 1\<close>.\<close>

definition histogram_new :: "nat \<Rightarrow> histogram" where
  "histogram_new buckets = \<lparr>hb_buckets = replicate buckets 0, hb_count = 0, hb_sum = 0,
     hb_min = - 1, hb_max = 0\<rparr>"

definition hist_record :: "histogram \<Rightarrow> u64 \<Rightarrow> histogram res" where
  "hist_record h value =
     (let h' = h\<lparr>hb_count := hb_count h + 1, hb_min := min (hb_min h) value,
                 hb_max := max (hb_max h) value, hb_sum := hb_sum h + value\<rparr>;
          idx = bucket_index (length (hb_buckets h)) value
      in res_bind (arr_get (hb_buckets h') idx) (\<lambda>b.
         res_bind (arr_set (hb_buckets h') idx (b + 1)) (\<lambda>bs. Inr (h'\<lparr>hb_buckets := bs\<rparr>))))"

definition hist_count :: "histogram \<Rightarrow> u64" where
  "hist_count h = hb_count h"

definition hist_min :: "histogram \<Rightarrow> u64" where
  "hist_min h = (if hb_count h \<noteq> 0 then hb_min h else 0)"

definition hist_max :: "histogram \<Rightarrow> u64" where
  "hist_max h = hb_max h"

definition hist_mean :: "histogram \<Rightarrow> double" where
  "hist_mean h =
     (if hb_count h \<noteq> 0
      then Finite (rd (rd (of_nat (unat (hb_sum h))) / rd (of_nat (unat (hb_count h)))))
      else Finite 0)"

text \<open>The loop over the buckets: \<open>i\<close> is the index of the first of the remaining ones.\<close>

fun scan_buckets :: "u64 list \<Rightarrow> size_t \<Rightarrow> u64 \<Rightarrow> u64 \<Rightarrow> u64 \<Rightarrow> u64 res" where
  "scan_buckets [] i seen target mx = Inr mx"
| "scan_buckets (b # bs) i seen target mx =
     (let seen' = seen + b in
      if seen' \<ge> target then bucket_representative i
      else scan_buckets bs (i + 1) seen' target mx)"

definition value_at_percentile :: "histogram \<Rightarrow> double \<Rightarrow> u64 option res" where
  "value_at_percentile h pct =
     (if hb_count h = 0 \<or> double_le pct (Finite 0) then Inr None
      else let clamped = double_min pct (Finite 100) in
        res_bind (ceil_to_u64 (percent_of clamped (hb_count h))) (\<lambda>target.
        res_bind (scan_buckets (hb_buckets h) 0 0 target (hb_max h)) (\<lambda>v. Inr (Some v))))"

definition hist_reset :: "histogram \<Rightarrow> histogram" where
  "hist_reset h = h\<lparr>hb_buckets := replicate (length (hb_buckets h)) 0, hb_count := 0, hb_sum := 0,
     hb_min := - 1, hb_max := 0\<rparr>"

fun record_all :: "histogram \<Rightarrow> u64 list \<Rightarrow> histogram res" where
  "record_all h [] = Inr h"
| "record_all h (x # xs) = res_bind (hist_record h x) (\<lambda>h'. record_all h' xs)"

section \<open>Bucket arithmetic\<close>

lemma unat_less_pow2_bits:
  assumes "\<And>i. k \<le> i \<Longrightarrow> i < 64 \<Longrightarrow> \<not> bit (v :: u64) i"
  shows "unat v < 2 ^ k"
proof -
  have "v = take_bit k v"
    by (rule bit_word_eqI) (use assms in \<open>auto simp: bit_take_bit_iff not_less [symmetric]\<close>)
  then have "unat v = take_bit k (unat v)" by (metis unsigned_take_bit_eq)
  then show ?thesis by (metis take_bit_nat_less_exp)
qed

lemma bit_imp_ge_pow2:
  assumes "bit (v :: u64) k"
  shows "2 ^ k \<le> unat v"
proof -
  have "bit (unat v) k" using assms by (simp add: bit_unsigned_iff)
  then have "unat v div 2 ^ k \<noteq> 0" by (metis bit_iff_odd even_zero)
  then show ?thesis by (simp add: div_eq_0_iff not_less)
qed

text \<open>The leading bit of \<open>v\<close> has the number \<open>63 - clzll v\<close>.\<close>

lemma rev_upt:
  shows "length (rev [0..<n]) = n" and "set (rev [0..<n]) = {..<n}"
    and "j < n \<Longrightarrow> rev [0..<n] ! j = n - 1 - j"
  by (auto simp: rev_nth)

lemma clzll_bounds:
  assumes "v \<noteq> 0"
  shows "clzll v < 64" and "2 ^ (63 - clzll v) \<le> unat v" and "unat v < 2 ^ (64 - clzll v)"
proof -
  define js where "js = rev [0..<(64 :: nat)]"
  note js = rev_upt(1,2) [of 64, folded js_def] rev_upt(3) [of _ 64, folded js_def]
  let ?bs = "map (bit v) js"
  have clz: "clzll v = length (takeWhile Not ?bs)" by (simp only: clzll_def js_def)
  have nth: "?bs ! j = bit v (63 - j)" if "j < 64" for j using that js(1,3) by simp
  obtain i where i: "bit v i" "i < 64" using assms bit_word_eqI [of v 0] by auto
  then have "i \<in> set js" unfolding js(2) by blast
  then have "bit v i \<in> set ?bs" unfolding set_map by (rule imageI)
  then have "takeWhile Not ?bs \<noteq> ?bs" unfolding takeWhile_eq_all_conv using i(1) by (meson bspec)
  then have "length (takeWhile Not ?bs) \<noteq> length ?bs"
    using takeWhile_eq_take [of Not ?bs] by (metis order_refl take_all)
  then have "length (takeWhile Not ?bs) < length ?bs"
    using length_takeWhile_le [of Not ?bs] by linarith
  then show lt: "clzll v < 64" using js(1) by (simp add: clz)
  have "?bs ! clzll v"
    using nth_length_takeWhile [of Not ?bs] lt js(1) by (simp add: clz)
  then have "bit v (63 - clzll v)" using nth [OF lt] by simp
  then show "2 ^ (63 - clzll v) \<le> unat v" by (rule bit_imp_ge_pow2)
  show "unat v < 2 ^ (64 - clzll v)"
  proof (rule unat_less_pow2_bits)
    fix j assume j: "64 - clzll v \<le> j" "j < 64"
    then have k: "63 - j < length (takeWhile Not ?bs)" by (simp flip: clz)
    then have "\<not> takeWhile Not ?bs ! (63 - j)" using nth_mem set_takeWhileD by metis
    moreover have "takeWhile Not ?bs ! (63 - j) = ?bs ! (63 - j)" using k by (rule takeWhile_nth)
    ultimately show "\<not> bit v j" using nth [of "63 - j"] j by simp
  qed
qed

text \<open>\<open>bit_length v\<close> is the number of the bucket without the clamp.\<close>

definition bit_length :: "u64 \<Rightarrow> nat" where
  "bit_length v = (if v = 0 then 0 else 64 - clzll v)"

lemma bit_length_bounds:
  shows "unat v < 2 ^ bit_length v" and "v \<noteq> 0 \<Longrightarrow> 2 ^ (bit_length v - 1) \<le> unat v"
    and "bit_length v \<le> 64" and "v \<noteq> 0 \<Longrightarrow> 0 < bit_length v"
  using clzll_bounds [of v] by (simp_all add: bit_length_def)

lemma bit_length_mono:
  assumes "v \<le> w"
  shows "bit_length v \<le> bit_length w"
proof (cases "v = 0")
  case True
  then show ?thesis by (simp add: bit_length_def)
next
  case False
  have "(2 :: nat) ^ (bit_length v - 1) < 2 ^ bit_length w"
    using bit_length_bounds(2) [OF False] bit_length_bounds(1) [of w] assms
    unfolding word_le_nat_alt by linarith
  then have "bit_length v - 1 < bit_length w" by (rule power_less_imp_less_exp [rotated]) simp
  then show ?thesis using bit_length_bounds(4) [OF False] by simp
qed

lemma bucket_index_nat:
  assumes "8 \<le> buckets" and "buckets \<le> 128"
  shows "unat (bucket_index buckets v) = min (bit_length v) (buckets - 1)"
proof (cases "v = 0")
  case True
  then show ?thesis by (simp add: bucket_index_def bit_length_def)
next
  case False
  have c: "clzll v < 64" by (rule clzll_bounds(1) [OF False])
  have "unat (word_of_nat (clzll v) :: u32) = clzll v" using c by (simp add: unat_of_nat)
  then have "unat (63 - word_of_nat (clzll v) :: u32) = 63 - clzll v"
    using c by (simp add: unat_sub word_le_nat_alt)
  then have log2: "(ucast (63 - word_of_nat (clzll v) :: u32) :: u64) = word_of_nat (63 - clzll v)"
    by (simp add: word_unat_eq_iff unat_ucast_up)
  have "unat ((word_of_nat m :: u64) + 1) = m + 1" if "m < 64" for m
    using that by (simp add: unat_add_no_wrap)
  from this [of "63 - clzll v"] have idx: "unat ((word_of_nat (63 - clzll v) :: u64) + 1) = bit_length v"
    using c False by (simp add: bit_length_def)
  have b: "unat (word_of_nat buckets :: u64) = buckets" "unat (word_of_nat buckets - 1 :: u64) = buckets - 1"
    using assms by (simp_all add: unat_sub word_le_nat_alt)
  show ?thesis
    using False by (simp add: bucket_index_def Let_def log2 word_less_nat_alt idx b)
qed

lemma bucket_index_mono:
  "8 \<le> buckets \<Longrightarrow> buckets \<le> 128 \<Longrightarrow> v \<le> w \<Longrightarrow> bucket_index buckets v \<le> bucket_index buckets w"
  using bit_length_mono [of v w] by (simp add: word_le_nat_alt bucket_index_nat)

text \<open>
  The representative of a bucket: for a value \<open>v\<close> in its own bucket, not the last one where the
  larger values are clamped, it is between three quarters of \<open>v\<close> and three halves.
\<close>

lemma bucket_representative_nat:
  assumes "0 < k" and "k \<le> 64"
  shows "\<exists>r. bucket_representative (word_of_nat k) = Inr r \<and> unat r = 2 ^ (k - 1) + 2 ^ (k - 1) div 2"
proof -
  define lo where "lo = (push_bit (k - 1) 1 :: u64)"
  have k: "unat (word_of_nat k - 1 :: u64) = k - 1" using assms by (simp add: unat_sub word_le_nat_alt)
  have pow: "(2 :: nat) ^ (k - 1) \<le> 2 ^ 63" using assms by (intro power_increasing) simp_all
  have "lo = word_of_nat (2 ^ (k - 1))" by (simp add: lo_def push_bit_eq_mult)
  moreover have "(2 :: nat) ^ (k - 1) < 2 ^ 64" using pow by simp
  ultimately have lo: "unat lo = 2 ^ (k - 1)" by (simp only: unat_of_nat_64)
  have "unat (lo div 2) = 2 ^ (k - 1) div 2" by (simp add: unat_div lo)
  then have "unat (lo + lo div 2) = 2 ^ (k - 1) + 2 ^ (k - 1) div 2"
    using pow by (subst unat_add_no_wrap) (simp_all add: lo)
  moreover have "word_of_nat k \<noteq> (0 :: u64)"
    using assms by (simp add: word_unat_eq_iff)
  moreover have "bucket_representative (word_of_nat k) = Inr (lo + lo div 2)"
    if "word_of_nat k \<noteq> (0 :: u64)"
    unfolding bucket_representative_def Let_def k lo_def [symmetric] using assms that by simp
  ultimately show ?thesis by blast
qed

definition representative :: "nat \<Rightarrow> u64 \<Rightarrow> u64" where
  "representative buckets v = projr (bucket_representative (bucket_index buckets v))"

lemma bucket_index_word:
  assumes "8 \<le> buckets" and "buckets \<le> 128"
  shows "bucket_index buckets v = word_of_nat (min (bit_length v) (buckets - 1))"
  unfolding bucket_index_nat [OF assms, symmetric] by simp

lemma representative_Inr:
  assumes "8 \<le> buckets" and "buckets \<le> 128"
  shows "bucket_representative (bucket_index buckets v) = Inr (representative buckets v)"
proof (cases "v = 0")
  case True
  then show ?thesis by (simp add: representative_def bucket_index_def bucket_representative_def)
next
  case False
  then have "0 < min (bit_length v) (buckets - 1)" "min (bit_length v) (buckets - 1) \<le> 64"
    using assms bit_length_bounds(3,4) [of v] by simp_all
  from bucket_representative_nat [OF this] show ?thesis
    unfolding representative_def bucket_index_word [OF assms] by auto
qed

lemma representative_close:
  assumes b: "8 \<le> buckets" "buckets \<le> 128" and own: "bit_length v < buckets"
  shows "2 * unat (representative buckets v) \<le> 3 * unat v"
    and "3 * unat v \<le> 4 * unat (representative buckets v)"
proof -
  have "2 * unat (representative buckets v) \<le> 3 * unat v \<and> 3 * unat v \<le> 4 * unat (representative buckets v)"
  proof (cases "v = 0")
    case True
    then show ?thesis by (simp add: representative_def bucket_index_def bucket_representative_def)
  next
    case False
    note v = bit_length_bounds [of v]
    define k where "k = bit_length v - 1"
    have k: "bit_length v = Suc k" using v(4) [OF False] by (simp add: k_def)
    have bounds: "unat v < 2 * 2 ^ k" "2 ^ k \<le> unat v" using v(1,2) False by (simp_all add: k)
    from bucket_representative_nat [of "bit_length v"] v(3) v(4) [OF False]
    have "unat (representative buckets v) = 2 ^ k + 2 ^ k div 2"
      using own unfolding representative_def bucket_index_word [OF b]
      by (auto simp: k min_absorb1)
    then show ?thesis using bounds by (cases k) auto
  qed
  then show "2 * unat (representative buckets v) \<le> 3 * unat v"
    "3 * unat v \<le> 4 * unat (representative buckets v)" by blast+
qed

lemma bit_length_less_iff: "bit_length v < Suc k \<longleftrightarrow> unat v < 2 ^ k"
proof
  assume "bit_length v < Suc k"
  then have "(2 :: nat) ^ bit_length v \<le> 2 ^ k" by simp
  with bit_length_bounds(1) [of v] show "unat v < 2 ^ k" by linarith
next
  assume v: "unat v < 2 ^ k"
  show "bit_length v < Suc k"
  proof (cases "v = 0")
    case False
    from le_less_trans [OF bit_length_bounds(2) [OF this] v]
    have "(2 :: nat) ^ (bit_length v - 1) < 2 ^ k" .
    then have "bit_length v - 1 < k" by (rule power_less_imp_less_exp [rotated]) simp
    then show ?thesis by simp
  qed (simp add: bit_length_def)
qed

text \<open>A value too large for a bucket of its own falls into the last one.\<close>

lemma representative_last:
  assumes b: "8 \<le> buckets" "buckets \<le> 128" and v: "2 ^ (buckets - 1) \<le> unat v"
  shows "unat (representative buckets v) = 2 ^ (buckets - 2) + 2 ^ (buckets - 3)"
proof -
  define k where "k = buckets - 3"
  have k: "buckets = Suc (Suc (Suc k))" using b(1) by (simp add: k_def)
  have big: "\<not> bit_length v < buckets" using bit_length_less_iff [of v "buckets - 1"] v by (simp add: k)
  then have "buckets - 1 \<le> 64" using bit_length_bounds(3) [of v] by simp
  with bucket_representative_nat [of "buckets - 1"]
  have "unat (representative buckets v) = 2 ^ Suc k + 2 ^ Suc k div 2"
    using big unfolding representative_def bucket_index_word [OF b] by (auto simp: k min_absorb2)
  then show ?thesis by (simp add: k)
qed

lemma representative_mono:
  assumes b: "8 \<le> buckets" "buckets \<le> 128" and le: "v \<le> w"
  shows "representative buckets v \<le> representative buckets w"
proof (cases "v = 0")
  case True
  then show ?thesis by (simp add: representative_def bucket_index_def bucket_representative_def)
next
  case False
  then have w: "w \<noteq> 0" using le by auto
  define i j where "i = min (bit_length v) (buckets - 1)" and "j = min (bit_length w) (buckets - 1)"
  have ij: "0 < i" "i \<le> j" "j \<le> 64"
    using b bit_length_bounds(3,4) [of v] bit_length_bounds(3,4) [of w] False w bit_length_mono [OF le]
    by (simp_all add: i_def j_def)
  have "unat (representative buckets v) = 2 ^ (i - 1) + 2 ^ (i - 1) div 2"
    "unat (representative buckets w) = 2 ^ (j - 1) + 2 ^ (j - 1) div 2"
    using bucket_representative_nat [of i] bucket_representative_nat [of j] ij
    unfolding representative_def bucket_index_word [OF b] i_def [symmetric] j_def [symmetric] by auto
  moreover have "(2 :: nat) ^ (i - 1) \<le> 2 ^ (j - 1)" using ij by (intro power_increasing) simp_all
  ultimately show ?thesis by (simp add: word_le_nat_alt add_mono div_le_mono)
qed

section \<open>What the counters say\<close>

definition hist_inv :: "nat \<Rightarrow> u64 list \<Rightarrow> histogram \<Rightarrow> bool" where
  "hist_inv buckets xs h \<longleftrightarrow>
     length (hb_buckets h) = buckets
     \<and> hb_count h = word_of_nat (length xs) \<and> hb_sum h = sum_list xs
     \<and> hb_min h = foldr min xs (- 1) \<and> hb_max h = foldr max xs 0
     \<and> (\<forall>i < buckets. hb_buckets h ! i =
          word_of_nat (length (filter (\<lambda>v. unat (bucket_index buckets v) = i) xs)))"

lemma bucket_index_less:
  assumes "8 \<le> buckets" and "buckets \<le> 128"
  shows "unat (bucket_index buckets v) < buckets"
  using assms by (simp add: bucket_index_nat)

lemma hist_record_inv:
  assumes b: "8 \<le> buckets" "buckets \<le> 128" and inv: "hist_inv buckets xs h"
  shows "\<exists>h'. hist_record h v = Inr h' \<and> hist_inv buckets (v # xs) h'"
  using inv bucket_index_less [OF b, of v]
  by (auto simp: hist_record_def hist_inv_def Let_def nth_list_update min.commute max.commute add.commute)

lemma record_all_inv:
  assumes b: "8 \<le> buckets" "buckets \<le> 128" and "hist_inv buckets xs h"
  shows "\<exists>h'. record_all h ys = Inr h' \<and> hist_inv buckets (rev ys @ xs) h'"
  using assms(3)
proof (induction ys arbitrary: xs h)
  case (Cons y ys)
  obtain h1 where "hist_record h y = Inr h1" "hist_inv buckets (y # xs) h1"
    using hist_record_inv [OF b Cons.prems] by blast
  with Cons.IH [of "y # xs" h1] show ?case by simp
qed simp

lemma histogram_new_inv: "hist_inv buckets [] (histogram_new buckets)"
  by (simp add: hist_inv_def histogram_new_def)

lemma hist_reset_inv: "hist_inv buckets xs h \<Longrightarrow> hist_inv buckets [] (hist_reset h)"
  by (simp add: hist_inv_def hist_reset_def)

section \<open>Percentiles\<close>

text \<open>The \<open>k\<close>-th smallest of a list, counted by the elements below a bound.\<close>

lemma sorted_nth_less_iff:
  assumes "sorted ys" and "k < length ys"
  shows "ys ! k < i \<longleftrightarrow> k < length (filter (\<lambda>y. y < i) ys)"
  using assms
proof (induction ys arbitrary: k)
  case (Cons y ys)
  show ?case
  proof (cases "y < i")
    case True
    with Cons show ?thesis by (cases k) auto
  next
    case False
    then have "\<forall>z \<in> set (y # ys). \<not> z < i" using Cons.prems(1) by auto
    moreover from this have "(y # ys) ! k \<in> set (y # ys)" using Cons.prems(2) nth_mem by blast
    ultimately show ?thesis by (auto simp: filter_empty_conv)
  qed
qed simp

lemma length_filter_sort: "length (filter P (sort xs)) = length (filter P xs)"
  by (metis mset_filter mset_sort size_mset)

lemma scan_finds:
  assumes len: "length bs = buckets" "length is < 2 ^ 64" "buckets < 2 ^ 64"
    and small: "\<forall>i \<in> set is. i < buckets"
    and bs: "\<forall>i < buckets. bs ! i = word_of_nat (length (filter (\<lambda>k. k = i) is))"
    and t: "t \<le> length is" and i: "i \<le> buckets" "length (filter (\<lambda>k. k < i) is) < t"
  shows "scan_buckets (drop i bs) (word_of_nat i) (word_of_nat (length (filter (\<lambda>k. k < i) is)))
      (word_of_nat t) mx = bucket_representative (word_of_nat (sort is ! (t - 1)))"
  using i
proof (induction "buckets - i" arbitrary: i)
  case 0
  then have "filter (\<lambda>k. k < i) is = is" using small by (auto simp: filter_id_conv)
  with 0 t show ?case by simp
next
  case (Suc d)
  have i: "i < buckets" using Suc.hyps(2) by simp
  have split: "length (filter (\<lambda>k. k < Suc i) is) = length (filter (\<lambda>k. k < i) is) + length (filter (\<lambda>k. k = i) is)"
    by (induction "is") auto
  have seen: "word_of_nat (length (filter (\<lambda>k. k < i) is)) + bs ! i
      = (word_of_nat (length (filter (\<lambda>k. k < Suc i) is)) :: u64)"
    using bs i by (simp add: split)
  have "length (filter (\<lambda>k. k < Suc i) is) < 2 ^ 64"
    using length_filter_le [of "\<lambda>k. k < Suc i" "is"] len(2) by linarith
  then have reached: "(word_of_nat t :: u64) \<le> word_of_nat (length (filter (\<lambda>k. k < Suc i) is))
      \<longleftrightarrow> t \<le> length (filter (\<lambda>k. k < Suc i) is)"
    using t len(2) by (intro word_of_nat_le_64) linarith+
  have drop: "drop i bs = bs ! i # drop (Suc i) bs" using i len(1) by (simp add: Cons_nth_drop_Suc)
  show ?case
  proof (cases "t \<le> length (filter (\<lambda>k. k < Suc i) is)")
    case True
    have k: "t - 1 < length (sort is)" using t Suc.prems(2) by simp
    have "sort is ! (t - 1) < Suc i" "\<not> sort is ! (t - 1) < i"
      using sorted_nth_less_iff [OF sorted_sort k] Suc.prems(2) True
      by (simp_all only: length_filter_sort)
    then have "sort is ! (t - 1) = i" by simp
    with True show ?thesis by (simp add: drop seen reached)
  next
    case False
    have next_i: "word_of_nat i + 1 = (word_of_nat (Suc i) :: u64)" by (simp add: add.commute)
    from False have "scan_buckets (drop i bs) (word_of_nat i) (word_of_nat (length (filter (\<lambda>k. k < i) is)))
        (word_of_nat t) mx = scan_buckets (drop (Suc i) bs) (word_of_nat (Suc i))
        (word_of_nat (length (filter (\<lambda>k. k < Suc i) is))) (word_of_nat t) mx"
      unfolding drop scan_buckets.simps Let_def seen reached next_i by simp
    also have "\<dots> = bucket_representative (word_of_nat (sort is ! (t - 1)))"
      using Suc.hyps(2) i False by (intro Suc.hyps(1)) simp_all
    finally show ?thesis .
  qed
qed

lemma sort_map_mono:
  assumes "\<And>x y. x \<le> y \<Longrightarrow> f x \<le> f y"
  shows "sort (map f xs) = map f (sort xs)"
proof (rule properties_for_sort)
  show "mset (map f (sort xs)) = mset (map f xs)" by simp
  show "sorted (map f (sort xs))"
    using assms by (intro sorted_map_mono [OF sorted_sort]) (simp add: mono_on_def)
qed

definition percentile_rank :: "rat \<Rightarrow> nat \<Rightarrow> nat" where
  "percentile_rank p n = nat \<lceil>rd (rd (min p 100 / 100) * of_nat n)\<rceil>"

lemma percentile_rank_le:
  assumes "0 < p" and "int n \<le> 2 ^ 53"
  shows "percentile_rank p n \<le> n" and "0 \<le> \<lceil>rd (rd (min p 100 / 100) * of_nat n)\<rceil>"
proof -
  have x: "0 \<le> min p 100 / 100" "min p 100 / 100 \<le> 1" using assms(1) by simp_all
  note f = binary64.fraction_bounds [OF x assms(2)]
  show "0 \<le> \<lceil>rd (rd (min p 100 / 100) * of_nat n)\<rceil>" using f(1) by (simp add: le_ceiling_iff)
  have "\<lceil>rd (rd (min p 100 / 100) * of_nat n)\<rceil> \<le> int n" using f(2) by (simp add: ceiling_le_iff)
  then show "percentile_rank p n \<le> n" by (simp add: percentile_rank_def)
qed

text \<open>A percentile is the representative of a recorded sample of that rank.\<close>

lemma value_at_percentile_eq:
  assumes b: "8 \<le> buckets" "buckets \<le> 128" and inv: "hist_inv buckets xs h"
    and n: "0 < length xs" "int (length xs) \<le> 2 ^ 53" and p: "0 < p"
  defines "t \<equiv> percentile_rank p (length xs)"
  shows "value_at_percentile h (Finite p) =
    Inr (Some (if t = 0 then 0 else representative buckets (sort xs ! (t - 1))))"
proof -
  let ?n = "length xs" and ?idx = "\<lambda>v. unat (bucket_index buckets v)"
  have n64: "?n < 2 ^ 64" using n(2) by simp
  have count: "unat (hb_count h) = ?n" using inv n64 by (simp add: hist_inv_def)
  have cnt0: "hb_count h \<noteq> 0" using count n(1) by auto
  have rd_n: "rd (of_nat ?n) = of_nat ?n" using rd_of_int [of "int ?n"] n(2) by simp
  have clamped: "double_min (Finite p) (Finite 100) = Finite (min p 100)"
    by (simp add: double_min_def min_def)
  have t: "t \<le> ?n" "\<lceil>rd (rd (min p 100 / 100) * of_nat ?n)\<rceil> = int t"
    using percentile_rank_le [OF p n(2)] by (simp_all add: t_def percentile_rank_def)
  have target: "ceil_to_u64 (percent_of (Finite (min p 100)) (hb_count h)) = Inr (word_of_nat t)"
    using t n64 by (simp add: count rd_n)
  have bs: "length (hb_buckets h) = buckets"
    "\<forall>i < buckets. hb_buckets h ! i = word_of_nat (length (filter (\<lambda>k. k = i) (map ?idx xs)))"
    using inv by (simp_all add: hist_inv_def filter_map o_def)
  have "scan_buckets (hb_buckets h) 0 0 (word_of_nat t) (hb_max h)
      = Inr (if t = 0 then 0 else representative buckets (sort xs ! (t - 1)))"
  proof (cases "t = 0")
    case True
    with bs(1) b show ?thesis by (cases "hb_buckets h") (simp_all add: bucket_representative_def)
  next
    case False
    have "scan_buckets (drop 0 (hb_buckets h)) (word_of_nat 0)
        (word_of_nat (length (filter (\<lambda>k. k < 0) (map ?idx xs)))) (word_of_nat t) (hb_max h)
        = bucket_representative (word_of_nat (sort (map ?idx xs) ! (t - 1)))"
      using b bs t(1) n64 False bucket_index_less [OF b]
      by (intro scan_finds [where buckets = buckets]) auto
    moreover have "sort (map ?idx xs) ! (t - 1) = ?idx (sort xs ! (t - 1))"
    proof -
      have "sort (map ?idx xs) = map ?idx (sort xs)"
        using bucket_index_mono [OF b] by (intro sort_map_mono) (simp add: word_le_nat_alt)
      then show ?thesis using t(1) False by simp
    qed
    ultimately show ?thesis using False representative_Inr [OF b] by simp
  qed
  then show ?thesis
    using cnt0 p
    unfolding value_at_percentile_def Let_def clamped target res_bind_simps by simp
qed

section \<open>Properties\<close>

lemma record_all_new:
  assumes "8 \<le> buckets" and "buckets \<le> 128"
  obtains h where "record_all (histogram_new buckets) xs = Inr h" and "hist_inv buckets (rev xs) h"
  using record_all_inv [OF assms histogram_new_inv, of xs] by auto

lemma foldr_min_top: "foldr min xs (- 1 :: u64) = (if xs = [] then - 1 else Min (set xs))"
  by (induction xs) auto

lemma foldr_max_bot: "foldr max xs (0 :: u64) = (if xs = [] then 0 else Max (set xs))"
  by (induction xs) auto

lemma sort_rev: "sort (rev xs) = sort xs"
  by (rule properties_for_sort) simp_all

text \<open>
  C14: Recording never fails, and after samples were recorded the counters say what they are meant
  to: the count is their number (less than 2^64), \<open>min()\<close> and \<open>max()\<close> are their smallest and
  largest, the sum is theirs modulo 2^64, and every bucket holds the number of the samples whose
  bit length is its index, the last bucket those that are longer too.
\<close>

theorem record_all_counters:
  assumes b: "8 \<le> buckets" "buckets \<le> 128" and n: "xs \<noteq> []" "length xs < 2 ^ 64"
  shows "\<exists>h. record_all (histogram_new buckets) xs = Inr h
    \<and> unat (hist_count h) = length xs \<and> hist_min h = Min (set xs) \<and> hist_max h = Max (set xs)
    \<and> hb_sum h = sum_list xs
    \<and> map unat (hb_buckets h) = map (\<lambda>i. count (mset (map (\<lambda>v. min (bit_length v) (buckets - 1)) xs)) i) [0..<buckets]"
proof -
  obtain h where h: "record_all (histogram_new buckets) xs = Inr h" "hist_inv buckets (rev xs) h"
    using record_all_new [OF b] by blast
  have cnt: "unat (hist_count h) = length xs" using h(2) n(2) by (simp add: hist_inv_def hist_count_def)
  have "hb_count h \<noteq> 0" using cnt n(1) by (auto simp: hist_count_def)
  then have "hist_min h = Min (set xs)" "hist_max h = Max (set xs)" "hb_sum h = sum_list xs"
    using h(2) n(1) by (simp_all add: hist_inv_def hist_min_def hist_max_def foldr_min_top foldr_max_bot)
  moreover have "map unat (hb_buckets h) = map (\<lambda>i. count (mset (map (\<lambda>v. min (bit_length v) (buckets - 1)) xs)) i) [0..<buckets]"
  proof (rule nth_equalityI)
    show "length (map unat (hb_buckets h)) = length (map (\<lambda>i. count (mset (map (\<lambda>v. min (bit_length v) (buckets - 1)) xs)) i) [0..<buckets])"
      using h(2) by (simp add: hist_inv_def)
  next
    fix i assume i: "i < length (map unat (hb_buckets h))"
    let ?k = "\<lambda>v. min (bit_length v) (buckets - 1)"
    have len: "length (hb_buckets h) = buckets" using h(2) by (simp add: hist_inv_def)
    have "hb_buckets h ! i = word_of_nat (length (filter (\<lambda>v. ?k v = i) xs))"
      using h(2) i by (simp add: hist_inv_def len bucket_index_nat [OF b] rev_filter [symmetric])
    moreover have "length (filter (\<lambda>v. ?k v = i) xs) < 2 ^ 64"
      using length_filter_le n(2) by (rule le_less_trans)
    moreover have "count (mset (map ?k xs)) i = length (filter (\<lambda>v. ?k v = i) xs)"
      by (induction xs) auto
    ultimately show "map unat (hb_buckets h) ! i = map (\<lambda>i. count (mset (map ?k xs)) i) [0..<buckets] ! i"
      using i by (simp add: len)
  qed
  ultimately show ?thesis using h(1) cnt by blast
qed

theorem record_all_counters_witness:
  "\<exists>h. record_all (histogram_new 8) [3, 200, 0] = Inr h
    \<and> unat (hist_count h) = 3 \<and> hist_min h = 0 \<and> hist_max h = 200 \<and> hb_sum h = 203"
proof -
  have pre: "(8 :: nat) \<le> 8" "(8 :: nat) \<le> 128" "[3, 200, 0 :: u64] \<noteq> []" "length [3, 200, 0 :: u64] < 2 ^ 64"
    by simp_all
  have "Min (set [3, 200, 0 :: u64]) = 0" "Max (set [3, 200, 0 :: u64]) = 200" by simp_all
  moreover have "length [3, 200, 0 :: u64] = 3" "sum_list [3, 200, 0 :: u64] = 203" by simp_all
  ultimately show ?thesis using record_all_counters [OF pre] by metis
qed

lemma percentile_rank_close:
  assumes p: "p2 (- 993) \<le> p" "p \<le> 100" and n: "0 < n" "n \<le> 2 ^ 51"
  shows "1 \<le> percentile_rank p n" and "percentile_rank p n \<le> n"
    and "\<bar>int (percentile_rank p n) - \<lceil>p * of_nat n / 100\<rceil>\<bar> \<le> 1"
proof -
  have "p2 (- 1000) = p2 (- 993) / 128" using p2_diff [of "- 993" 7] by (simp add: p2_def)
  moreover have "(0 :: rat) < p2 (- 993)" by simp
  ultimately have x: "p2 (- 1000) \<le> p / 100" "p / 100 \<le> 1" and p0: "0 < p" using p by linarith+
  have clamp: "min p 100 = p" using p(2) by simp
  note c = binary64.fraction_close [OF x n]
  have n53: "int n \<le> 2 ^ 53" using n(2) by simp
  show "percentile_rank p n \<le> n" by (rule percentile_rank_le(1) [OF p0 n53])
  have t: "int (percentile_rank p n) = \<lceil>rd (rd (p / 100) * of_nat n)\<rceil>"
    using percentile_rank_le(2) [OF p0 n53] by (simp add: percentile_rank_def clamp)
  show "1 \<le> percentile_rank p n" using c(1) t by linarith
  show "\<bar>int (percentile_rank p n) - \<lceil>p * of_nat n / 100\<rceil>\<bar> \<le> 1"
    using c(2) unfolding t by (simp add: abs_le_iff abs_less_iff) linarith
qed

lemma sorted_percentile:
  assumes b: "8 \<le> buckets" "buckets \<le> 128" and n: "0 < length xs" "length xs \<le> 2 ^ 51"
    and p: "p2 (- 993) \<le> p" "p \<le> 100"
    and h: "hist_inv buckets (rev xs) h"
  shows "value_at_percentile h (Finite p)
    = Inr (Some (representative buckets (sort xs ! (percentile_rank p (length xs) - 1))))"
proof -
  have "0 < p" using p(1) p2_pos [of "- 993"] by linarith
  moreover have "percentile_rank p (length xs) \<noteq> 0"
    using percentile_rank_close(1) [OF p n] by linarith
  ultimately show ?thesis
    using value_at_percentile_eq [OF b h, of p] n by (simp add: sort_rev)
qed

text \<open>
  C15: \<open>value_at_percentile(pct)\<close> for a percentage of (0, 100], from 2^-993 on, in a histogram of
  8 to 128 buckets with 1 to 2^51 samples, is a value, and names a sample: the one whose rank \<open>t\<close> is
  at most one off the exact rank \<open>\<lceil>pct n / 100\<rceil>\<close> by the rounding of the binary64 operations. If this
  sample is below 2^(buckets - 1), the value returned is at least three quarters of it and at most
  three halves. Otherwise the sample is counted in the last bucket with all the longer ones, and the
  value is the middle of that bucket, below the sample however large it is.
\<close>

theorem percentile_names_a_sample:
  assumes b: "8 \<le> buckets" "buckets \<le> 128" and n: "0 < length xs" "length xs \<le> 2 ^ 51"
    and p: "p2 (- 993) \<le> p" "p \<le> 100"
  shows "\<exists>h t r x. record_all (histogram_new buckets) xs = Inr h
    \<and> value_at_percentile h (Finite p) = Inr (Some r)
    \<and> 1 \<le> t \<and> t \<le> length xs \<and> \<bar>int t - \<lceil>p * of_nat (length xs) / 100\<rceil>\<bar> \<le> 1
    \<and> x = unat (sort xs ! (t - 1))
    \<and> (if x < 2 ^ (buckets - 1) then 2 * unat r \<le> 3 * x \<and> 3 * x \<le> 4 * unat r
       else unat r = 2 ^ (buckets - 2) + 2 ^ (buckets - 3) \<and> unat r < x)"
proof -
  obtain h where h: "record_all (histogram_new buckets) xs = Inr h" "hist_inv buckets (rev xs) h"
    using record_all_new [OF b] by blast
  define t where "t = percentile_rank p (length xs)"
  define v where "v = sort xs ! (t - 1)"
  define r where "r = representative buckets v"
  note t = percentile_rank_close [OF p n, folded t_def]
  have own: "bit_length v < buckets \<longleftrightarrow> unat v < 2 ^ (buckets - 1)"
    using bit_length_less_iff [of v "buckets - 1"] b(1) by simp
  have "2 * unat r \<le> 3 * unat v \<and> 3 * unat v \<le> 4 * unat r" if "unat v < 2 ^ (buckets - 1)"
    using representative_close [OF b] that own by (simp add: r_def)
  moreover have "unat r = 2 ^ (buckets - 2) + 2 ^ (buckets - 3) \<and> unat r < unat v"
    if "\<not> unat v < 2 ^ (buckets - 1)"
  proof -
    have "unat r = 2 ^ (buckets - 2) + 2 ^ (buckets - 3)"
      using representative_last [OF b] that by (simp add: r_def)
    moreover have "buckets - 1 = Suc (Suc (buckets - 3))" "buckets - 2 = Suc (buckets - 3)"
      using b(1) by simp_all
    then have "(2 :: nat) ^ (buckets - 1) = 4 * 2 ^ (buckets - 3)"
      and "(2 :: nat) ^ (buckets - 2) = 2 * 2 ^ (buckets - 3)" by simp_all
    moreover have "(0 :: nat) < 2 ^ (buckets - 3)" by simp
    ultimately show ?thesis using that by linarith
  qed
  ultimately have close: "if unat v < 2 ^ (buckets - 1)
      then 2 * unat r \<le> 3 * unat v \<and> 3 * unat v \<le> 4 * unat r
      else unat r = 2 ^ (buckets - 2) + 2 ^ (buckets - 3) \<and> unat r < unat v" by presburger
  have reads: "value_at_percentile h (Finite p) = Inr (Some r)"
    using sorted_percentile [OF b n p h(2)] by (simp only: t_def v_def r_def)
  show ?thesis using h(1) reads t close unfolding v_def by blast
qed

theorem percentile_names_a_sample_witness:
  "\<exists>h r. record_all (histogram_new 8) [1000000] = Inr h
    \<and> value_at_percentile h (Finite 50) = Inr (Some r) \<and> unat r = 96"
proof -
  have "p2 (- 993) \<le> 1" using p2_le_iff [of "- 993" 0] by (simp add: p2_def)
  then have p: "p2 (- 993) \<le> 50" "(50 :: rat) \<le> 100" by simp_all
  have b: "(8 :: nat) \<le> 8" "(8 :: nat) \<le> 128" by simp_all
  have n: "0 < length [1000000 :: u64]" "length [1000000 :: u64] \<le> 2 ^ 51" by simp_all
  from percentile_names_a_sample [OF b n p] obtain h t r x where
    h: "record_all (histogram_new 8) [1000000] = Inr h" "value_at_percentile h (Finite 50) = Inr (Some r)"
    and t: "1 \<le> t" "t \<le> length [1000000 :: u64]" and x: "x = unat (sort [1000000 :: u64] ! (t - 1))"
    and r: "if x < 2 ^ (8 - 1) then 2 * unat r \<le> 3 * x \<and> 3 * x \<le> 4 * unat r
      else unat r = 2 ^ (8 - 2) + 2 ^ (8 - 3) \<and> unat r < x" by blast
  have "t = 1" using t by simp
  then have "x = 1000000" using x by simp
  with h r show ?thesis by simp
qed

lemma value_at_percentile_mono:
  assumes b: "8 \<le> buckets" "buckets \<le> 128" and h: "hist_inv buckets xs h"
    and n: "xs \<noteq> []" "length xs \<le> 2 ^ 53" and pq: "0 < p" "p \<le> q"
  shows "\<exists>v w. value_at_percentile h (Finite p) = Inr (Some v)
    \<and> value_at_percentile h (Finite q) = Inr (Some w) \<and> v \<le> w"
proof -
  let ?n = "length xs"
  let ?t = "\<lambda>p. percentile_rank p ?n"
  let ?v = "\<lambda>t. if t = 0 then 0 else representative buckets (sort xs ! (t - 1))"
  have n53: "int ?n \<le> 2 ^ 53" using n(2) by simp
  have reads: "value_at_percentile h (Finite r) = Inr (Some (?v (?t r)))" if "0 < r" for r
    using value_at_percentile_eq [OF b h, of r] n(1) n53 that by simp
  have "rd (rd (min p 100 / 100) * of_nat ?n) \<le> rd (rd (min q 100 / 100) * of_nat ?n)"
    using pq(2) by (intro binary64.fraction_mono divide_right_mono) simp_all
  then have ranks: "?t p \<le> ?t q" unfolding percentile_rank_def by (intro nat_mono ceiling_mono)
  moreover have "?t q \<le> ?n" using percentile_rank_le(1) [of q ?n] pq n53 by simp
  ultimately have "sort xs ! (?t p - 1) \<le> sort xs ! (?t q - 1)" if "?t p \<noteq> 0"
    using that by (intro sorted_nth_mono [OF sorted_sort]) simp_all
  then have "?v (?t p) \<le> ?v (?t q)" using ranks by (simp add: representative_mono [OF b])
  then show ?thesis using reads [OF pq(1)] reads [OF less_le_trans [OF pq]] by blast
qed

text \<open>
  C37: Percentiles are monotone: of one histogram of 8 to 128 buckets, with 1 to 2^53 samples, a larger
  percentage never gives a smaller value, for all percentages above 0, also beyond 100.
\<close>

theorem percentile_mono:
  assumes b: "8 \<le> buckets" "buckets \<le> 128" and n: "xs \<noteq> []" "length xs \<le> 2 ^ 53"
    and pq: "0 < p" "p \<le> q"
  shows "\<exists>h v w. record_all (histogram_new buckets) xs = Inr h
    \<and> value_at_percentile h (Finite p) = Inr (Some v)
    \<and> value_at_percentile h (Finite q) = Inr (Some w) \<and> v \<le> w"
proof -
  obtain h where h: "record_all (histogram_new buckets) xs = Inr h" "hist_inv buckets (rev xs) h"
    using record_all_new [OF b] by blast
  then show ?thesis using value_at_percentile_mono [OF b h(2), of p q] n pq by auto
qed

theorem percentile_mono_witness:
  "\<exists>h v w. record_all (histogram_new 64) [900, 5, 70, 3] = Inr h
    \<and> value_at_percentile h (Finite 50) = Inr (Some v)
    \<and> value_at_percentile h (Finite 99) = Inr (Some w) \<and> v \<le> w"
  by (rule percentile_mono) simp_all

text \<open>
  The rank is not always the exact one: of 7 samples 0 and 93 samples 1000 the 7th percentile
  is the 7th smallest sample, 0, but 7.0 / 100.0 * 100.0 is rounded above 7, the code takes the 8th
  smallest, and returns 768.
\<close>

theorem percentile_rank_one_too_high:
  "\<exists>h. record_all (histogram_new 64) (replicate 7 0 @ replicate 93 1000) = Inr h
    \<and> value_at_percentile h (Finite 7) = Inr (Some 768)
    \<and> sort (replicate 7 0 @ replicate 93 1000 :: u64 list) ! (nat \<lceil>(7 :: rat) * 100 / 100\<rceil> - 1) = 0"
proof -
  let ?xs = "replicate 7 0 @ replicate 93 1000 :: u64 list"
  have b: "(8 :: nat) \<le> 64" "(64 :: nat) \<le> 128" by simp_all
  obtain h where h: "record_all (histogram_new 64) ?xs = Inr h" "hist_inv 64 (rev ?xs) h"
    using record_all_new [OF b] by blast
  have t: "percentile_rank 7 100 = 8" by code_simp
  have two_runs: "sorted (replicate m 0 @ replicate k 1000 :: u64 list) = True" for m k
    by (auto simp: sorted_append)
  have sort: "sort ?xs = ?xs"
    by (rule sorted_sort_id) (simp only: two_runs)
  have n: "length (rev ?xs) = 100" "0 < length (rev ?xs)" "int (length (rev ?xs)) \<le> 2 ^ 53"
    by (simp_all only: length_rev length_append length_replicate) simp_all
  have nth: "?xs ! 7 = 1000" "?xs ! 6 = 0" by (simp_all only: nth_append length_replicate) simp_all
  have "representative 64 1000 = 768" by code_simp
  then have "value_at_percentile h (Finite 7) = Inr (Some 768)"
    using value_at_percentile_eq [OF b h(2) n(2,3), of 7] nth
    by (simp only: n(1) t sort_rev sort) simp
  moreover have "?xs ! (nat \<lceil>(7 :: rat) * 100 / 100\<rceil> - 1) = 0" using nth by simp
  ultimately show ?thesis using h(1) sort by (simp only:) blast
qed

text \<open>
  Without a usable argument: an empty histogram or a percentage that is not positive gives no
  value, and a NaN, which is not \<open>\<le> 0.0\<close>, passes the guard of a histogram with samples and
  reaches a conversion to an integer that is undefined.
\<close>

theorem percentile_guards:
  "(value_at_percentile h (Finite p) = Inr None \<longleftrightarrow> hist_count h = 0 \<or> p \<le> 0)
   \<and> value_at_percentile h (Infinity True) = Inr None
   \<and> value_at_percentile h NaN = (if hist_count h = 0 then Inr None else Inl Bad_Conversion)"
  by (auto simp: value_at_percentile_def hist_count_def double_min_def res_bind_Inr_iff)

lemma unat_sum_list:
  "sum_list (map unat xs) < 2 ^ 64 \<Longrightarrow> unat (sum_list xs :: u64) = sum_list (map unat xs)"
  by (induction xs) (simp_all add: unat_add_no_wrap)

text \<open>
  \<open>mean()\<close> is the exact mean, rounded once, while the sum is exact in binary64; it is wrong as soon
  as the sum wraps around.
\<close>

theorem hist_mean_rounded:
  assumes b: "8 \<le> buckets" "buckets \<le> 128" and xs: "xs \<noteq> []" "length xs \<le> 2 ^ 53"
    and sum: "sum_list (map unat xs) \<le> 2 ^ 53"
  shows "\<exists>h. record_all (histogram_new buckets) xs = Inr h
    \<and> hist_mean h = Finite (rd (of_nat (sum_list (map unat xs)) / of_nat (length xs)))"
proof -
  obtain h where h: "record_all (histogram_new buckets) xs = Inr h" "hist_inv buckets (rev xs) h"
    using record_all_new [OF b] by blast
  have cnt: "unat (hb_count h) = length xs" using h(2) xs(2) by (simp add: hist_inv_def)
  then have "hb_count h \<noteq> 0" using xs(1) by auto
  moreover have "unat (hb_sum h) = sum_list (map unat xs)"
    using h(2) sum by (simp add: hist_inv_def unat_sum_list)
  moreover have "rd (of_nat m) = of_nat m" if "m \<le> 2 ^ 53" for m
    using rd_of_int [of "int m"] that by simp
  ultimately show ?thesis using h(1) cnt sum xs(2) by (simp add: hist_mean_def)
qed

lemma hist_mean_wraps:
  "\<exists>h. record_all (histogram_new 64) [2 ^ 63, 2 ^ 63] = Inr h \<and> hist_mean h = Finite 0"
proof -
  obtain h where h: "record_all (histogram_new 64) [2 ^ 63, 2 ^ 63] = Inr h"
    "hist_inv 64 (rev [2 ^ 63, 2 ^ 63]) h"
    using record_all_new [of 64 "[2 ^ 63, 2 ^ 63]"] by auto
  then have "hb_sum h = 0" by (simp add: hist_inv_def)
  then show ?thesis using h(1) by (auto simp: hist_mean_def rd_def)
qed

text \<open>A reset histogram is a new one: no trace of the samples before.\<close>

lemma hist_reset_new:
  assumes "8 \<le> buckets" and "buckets \<le> 128"
  shows "res_bind (record_all (histogram_new buckets) xs) (\<lambda>h. Inr (hist_reset h)) = Inr (histogram_new buckets)"
proof -
  obtain h where h: "record_all (histogram_new buckets) xs = Inr h" "hist_inv buckets (rev xs) h"
    using record_all_new [OF assms] by blast
  then show ?thesis by (simp add: hist_reset_def histogram_new_def hist_inv_def)
qed

text \<open>The representative of a bucket can exceed the largest sample.\<close>

lemma percentile_above_max:
  "\<exists>h. record_all (histogram_new 64) [4] = Inr h \<and> hist_max h = 4
    \<and> value_at_percentile h (Finite 100) = Inr (Some 6)"
proof -
  obtain h where h: "record_all (histogram_new 64) [4] = Inr h" "hist_inv 64 (rev [4]) h"
    using record_all_new [of 64 "[4]"] by auto
  have "percentile_rank 100 1 = 1" by code_simp
  moreover have "representative 64 4 = 6" by code_simp
  ultimately have "value_at_percentile h (Finite 100) = Inr (Some 6)"
    using value_at_percentile_eq [OF _ _ h(2), of 100] by simp
  moreover have "hist_max h = 4" using h(2) by (simp add: hist_inv_def hist_max_def)
  ultimately show ?thesis using h(1) by blast
qed

end
