(* ===== verification/HdrC.thy ===== *)
theory HdrC
  imports ExternalCalls HdrHistogram
begin

text \<open>
  The wrapper \<open>ll::HdrHistogramC\<close> of \<open>include/ll/hdr_c.hpp\<close> around HdrHistogram_c, and the bridge
  to the portable histogram. \<open>LL_HAS_HDRHISTOGRAM_C\<close> is the argument \<open>has\<close>; the library is an
  environment that answers the calls. Signed 64-bit values are 64-bit words read with \<open>sint\<close>.
\<close>

section \<open>Calls into HdrHistogram_c\<close>

type_synonym i64 = "64 word"

datatype hdr_call =
    Hdr_Init i64 i64 int int "nat option"
  | Hdr_Close nat
  | Hdr_Record_Value nat i64
  | Hdr_Min nat
  | Hdr_Max nat
  | Hdr_Mean nat
  | Hdr_Value_At_Percentile nat double
  | Hdr_Reset nat

text \<open>
  The answers; \<open>hdr_init\<close> also stores a pointer to the new histogram, or leaves the pointer as it
  was when it fails.
\<close>

record hdr_env =
  on_init :: "hdr_call list \<Rightarrow> i64 \<Rightarrow> i64 \<Rightarrow> int \<Rightarrow> int \<times> nat option"
  on_min :: "hdr_call list \<Rightarrow> nat \<Rightarrow> i64"
  on_max :: "hdr_call list \<Rightarrow> nat \<Rightarrow> i64"
  on_mean :: "hdr_call list \<Rightarrow> nat \<Rightarrow> double"
  on_percentile :: "hdr_call list \<Rightarrow> nat \<Rightarrow> double \<Rightarrow> i64"

section \<open>The wrapper\<close>

definition hdr_c_available :: "bool \<Rightarrow> bool" where
  "hdr_c_available has = has"

text \<open>\<open>hist_\<close> is null or a histogram of the library.\<close>

record hdr_c =
  hist_ptr :: "nat option"

type_synonym hdr_state = "hdr_c \<times> hdr_call list"

definition hdr_new :: "hdr_env \<Rightarrow> bool \<Rightarrow> i64 \<Rightarrow> int \<Rightarrow> hdr_call list \<Rightarrow> hdr_state" where
  "hdr_new env has highest_trackable significant_figures tr =
     (if has then
        let (rc, h) = on_init env tr 1 highest_trackable significant_figures;
            tr = tr @ [Hdr_Init 1 highest_trackable significant_figures rc h]
        in if rc \<noteq> 0 then (\<lparr>hist_ptr = None\<rparr>, tr) else (\<lparr>hist_ptr = h\<rparr>, tr)
      else (\<lparr>hist_ptr = None\<rparr>, tr))"

definition hdr_destroy :: "hdr_state \<Rightarrow> hdr_state" where
  "hdr_destroy s =
     (let (c, tr) = s in
      case hist_ptr c of None \<Rightarrow> (c, tr) | Some h \<Rightarrow> (c\<lparr>hist_ptr := None\<rparr>, tr @ [Hdr_Close h]))"

definition hdr_valid :: "hdr_c \<Rightarrow> bool" where
  "hdr_valid c \<longleftrightarrow> hist_ptr c \<noteq> None"

definition hdr_record :: "i64 \<Rightarrow> hdr_state \<Rightarrow> hdr_state" where
  "hdr_record value s =
     (let (c, tr) = s in
      case hist_ptr c of
        None \<Rightarrow> (c, tr)
      | Some h \<Rightarrow> if 0 \<le> sint value then (c, tr @ [Hdr_Record_Value h value]) else (c, tr))"

definition hdr_min :: "hdr_env \<Rightarrow> hdr_state \<Rightarrow> i64 \<times> hdr_state" where
  "hdr_min env s =
     (let (c, tr) = s in
      case hist_ptr c of None \<Rightarrow> (0, (c, tr)) | Some h \<Rightarrow> (on_min env tr h, (c, tr @ [Hdr_Min h])))"

definition hdr_max :: "hdr_env \<Rightarrow> hdr_state \<Rightarrow> i64 \<times> hdr_state" where
  "hdr_max env s =
     (let (c, tr) = s in
      case hist_ptr c of None \<Rightarrow> (0, (c, tr)) | Some h \<Rightarrow> (on_max env tr h, (c, tr @ [Hdr_Max h])))"

definition hdr_mean :: "hdr_env \<Rightarrow> hdr_state \<Rightarrow> double \<times> hdr_state" where
  "hdr_mean env s =
     (let (c, tr) = s in
      case hist_ptr c of
        None \<Rightarrow> (Finite 0, (c, tr)) | Some h \<Rightarrow> (on_mean env tr h, (c, tr @ [Hdr_Mean h])))"

definition hdr_value_at_percentile :: "hdr_env \<Rightarrow> double \<Rightarrow> hdr_state \<Rightarrow> i64 option \<times> hdr_state" where
  "hdr_value_at_percentile env pct s =
     (let (c, tr) = s in
      case hist_ptr c of
        None \<Rightarrow> (None, (c, tr))
      | Some h \<Rightarrow> (Some (on_percentile env tr h pct), (c, tr @ [Hdr_Value_At_Percentile h pct])))"

definition hdr_reset :: "hdr_state \<Rightarrow> hdr_state" where
  "hdr_reset s =
     (let (c, tr) = s in
      case hist_ptr c of None \<Rightarrow> (c, tr) | Some h \<Rightarrow> (c, tr @ [Hdr_Reset h]))"

text \<open>The bridge to the portable histogram.\<close>

definition record_into_portable :: "histogram \<Rightarrow> u64 \<Rightarrow> histogram res" where
  "record_into_portable portable v = hist_record portable v"

section \<open>The protocol\<close>

text \<open>One histogram: initialised, used with the pointer it got and values from 0 on, and closed.\<close>

fun hdr_trans :: "nat option \<Rightarrow> hdr_call \<Rightarrow> nat option option" where
  "hdr_trans p (Hdr_Init low high figures rc h) =
     (if p = None then Some (if rc = 0 then h else None) else None)"
| "hdr_trans p (Hdr_Close h) = (if p = Some h then Some None else None)"
| "hdr_trans p (Hdr_Record_Value h v) = (if p = Some h \<and> 0 \<le> sint v then Some p else None)"
| "hdr_trans p (Hdr_Min h) = (if p = Some h then Some p else None)"
| "hdr_trans p (Hdr_Max h) = (if p = Some h then Some p else None)"
| "hdr_trans p (Hdr_Mean h) = (if p = Some h then Some p else None)"
| "hdr_trans p (Hdr_Value_At_Percentile h pct) = (if p = Some h then Some p else None)"
| "hdr_trans p (Hdr_Reset h) = (if p = Some h then Some p else None)"

datatype hdr_op = Record_Op i64 | Min_Op | Max_Op | Mean_Op | Percentile_Op double | Reset_Op

fun hdr_op_call :: "hdr_env \<Rightarrow> hdr_op \<Rightarrow> hdr_state \<Rightarrow> hdr_state" where
  "hdr_op_call env (Record_Op v) s = hdr_record v s"
| "hdr_op_call env Min_Op s = snd (hdr_min env s)"
| "hdr_op_call env Max_Op s = snd (hdr_max env s)"
| "hdr_op_call env Mean_Op s = snd (hdr_mean env s)"
| "hdr_op_call env (Percentile_Op pct) s = snd (hdr_value_at_percentile env pct s)"
| "hdr_op_call env Reset_Op s = hdr_reset s"

lemmas hdr_ops = hdr_record_def hdr_min_def hdr_max_def hdr_mean_def hdr_value_at_percentile_def
  hdr_reset_def hdr_destroy_def

interpretation hdr: protocol_owner hdr_trans "hdr_op_call env" "\<lambda>c p. p = hist_ptr c" hdr_destroy None
  for env
proof unfold_locales
  fix x c tr c' tr' p
  assume "hdr_op_call env x (c, tr) = (c', tr')" and "p = hist_ptr c"
  then show "\<exists>es p'. tr' = tr @ es \<and> follow hdr_trans p es = Some p' \<and> p' = hist_ptr c'"
    by (cases x) (auto simp: hdr_ops split: option.splits if_splits)
next
  fix c tr c' tr' p
  assume "hdr_destroy (c, tr) = (c', tr')" and "p = hist_ptr c"
  then show "\<exists>es. tr' = tr @ es \<and> follow hdr_trans p es = Some None"
    by (auto simp: hdr_ops split: option.splits)
qed

section \<open>Properties\<close>

lemma hdr_new_obeys:
  "hdr_new env has highest figures [] = (c, tr) \<Longrightarrow> follow hdr_trans None tr = Some (hist_ptr c)"
  by (auto simp: hdr_new_def Let_def split: if_splits prod.splits)

text \<open>
  C28: Whatever HdrHistogram_c answers, every use of the wrapper, from its construction to its
  destruction, is proper: a histogram is initialised once, used through the pointer it returned
  and only while it lives, given values from 0 on, and closed exactly once; when the
  initialisation fails the library is not called again.
\<close>

theorem hdr_c_protocol:
  "follow hdr_trans None
     (snd (hdr_destroy (run_ops (hdr_op_call env) ops (hdr_new env has highest figures [])))) = Some None"
proof -
  obtain c tr where n: "hdr_new env has highest figures [] = (c, tr)" by fastforce
  show ?thesis unfolding n by (rule hdr.life_obeys [OF refl hdr_new_obeys [OF n]])
qed

text \<open>The values that reach the library.\<close>

fun recorded_value :: "hdr_call \<Rightarrow> i64 option" where
  "recorded_value (Hdr_Record_Value h v) = Some v"
| "recorded_value _ = None"

fun asked_value :: "hdr_op \<Rightarrow> i64 option" where
  "asked_value (Record_Op v) = (if 0 \<le> sint v then Some v else None)"
| "asked_value _ = None"

lemma hdr_op_call_records:
  assumes "hdr_op_call env x (c, tr) = (c', tr')"
  shows "c' = c \<and> List.map_filter recorded_value tr'
    = List.map_filter recorded_value tr @ (if hdr_valid c then List.map_filter asked_value [x] else [])"
  using assms
  by (cases x) (auto simp: hdr_ops hdr_valid_def List.map_filter_def split: option.splits if_splits)

text \<open>
  A valid wrapper passes on the values from 0 on, in order, and drops the negative ones; an
  invalid one, or one built without the library, passes on nothing and answers 0 and no value.
\<close>

theorem hdr_c_records:
  assumes "run_ops (hdr_op_call env) ops (c, tr) = (c', tr')"
  shows "c' = c \<and> List.map_filter recorded_value tr'
      = List.map_filter recorded_value tr @ (if hdr_valid c then List.map_filter asked_value ops else [])
    \<and> (hdr_valid c \<or> (fst (hdr_min env (c, tr)) = 0 \<and> fst (hdr_max env (c, tr)) = 0
        \<and> fst (hdr_mean env (c, tr)) = Finite 0 \<and> fst (hdr_value_at_percentile env pct (c, tr)) = None))"
proof -
  have "c' = c \<and> List.map_filter recorded_value tr'
      = List.map_filter recorded_value tr @ (if hdr_valid c then List.map_filter asked_value ops else [])"
    using assms
  proof (induction ops arbitrary: tr)
    case (Cons x ops)
    obtain c1 tr1 where x: "hdr_op_call env x (c, tr) = (c1, tr1)" by fastforce
    note r = hdr_op_call_records [OF x]
    then have "run_ops (hdr_op_call env) ops (c, tr1) = (c', tr')" using Cons.prems x by simp
    from Cons.IH [OF this] r show ?case by (auto simp: List.map_filter_def)
  qed (simp add: List.map_filter_def)
  moreover have "hdr_valid c \<or> (fst (hdr_min env (c, tr)) = 0 \<and> fst (hdr_max env (c, tr)) = 0
      \<and> fst (hdr_mean env (c, tr)) = Finite 0 \<and> fst (hdr_value_at_percentile env pct (c, tr)) = None)"
    by (auto simp: hdr_ops hdr_valid_def split: option.split)
  ultimately show ?thesis by blast
qed

definition empty_library :: hdr_env where
  "empty_library = \<lparr>on_init = (\<lambda>tr low high figures. (0, Some 3)), on_min = (\<lambda>tr h. 0), on_max = (\<lambda>tr h. 0),
     on_mean = (\<lambda>tr h. Finite 0), on_percentile = (\<lambda>tr h pct. 0)\<rparr>"

theorem hdr_c_records_witness:
  "List.map_filter recorded_value (snd (run_ops (hdr_op_call empty_library) [Record_Op 5, Record_Op (- 1), Reset_Op, Record_Op 0]
     (\<lparr>hist_ptr = Some 3\<rparr>, []))) = [5, 0]"
proof -
  let ?ops = "[Record_Op 5, Record_Op (- 1), Reset_Op, Record_Op 0]"
  obtain c' tr' where r: "run_ops (hdr_op_call empty_library) ?ops (\<lparr>hist_ptr = Some 3\<rparr>, []) = (c', tr')" by fastforce
  have "List.map_filter asked_value ?ops = [5, 0]" by (simp add: List.map_filter_def)
  moreover have "List.map_filter recorded_value [] = []" by (simp add: List.map_filter_def)
  ultimately show ?thesis
    using hdr_c_records [OF r, of NaN] unfolding r by (simp add: hdr_valid_def)
qed

section \<open>Without the library\<close>

text \<open>
  Built without HdrHistogram_c, \<open>HdrHistogramC\<close> is another class: it has no state, and its members
  do nothing and answer constants.
\<close>

definition stub_c_new :: "i64 \<Rightarrow> int \<Rightarrow> unit" where
  "stub_c_new highest_trackable significant_figures = ()"

definition stub_c_valid :: "unit \<Rightarrow> bool" where
  "stub_c_valid c \<longleftrightarrow> False"

definition stub_c_record :: "i64 \<Rightarrow> unit \<Rightarrow> unit" where
  "stub_c_record value c = ()"

definition stub_c_min :: "unit \<Rightarrow> i64" where
  "stub_c_min c = 0"

definition stub_c_max :: "unit \<Rightarrow> i64" where
  "stub_c_max c = 0"

definition stub_c_mean :: "unit \<Rightarrow> double" where
  "stub_c_mean c = Finite 0"

definition stub_c_value_at_percentile :: "double \<Rightarrow> unit \<Rightarrow> i64 option" where
  "stub_c_value_at_percentile pct c = None"

definition stub_c_reset :: "unit \<Rightarrow> unit" where
  "stub_c_reset c = ()"

lemmas stub_c_defs = stub_c_valid_def stub_c_record_def stub_c_min_def stub_c_max_def stub_c_mean_def
  stub_c_value_at_percentile_def stub_c_reset_def

text \<open>What a caller of either class sees.\<close>

datatype hdr_query = Ask_Valid | Ask_Min | Ask_Max | Ask_Mean | Ask_Percentile double | Do_Record i64 | Do_Reset

datatype hdr_reply = Reply_Bool bool | Reply_Int i64 | Reply_Double double | Reply_Option "i64 option" | No_Reply

fun ask_library :: "hdr_env \<Rightarrow> hdr_query \<Rightarrow> hdr_state \<Rightarrow> hdr_reply \<times> hdr_state" where
  "ask_library env Ask_Valid s = (Reply_Bool (hdr_valid (fst s)), s)"
| "ask_library env Ask_Min s = map_prod Reply_Int id (hdr_min env s)"
| "ask_library env Ask_Max s = map_prod Reply_Int id (hdr_max env s)"
| "ask_library env Ask_Mean s = map_prod Reply_Double id (hdr_mean env s)"
| "ask_library env (Ask_Percentile pct) s = map_prod Reply_Option id (hdr_value_at_percentile env pct s)"
| "ask_library env (Do_Record v) s = (No_Reply, hdr_record v s)"
| "ask_library env Do_Reset s = (No_Reply, hdr_reset s)"

fun ask_stub :: "hdr_query \<Rightarrow> unit \<Rightarrow> hdr_reply \<times> unit" where
  "ask_stub Ask_Valid c = (Reply_Bool (stub_c_valid c), c)"
| "ask_stub Ask_Min c = (Reply_Int (stub_c_min c), c)"
| "ask_stub Ask_Max c = (Reply_Int (stub_c_max c), c)"
| "ask_stub Ask_Mean c = (Reply_Double (stub_c_mean c), c)"
| "ask_stub (Ask_Percentile pct) c = (Reply_Option (stub_c_value_at_percentile pct c), c)"
| "ask_stub (Do_Record v) c = (No_Reply, stub_c_record v c)"
| "ask_stub Do_Reset c = (No_Reply, stub_c_reset c)"

fun replies :: "('q \<Rightarrow> 's \<Rightarrow> 'r \<times> 's) \<Rightarrow> 'q list \<Rightarrow> 's \<Rightarrow> 'r list \<times> 's" where
  "replies ask [] s = ([], s)"
| "replies ask (q # qs) s = (let (r, s) = ask q s; (rs, s) = replies ask qs s in (r # rs, s))"

lemma ask_null_library:
  "ask_library env q (\<lparr>hist_ptr = None\<rparr>, tr) = (fst (ask_stub q c), (\<lparr>hist_ptr = None\<rparr>, tr))"
  by (cases q) (simp_all add: hdr_ops hdr_valid_def stub_c_defs)

lemma replies_null_library:
  "replies (ask_library env) qs (\<lparr>hist_ptr = None\<rparr>, tr)
    = (fst (replies ask_stub qs c), (\<lparr>hist_ptr = None\<rparr>, tr))"
proof (induction qs arbitrary: c)
  case (Cons q qs)
  have "ask_stub q c = (fst (ask_stub q c), c)" by (cases q) simp_all
  then show ?case using Cons ask_null_library [of env q tr c] by (auto simp: Let_def split: prod.splits)
qed simp

text \<open>
  C29: the class of a build without HdrHistogram_c answers every sequence of calls as the class of a
  build with it does when \<open>hdr_init\<close> fails; that one does not call the library again.
\<close>

theorem hdr_c_stub_equivalent:
  assumes failed: "fst (on_init env tr 1 highest figures) \<noteq> 0"
  shows "fst (replies (ask_library env) qs (hdr_new env True highest figures tr))
      = fst (replies ask_stub qs (stub_c_new highest figures))
    \<and> snd (snd (replies (ask_library env) qs (hdr_new env True highest figures tr)))
      = snd (hdr_new env True highest figures tr)"
proof -
  obtain tr' where new: "hdr_new env True highest figures tr = (\<lparr>hist_ptr = None\<rparr>, tr')"
    using failed by (cases "on_init env tr 1 highest figures") (simp add: hdr_new_def)
  show ?thesis using replies_null_library [of env qs tr' "stub_c_new highest figures"] by (simp add: new)
qed

theorem hdr_c_stub_equivalent_witness:
  "let env = empty_library\<lparr>on_init := \<lambda>tr low high figures. (22, None)\<rparr> in
   fst (replies (ask_library env) [Do_Record 5, Ask_Valid, Ask_Max, Ask_Percentile NaN] (hdr_new env True 0 9 []))
     = [No_Reply, Reply_Bool False, Reply_Int 0, Reply_Option None]"
proof -
  let ?env = "empty_library\<lparr>on_init := \<lambda>tr low high figures. (22, None)\<rparr>"
  have "fst (on_init ?env [] 1 0 9) \<noteq> 0" by simp
  from hdr_c_stub_equivalent [OF this, of "[Do_Record 5, Ask_Valid, Ask_Max, Ask_Percentile NaN]"]
  show ?thesis by (simp add: Let_def stub_c_defs)
qed

text \<open>The bridge gives what recording gives.\<close>

lemma record_into_portable_counts:
  assumes "8 \<le> buckets" and "buckets \<le> 128" and "hist_inv buckets xs h"
  shows "\<exists>h'. record_into_portable h v = Inr h' \<and> hist_inv buckets (v # xs) h'"
  using hist_record_inv [OF assms] by (simp add: record_into_portable_def)

end
