(* ===== verification/LinuxUring.thy ===== *)
theory LinuxUring
  imports ExternalCalls
begin

text \<open>
  The io_uring helpers of \<open>include/ll/linux_uring.hpp\<close>. \<open>LL_HAS_LIBURING\<close> is the argument \<open>has\<close>;
  liburing and the file system are an environment that answers the calls. C's \<open>int\<close> results are
  only compared with 0, and are integers here.
\<close>

section \<open>Calls into liburing and the file system\<close>

text \<open>A completion names the request it completes by its number, and has the result.\<close>

record cqe =
  cqe_request :: nat
  cqe_res :: int

datatype uring_call =
    Queue_Init u32 int
  | Queue_Exit
  | Get_Sqe "nat option"
  | Prep_Nop nat
  | Prep_Read nat int u64 u32 u64
  | Submit int
  | Wait_Cqe int cqe
  | Cqe_Seen cqe
  | Open_File string int
  | Close_File int

text \<open>
  The answers, each a function of the calls before. \<open>io_uring_wait_cqe\<close> also stores a pointer,
  which is to a completion when the result is not negative.
\<close>

record uring_env =
  on_queue_init :: "uring_call list \<Rightarrow> u32 \<Rightarrow> int"
  on_get_sqe :: "uring_call list \<Rightarrow> nat option"
  on_submit :: "uring_call list \<Rightarrow> int"
  on_wait_cqe :: "uring_call list \<Rightarrow> int \<times> cqe"
  on_open :: "uring_call list \<Rightarrow> string \<Rightarrow> int"

section \<open>The ring\<close>

definition uring_available :: "bool \<Rightarrow> bool" where
  "uring_available has = has"

text \<open>\<open>ring_\<close> is the library's; the wrapper's own state is \<open>open_\<close>.\<close>

record ring =
  open_flag :: bool

type_synonym ring_state = "ring \<times> uring_call list"

definition ring_new :: ring where
  "ring_new = \<lparr>open_flag = False\<rparr>"

definition ring_close :: "bool \<Rightarrow> ring_state \<Rightarrow> ring_state" where
  "ring_close has s =
     (let (r, tr) = s in
      if has \<and> open_flag r then (r\<lparr>open_flag := False\<rparr>, tr @ [Queue_Exit]) else (r, tr))"

definition ring_destroy :: "bool \<Rightarrow> ring_state \<Rightarrow> ring_state" where
  "ring_destroy has s = ring_close has s"

definition ring_open :: "uring_env \<Rightarrow> bool \<Rightarrow> u32 \<Rightarrow> ring_state \<Rightarrow> bool \<times> ring_state" where
  "ring_open env has queue_depth s =
     (if has then
        let (r, tr) = ring_close has s;
            rc = on_queue_init env tr queue_depth;
            tr = tr @ [Queue_Init queue_depth rc]
        in if rc \<noteq> 0 then (False, (r, tr)) else (True, (r\<lparr>open_flag := True\<rparr>, tr))
      else (False, s))"

definition ring_is_open :: "bool \<Rightarrow> ring \<Rightarrow> bool" where
  "ring_is_open has r = (if has then open_flag r else False)"

definition submit_nop_and_wait :: "uring_env \<Rightarrow> bool \<Rightarrow> ring_state \<Rightarrow> bool \<times> ring_state" where
  "submit_nop_and_wait env has s =
     (if has then
        let (r, tr) = s in
        if \<not> open_flag r then (False, (r, tr))
        else
          let sqe = on_get_sqe env tr;
              tr = tr @ [Get_Sqe sqe]
          in (case sqe of
               None \<Rightarrow> (False, (r, tr))
             | Some q \<Rightarrow>
                 let tr = tr @ [Prep_Nop q];
                     rc = on_submit env tr;
                     tr = tr @ [Submit rc]
                 in if rc < 0 then (False, (r, tr))
                    else
                      let (rc, cqe) = on_wait_cqe env tr;
                          tr = tr @ [Wait_Cqe rc cqe]
                      in if rc < 0 then (False, (r, tr))
                         else let res = cqe_res cqe;
                                  tr = tr @ [Cqe_Seen cqe]
                              in (0 \<le> res, (r, tr)))
      else (False, s))"

text \<open>\<open>path\<close> is null or a string, \<open>dst\<close> the address and the size of the span.\<close>

definition read_file :: "uring_env \<Rightarrow> bool \<Rightarrow> string option \<Rightarrow> u64 \<times> size_t \<Rightarrow> ring_state \<Rightarrow> int \<times> ring_state" where
  "read_file env has path dst s =
     (if has then
        let (r, tr) = s in
        (case path of
          None \<Rightarrow> (- 1, (r, tr))
        | Some p \<Rightarrow>
            if \<not> open_flag r \<or> snd dst = 0 then (- 1, (r, tr))
            else
              let fd = on_open env tr p;
                  tr = tr @ [Open_File p fd]
              in if fd < 0 then (- 1, (r, tr))
                 else
                   let sqe = on_get_sqe env tr;
                       tr = tr @ [Get_Sqe sqe]
                   in (case sqe of
                        None \<Rightarrow> (- 1, (r, tr @ [Close_File fd]))
                      | Some q \<Rightarrow>
                          let tr = tr @ [Prep_Read q fd (fst dst) (ucast (snd dst)) 0];
                              rc = on_submit env tr;
                              tr = tr @ [Submit rc]
                          in if rc < 0 then (- 1, (r, tr @ [Close_File fd]))
                             else
                               let (rc, cqe) = on_wait_cqe env tr;
                                   tr = tr @ [Wait_Cqe rc cqe]
                               in if rc < 0 then (- 1, (r, tr @ [Close_File fd]))
                                  else let res = cqe_res cqe;
                                           tr = tr @ [Cqe_Seen cqe]
                                       in (res, (r, tr @ [Close_File fd]))))
      else (- 1, s))"

definition uring_backend :: "bool \<Rightarrow> string" where
  "uring_backend has = (if has then ''liburing'' else ''stub'')"

definition uring_status_line :: "bool \<Rightarrow> string" where
  "uring_status_line has =
     ''uring_backend='' @ uring_backend has @ '' available=''
       @ (if uring_available has then ''yes'' else ''no'')"

section \<open>The protocol\<close>

text \<open>
  What the wrapper owes: a ring is initialised only while there is none and used and released only
  while there is one; only the entry just handed out is prepared; only the completion just waited
  for is marked as seen; and a file is closed only while it is open.
\<close>

record uring_phase =
  ph_live :: bool
  ph_sqe :: "nat option"
  ph_cqe :: "cqe option"
  ph_files :: "int list"

fun uring_trans :: "uring_phase \<Rightarrow> uring_call \<Rightarrow> uring_phase option" where
  "uring_trans p (Queue_Init depth rc) = (if ph_live p then None else Some (p\<lparr>ph_live := rc = 0\<rparr>))"
| "uring_trans p Queue_Exit =
     (if ph_live p then Some (p\<lparr>ph_live := False, ph_sqe := None, ph_cqe := None\<rparr>) else None)"
| "uring_trans p (Get_Sqe q) = (if ph_live p then Some (p\<lparr>ph_sqe := q\<rparr>) else None)"
| "uring_trans p (Prep_Nop q) =
     (if ph_live p \<and> ph_sqe p = Some q then Some (p\<lparr>ph_sqe := None\<rparr>) else None)"
| "uring_trans p (Prep_Read q fd a n off) =
     (if ph_live p \<and> ph_sqe p = Some q \<and> fd \<in> set (ph_files p) then Some (p\<lparr>ph_sqe := None\<rparr>) else None)"
| "uring_trans p (Submit rc) = (if ph_live p then Some p else None)"
| "uring_trans p (Wait_Cqe rc c) =
     (if ph_live p then Some (if 0 \<le> rc then p\<lparr>ph_cqe := Some c\<rparr> else p) else None)"
| "uring_trans p (Cqe_Seen c) =
     (if ph_live p \<and> ph_cqe p = Some c then Some (p\<lparr>ph_cqe := None\<rparr>) else None)"
| "uring_trans p (Open_File path fd) =
     Some (if 0 \<le> fd then p\<lparr>ph_files := fd # ph_files p\<rparr> else p)"
| "uring_trans p (Close_File fd) =
     (if fd \<in> set (ph_files p) then Some (p\<lparr>ph_files := remove1 fd (ph_files p)\<rparr>) else None)"

text \<open>Between two operations the phase is known from \<open>open_\<close>; the stub has no ring.\<close>

definition ring_phase :: "bool \<Rightarrow> ring \<Rightarrow> uring_phase" where
  "ring_phase has r = \<lparr>ph_live = (has \<and> open_flag r), ph_sqe = None, ph_cqe = None, ph_files = []\<rparr>"

datatype ring_op = Op_Open u32 | Op_Close | Op_Nop | Op_Read "string option" "u64 \<times> size_t"

fun ring_call :: "uring_env \<Rightarrow> bool \<Rightarrow> ring_op \<Rightarrow> ring_state \<Rightarrow> ring_state" where
  "ring_call env has (Op_Open depth) s = snd (ring_open env has depth s)"
| "ring_call env has Op_Close s = ring_close has s"
| "ring_call env has Op_Nop s = snd (submit_nop_and_wait env has s)"
| "ring_call env has (Op_Read path dst) s = snd (read_file env has path dst s)"

text \<open>One lemma per operation: the calls it adds keep the protocol.\<close>

lemma ring_close_obeys:
  "ring_close has (r, tr) = (r', tr') \<Longrightarrow>
    \<exists>es. tr' = tr @ es \<and> follow uring_trans (ring_phase has r) es = Some (ring_phase has r')
      \<and> \<not> (has \<and> open_flag r')"
  by (auto simp: ring_close_def ring_phase_def split: if_splits)

lemma ring_open_obeys:
  assumes "ring_open env has depth (r, tr) = (ok, r', tr')"
  shows "\<exists>es. tr' = tr @ es \<and> follow uring_trans (ring_phase has r) es = Some (ring_phase has r')"
proof (cases has)
  case True
  obtain r1 tr1 where c: "ring_close has (r, tr) = (r1, tr1)" by fastforce
  from ring_close_obeys [OF c] obtain es where
    es: "tr1 = tr @ es" "follow uring_trans (ring_phase has r) es = Some (ring_phase has r1)" "\<not> open_flag r1"
    using True by blast
  show ?thesis
    using assms True es c by (auto simp: ring_open_def Let_def follow_append ring_phase_def split: if_splits)
qed (use assms in \<open>simp add: ring_open_def\<close>)

lemma submit_nop_obeys:
  "submit_nop_and_wait env has (r, tr) = (ok, r', tr') \<Longrightarrow>
    \<exists>es. tr' = tr @ es \<and> follow uring_trans (ring_phase has r) es = Some (ring_phase has r')"
  by (auto simp: submit_nop_and_wait_def Let_def ring_phase_def split: if_splits option.splits prod.splits)

lemma read_file_obeys:
  "read_file env has path dst (r, tr) = (res, r', tr') \<Longrightarrow>
    \<exists>es. tr' = tr @ es \<and> follow uring_trans (ring_phase has r) es = Some (ring_phase has r')"
  by (auto simp: read_file_def Let_def ring_phase_def split: if_splits option.splits prod.splits)

lemma ring_call_obeys:
  "ring_call env has x (r, tr) = (r', tr') \<Longrightarrow>
    \<exists>es. tr' = tr @ es \<and> follow uring_trans (ring_phase has r) es = Some (ring_phase has r')"
proof (cases x)
  case (Op_Open depth)
  assume "ring_call env has x (r, tr) = (r', tr')"
  with Op_Open show ?thesis
    using ring_open_obeys [of env has depth r tr] by (cases "ring_open env has depth (r, tr)") auto
next
  case Op_Close
  assume "ring_call env has x (r, tr) = (r', tr')"
  with Op_Close show ?thesis using ring_close_obeys by simp blast
next
  case Op_Nop
  assume "ring_call env has x (r, tr) = (r', tr')"
  with Op_Nop show ?thesis
    using submit_nop_obeys [of env has r tr] by (cases "submit_nop_and_wait env has (r, tr)") auto
next
  case (Op_Read path dst)
  assume "ring_call env has x (r, tr) = (r', tr')"
  with Op_Read show ?thesis
    using read_file_obeys [of env has path dst r tr] by (cases "read_file env has path dst (r, tr)") auto
qed

interpretation ring: protocol_owner uring_trans "ring_call env has" "\<lambda>r p. p = ring_phase has r"
    "ring_destroy has" "ring_phase has ring_new"
  for env has
proof unfold_locales
  fix x r tr r' tr' p
  assume "ring_call env has x (r, tr) = (r', tr')" and "p = ring_phase has r"
  with ring_call_obeys [of env has x r tr r' tr']
  show "\<exists>es p'. tr' = tr @ es \<and> follow uring_trans p es = Some p' \<and> p' = ring_phase has r'" by simp
next
  fix r tr r' tr' p
  assume d: "ring_destroy has (r, tr) = (r', tr')" and "p = ring_phase has r"
  with ring_close_obeys [OF d [unfolded ring_destroy_def]]
  show "\<exists>es. tr' = tr @ es \<and> follow uring_trans p es = Some (ring_phase has ring_new)"
    by (auto simp: ring_phase_def ring_new_def)
qed

section \<open>Requests and completions\<close>

text \<open>
  The requests prepared on the current ring that the wrapper has not marked as seen, numbered in
  the order of their preparation. Closing the ring drops them, and opening one starts afresh.
\<close>

datatype request = Nop | Read_At int u64 u32 u64

fun note_request :: "nat \<times> (nat \<times> request) list \<Rightarrow> uring_call \<Rightarrow> nat \<times> (nat \<times> request) list" where
  "note_request (n, rs) (Queue_Init depth rc) = (n, [])"
| "note_request (n, rs) Queue_Exit = (n, [])"
| "note_request (n, rs) (Prep_Nop q) = (Suc n, rs @ [(n, Nop)])"
| "note_request (n, rs) (Prep_Read q fd a len off) = (Suc n, rs @ [(n, Read_At fd a len off)])"
| "note_request (n, rs) (Cqe_Seen c) = (n, filter (\<lambda>r. fst r \<noteq> cqe_request c) rs)"
| "note_request (n, rs) _ = (n, rs)"

definition requests :: "uring_call list \<Rightarrow> nat \<times> (nat \<times> request) list" where
  "requests tr = foldl note_request (0, []) tr"

definition outstanding :: "uring_call list \<Rightarrow> (nat \<times> request) list" where
  "outstanding tr = snd (requests tr)"

lemma requests_append [simp]: "requests (tr @ es) = foldl note_request (requests tr) es"
  by (simp add: requests_def)

text \<open>
  What the manual pages promise: \<open>io_uring_wait_cqe\<close> gives the completion of an outstanding
  request, and a read returns at most as many bytes as were asked for.
\<close>

fun answers :: "request \<Rightarrow> int \<Rightarrow> bool" where
  "answers Nop res = True"
| "answers (Read_At fd a len off) res = (res \<le> int (unat len))"

definition completes_outstanding :: "uring_env \<Rightarrow> bool" where
  "completes_outstanding env \<longleftrightarrow>
     (\<forall>tr rc c. on_wait_cqe env tr = (rc, c) \<longrightarrow> 0 \<le> rc
        \<longrightarrow> (\<exists>req. (cqe_request c, req) \<in> set (outstanding tr) \<and> answers req (cqe_res c)))"

lemma unat_ucast_32: "unat (ucast (n :: u64) :: u32) = unat n mod 2 ^ 32"
  by (simp add: unsigned_ucast_eq unsigned_take_bit_eq take_bit_eq_mod)

text \<open>With one request outstanding, a successful wait is for that one.\<close>

lemma completes_only_request:
  assumes "completes_outstanding env" and "on_wait_cqe env tr = (rc, c)" and "0 \<le> rc"
    and "requests tr = (k, [(m, req)])"
  shows "cqe_request c = m \<and> answers req (cqe_res c)"
proof -
  obtain req' where "(cqe_request c, req') \<in> set (outstanding tr)" "answers req' (cqe_res c)"
    using assms(1-3) unfolding completes_outstanding_def by blast
  with assms(4) show ?thesis by (simp add: outstanding_def)
qed

section \<open>Properties\<close>

text \<open>
  C22: Whatever liburing and the file system answer, every use of a ring, from its construction
  through any sequence of \<open>open\<close>, \<open>close\<close>, \<open>submit_nop_and_wait\<close> and \<open>read_file\<close> to its
  destruction, keeps the protocol: the ring is initialised, used and released in turn, never twice
  and never leaked, and every file that was opened is closed exactly once, on every error path.
\<close>

theorem ring_protocol:
  "follow uring_trans (ring_phase has ring_new)
     (snd (ring_destroy has (run_ops (ring_call env has) ops (ring_new, []))))
   = Some (ring_phase has ring_new)"
  by (rule ring.life_obeys) simp_all

text \<open>
  C23: On a ring without unfinished requests \<open>read_file\<close> either fails with -1, or its result is the
  one of its own request: the read into the given span, from the start of the file at the given
  path, of as many bytes as the size of the span has modulo 2^32; the result is at most this
  number, and nothing is left unfinished.
\<close>

theorem read_file_own_answer:
  assumes env: "completes_outstanding env" and idle: "outstanding tr = []"
    and r: "read_file env True (Some path) (a, n) (r, tr) = (res, r', tr')"
  shows "res = - 1
    \<or> (outstanding tr' = [] \<and> res \<le> int (unat n mod 2 ^ 32)
        \<and> (\<exists>fd q rc1 rc2 c. 0 \<le> fd \<and> 0 \<le> rc1 \<and> 0 \<le> rc2 \<and> res = cqe_res c
            \<and> tr' = tr @ [Open_File path fd, Get_Sqe (Some q), Prep_Read q fd a (ucast n) 0, Submit rc1,
                Wait_Cqe rc2 c, Cqe_Seen c, Close_File fd]))"
proof -
  obtain m where m: "requests tr = (m, [])" using idle by (cases "requests tr") (simp add: outstanding_def)
  have own: "cqe_request c = m \<and> cqe_res c \<le> int (unat n mod 2 ^ 32)"
    if "on_wait_cqe env tr1 = (rc, c)" "0 \<le> rc" "requests tr1 = (Suc m, [(m, Read_At fd a (ucast n) 0)])"
    for tr1 rc c fd
    using completes_only_request [OF env that] by (simp add: unat_ucast_32)
  show ?thesis
    using r m
    by (auto simp: read_file_def Let_def outstanding_def split: if_splits option.splits prod.splits
        dest!: own)
qed

text \<open>
  A system that completes the requests in order, every one with the result 0, except that its
  first wait is interrupted by a signal.
\<close>

definition interrupted_once :: uring_env where
  "interrupted_once = \<lparr>on_queue_init = (\<lambda>tr depth. 0), on_get_sqe = (\<lambda>tr. Some 0), on_submit = (\<lambda>tr. 1),
     on_wait_cqe = (\<lambda>tr.
       if \<not> list_ex (\<lambda>e. case e of Wait_Cqe rc c \<Rightarrow> True | _ \<Rightarrow> False) tr \<or> outstanding tr = []
       then (- 4, \<lparr>cqe_request = 0, cqe_res = 0\<rparr>)
       else (0, \<lparr>cqe_request = fst (hd (outstanding tr)), cqe_res = 0\<rparr>)),
     on_open = (\<lambda>tr path. 3)\<rparr>"

lemma interrupted_once_completes: "completes_outstanding interrupted_once"
proof -
  have "answers req 0" for req by (cases req) simp_all
  moreover have "\<exists>req. (fst (hd rs), req) \<in> set rs" if "rs \<noteq> []" for rs :: "(nat \<times> request) list"
    using that by (intro exI [of _ "snd (hd rs)"]) simp
  ultimately show ?thesis
    by (auto simp: completes_outstanding_def interrupted_once_def split: if_splits)
qed

theorem read_file_own_answer_witness:
  "outstanding [Queue_Init 32 0, Wait_Cqe (- 4) \<lparr>cqe_request = 0, cqe_res = 0\<rparr>] = []
   \<and> fst (read_file interrupted_once True (Some ''f'') (0x1000, 2 ^ 32) (\<lparr>open_flag = True\<rparr>,
        [Queue_Init 32 0, Wait_Cqe (- 4) \<lparr>cqe_request = 0, cqe_res = 0\<rparr>])) \<le> 0"
proof -
  let ?tr = "[Queue_Init 32 0, Wait_Cqe (- 4) \<lparr>cqe_request = 0, cqe_res = 0\<rparr>]"
  have idle: "outstanding ?tr = []" by (simp add: outstanding_def requests_def)
  obtain res r' tr' where r: "read_file interrupted_once True (Some ''f'') (0x1000, 2 ^ 32)
      (\<lparr>open_flag = True\<rparr>, ?tr) = (res, r', tr')"
    using prod_cases3 by blast
  from read_file_own_answer [OF interrupted_once_completes idle r] have "res \<le> 0" by auto
  then show ?thesis using idle r by simp
qed

text \<open>The numbers of the requests are those of their preparation, so no two are the same.\<close>

lemma request_numbers:
  "distinct (map fst (snd (requests tr))) \<and> (\<forall>r \<in> set (snd (requests tr)). fst r < fst (requests tr))"
proof (induction tr rule: rev_induct)
  case Nil
  show ?case by (simp add: requests_def)
next
  case (snoc e tr)
  obtain k rs where tr: "requests tr = (k, rs)" by fastforce
  with snoc show ?case
    by (cases e) (auto simp: distinct_map_filter less_Suc_eq)
qed

text \<open>
  A kernel may complete the requests of a ring in the order of their submission; \<open>io_uring_wait_cqe\<close>
  then gives the completion of the oldest one that has not been marked as seen.
\<close>

definition completes_in_order :: "uring_env \<Rightarrow> bool" where
  "completes_in_order env \<longleftrightarrow>
     (\<forall>tr rc c. on_wait_cqe env tr = (rc, c) \<longrightarrow> 0 \<le> rc
        \<longrightarrow> outstanding tr \<noteq> [] \<and> cqe_request c = fst (hd (outstanding tr))
          \<and> answers (snd (hd (outstanding tr))) (cqe_res c))"

lemma interrupted_once_in_order: "completes_in_order interrupted_once"
proof -
  have "answers req 0" for req by (cases req) simp_all
  then show ?thesis by (auto simp: completes_in_order_def interrupted_once_def split: if_splits)
qed

text \<open>
  C24: A ring with an unfinished request, such as a call leaves behind whose wait was interrupted, is
  out of step. Where requests complete in order, \<open>read_file\<close> on it either returns -1 or the result
  of the oldest unfinished request in place of its own; its own read into the caller's span is
  then still to come, on a file that is closed, and as many requests are unfinished as before, so
  that the next call is out of step as well.
\<close>

theorem read_file_stale:
  assumes env: "completes_in_order env" and old: "outstanding tr = (m, req) # rs"
    and r: "read_file env True (Some path) (a, n) (r, tr) = (res, r', tr')"
  shows "res = - 1
    \<or> (\<exists>fd q k rc1 rc2 c. 0 \<le> fd \<and> k \<noteq> m \<and> cqe_request c = m \<and> res = cqe_res c \<and> answers req res
        \<and> outstanding tr' = rs @ [(k, Read_At fd a (ucast n) 0)]
        \<and> tr' = tr @ [Open_File path fd, Get_Sqe (Some q), Prep_Read q fd a (ucast n) 0, Submit rc1,
              Wait_Cqe rc2 c, Cqe_Seen c, Close_File fd])"
proof -
  obtain k where k: "requests tr = (k, (m, req) # rs)"
    using old by (cases "requests tr") (simp add: outstanding_def)
  with request_numbers [of tr] have new: "m < k" and distinct: "\<forall>r \<in> set rs. fst r \<noteq> m" by auto
  have first: "cqe_request c = m \<and> answers req (cqe_res c)"
    if "on_wait_cqe env tr1 = (rc, c)" "0 \<le> rc" "requests tr1 = (Suc k, (m, req) # rs @ [own])" for tr1 rc c own
    using env that unfolding completes_in_order_def outstanding_def by fastforce
  have rest: "filter (\<lambda>r. fst r \<noteq> m) rs = rs" using distinct by (simp add: filter_id_conv)
  show ?thesis
    using r k new rest
    by (auto simp: read_file_def Let_def outstanding_def split: if_splits option.splits prod.splits
        dest!: first)
qed

text \<open>
  The no-op of a call whose wait a signal interrupted answers for the file: the result is 0 whatever
  the file holds.
\<close>

theorem read_file_stale_witness:
  "\<exists>s r tr res r' tr'. ring_open interrupted_once True 32 (ring_new, []) = (True, s)
    \<and> submit_nop_and_wait interrupted_once True s = (False, r, tr)
    \<and> read_file interrupted_once True (Some ''f'') (0x1000, 100) (r, tr) = (res, r', tr')
    \<and> res = 0 \<and> (\<exists>k fd. outstanding tr' = [(k, Read_At fd 0x1000 100 0)])"
proof -
  let ?tr = "[Queue_Init 32 0, Get_Sqe (Some 0), Prep_Nop 0, Submit 1,
    Wait_Cqe (- 4) \<lparr>cqe_request = 0, cqe_res = 0\<rparr>]"
  have first: "\<exists>s r. ring_open interrupted_once True 32 (ring_new, []) = (True, s)
    \<and> submit_nop_and_wait interrupted_once True s = (False, r, ?tr) \<and> r = \<lparr>open_flag = True\<rparr>"
    by (simp add: ring_open_def ring_close_def ring_new_def submit_nop_and_wait_def
        interrupted_once_def Let_def)
  have old: "outstanding ?tr = [(0, Nop)]" by (simp add: outstanding_def requests_def)
  obtain res r' tr' where read:
    "read_file interrupted_once True (Some ''f'') (0x1000, 100) (\<lparr>open_flag = True\<rparr>, ?tr) = (res, r', tr')"
    using prod_cases3 by blast
  moreover have "res = 0"
    using read by (simp add: read_file_def interrupted_once_def outstanding_def requests_def Let_def)
  moreover from read_file_stale [OF interrupted_once_in_order old read] \<open>res = 0\<close>
  have "\<exists>k fd. outstanding tr' = [(k, Read_At fd 0x1000 100 0)]" by auto
  ultimately show ?thesis using first by blast
qed

text \<open>
  Without liburing every operation fails and calls nothing; with it, a ring that is not open, a
  null path and an empty span are refused before any call.
\<close>

theorem uring_guards:
  "ring_open env False depth s = (False, s) \<and> submit_nop_and_wait env False s = (False, s)
   \<and> read_file env False path dst s = (- 1, s) \<and> \<not> uring_available False
   \<and> submit_nop_and_wait env True (ring_new, tr) = (False, ring_new, tr)
   \<and> read_file env True path dst (ring_new, tr) = (- 1, ring_new, tr)
   \<and> read_file env True None dst s = (- 1, s) \<and> read_file env True path (a, 0) s = (- 1, s)"
  by (simp add: ring_open_def submit_nop_and_wait_def read_file_def uring_available_def ring_new_def
      split: prod.split option.split)

end
