(* ===== verification/LinuxNuma.thy ===== *)
theory LinuxNuma
  imports ExternalCalls Decimal
begin

text \<open>
  The NUMA helpers of \<open>include/ll/linux_numa.hpp\<close>. \<open>LL_HAS_LIBNUMA\<close> is the argument \<open>has\<close>, and
  libnuma is an environment that answers the calls. Node numbers and C's \<open>int\<close> results are only
  compared and printed, and are integers here; an address is a 64-bit word, null is 0.
\<close>

section \<open>Calls into libnuma\<close>

datatype numa_call =
    Numa_Available int
  | Numa_Max_Node int
  | Numa_Preferred int
  | Numa_Allocate_Cpumask "nat option"
  | Numa_Free_Cpumask nat
  | Numa_Node_To_Cpus int nat int
  | Numa_Run_On_Node_Mask nat int
  | Numa_Set_Preferred int
  | Numa_Alloc_Onnode u64 int u64
  | Numa_Free u64 u64

record numa_env =
  on_available :: "numa_call list \<Rightarrow> int"
  on_max_node :: "numa_call list \<Rightarrow> int"
  on_preferred :: "numa_call list \<Rightarrow> int"
  on_cpumask :: "numa_call list \<Rightarrow> nat option"
  on_node_to_cpus :: "numa_call list \<Rightarrow> int \<Rightarrow> nat \<Rightarrow> int"
  on_run :: "numa_call list \<Rightarrow> nat \<Rightarrow> int"
  on_alloc :: "numa_call list \<Rightarrow> u64 \<Rightarrow> int \<Rightarrow> u64"

type_synonym numa_trace = "numa_call list"

section \<open>The helpers\<close>

definition numa_available :: "numa_env \<Rightarrow> bool \<Rightarrow> numa_trace \<Rightarrow> bool \<times> numa_trace" where
  "numa_available env has tr =
     (if has then let rc = on_available env tr in (rc \<noteq> - 1, tr @ [Numa_Available rc])
      else (False, tr))"

definition numa_max_node :: "numa_env \<Rightarrow> bool \<Rightarrow> numa_trace \<Rightarrow> int \<times> numa_trace" where
  "numa_max_node env has tr =
     (if has then
        let (ok, tr) = numa_available env has tr
        in if \<not> ok then (- 1, tr)
           else let n = on_max_node env tr in (n, tr @ [Numa_Max_Node n])
      else (- 1, tr))"

definition numa_preferred_node :: "numa_env \<Rightarrow> bool \<Rightarrow> numa_trace \<Rightarrow> int \<times> numa_trace" where
  "numa_preferred_node env has tr =
     (if has then
        let (ok, tr) = numa_available env has tr
        in if \<not> ok then (- 1, tr)
           else let n = on_preferred env tr in (n, tr @ [Numa_Preferred n])
      else (- 1, tr))"

text \<open>The condition \<open>!available() || node < 0 || node > numa_max_node()\<close>, evaluated in this order.\<close>

definition node_refused :: "numa_env \<Rightarrow> int \<Rightarrow> numa_trace \<Rightarrow> bool \<times> numa_trace" where
  "node_refused env node tr =
     (let (ok, tr) = numa_available env True tr
      in if \<not> ok then (True, tr)
         else if node < 0 then (True, tr)
         else let n = on_max_node env tr in (n < node, tr @ [Numa_Max_Node n]))"

definition bind_thread_to_node :: "numa_env \<Rightarrow> bool \<Rightarrow> int \<Rightarrow> numa_trace \<Rightarrow> bool \<times> numa_trace" where
  "bind_thread_to_node env has node tr =
     (if has then
        let (refused, tr) = node_refused env node tr
        in if refused then (False, tr)
           else
             let cpus = on_cpumask env tr;
                 tr = tr @ [Numa_Allocate_Cpumask cpus]
             in (case cpus of
                   None \<Rightarrow> (False, tr)
                 | Some cm \<Rightarrow>
                     let rc_cpus = on_node_to_cpus env tr node cm;
                         tr = tr @ [Numa_Node_To_Cpus node cm rc_cpus]
                     in if rc_cpus \<noteq> 0 then (False, tr @ [Numa_Free_Cpumask cm])
                        else
                          let rc_run = on_run env tr cm;
                              tr = tr @ [Numa_Run_On_Node_Mask cm rc_run];
                              tr = tr @ [Numa_Free_Cpumask cm]
                          in if rc_run \<noteq> 0 then (False, tr)
                             else (True, tr @ [Numa_Set_Preferred node]))
      else (False, tr))"

definition alloc_onnode :: "numa_env \<Rightarrow> bool \<Rightarrow> size_t \<Rightarrow> int \<Rightarrow> numa_trace \<Rightarrow> u64 \<times> numa_trace" where
  "alloc_onnode env has bytes node tr =
     (if has then
        let (ok, tr) = numa_available env has tr
        in if \<not> ok \<or> bytes = 0 then (0, tr)
           else let p = on_alloc env tr bytes node in (p, tr @ [Numa_Alloc_Onnode bytes node p])
      else (0, tr))"

definition free_onnode :: "bool \<Rightarrow> u64 \<Rightarrow> size_t \<Rightarrow> numa_trace \<Rightarrow> numa_trace" where
  "free_onnode has p bytes tr = (if has \<and> p \<noteq> 0 then tr @ [Numa_Free p bytes] else tr)"

definition numa_backend :: "numa_env \<Rightarrow> bool \<Rightarrow> numa_trace \<Rightarrow> string \<times> numa_trace" where
  "numa_backend env has tr =
     (if has then
        let (ok, tr) = numa_available env has tr
        in (if ok then ''libnuma'' else ''libnuma-unavailable'', tr)
      else (''stub'', tr))"

definition numa_status_line :: "numa_env \<Rightarrow> bool \<Rightarrow> numa_trace \<Rightarrow> string \<times> numa_trace" where
  "numa_status_line env has tr =
     (let s = ''numa_backend='';
          (b, tr) = numa_backend env has tr;
          s = s @ b;
          s = s @ '' available='';
          (ok, tr) = numa_available env has tr;
          s = s @ (if ok then ''yes'' else ''no'');
          s = s @ '' max_node='';
          (n, tr) = numa_max_node env has tr;
          s = s @ show_int n;
          s = s @ '' preferred='';
          (p, tr) = numa_preferred_node env has tr;
          s = s @ show_int p
      in (s, tr))"

section \<open>The protocol\<close>

text \<open>
  libnuma may be used once \<open>numa_available\<close> has not answered -1; a CPU mask is used and freed only
  while it is allocated, and a block is freed with its size, once.
\<close>

record numa_phase =
  np_ready :: bool
  np_masks :: "nat list"
  np_blocks :: "(u64 \<times> u64) list"

fun numa_trans :: "numa_phase \<Rightarrow> numa_call \<Rightarrow> numa_phase option" where
  "numa_trans p (Numa_Available rc) = Some (p\<lparr>np_ready := np_ready p \<or> rc \<noteq> - 1\<rparr>)"
| "numa_trans p (Numa_Max_Node n) = (if np_ready p then Some p else None)"
| "numa_trans p (Numa_Preferred n) = (if np_ready p then Some p else None)"
| "numa_trans p (Numa_Allocate_Cpumask m) =
     (if np_ready p then Some (case m of None \<Rightarrow> p | Some i \<Rightarrow> p\<lparr>np_masks := i # np_masks p\<rparr>) else None)"
| "numa_trans p (Numa_Free_Cpumask i) =
     (if i \<in> set (np_masks p) then Some (p\<lparr>np_masks := remove1 i (np_masks p)\<rparr>) else None)"
| "numa_trans p (Numa_Node_To_Cpus node i rc) =
     (if np_ready p \<and> i \<in> set (np_masks p) then Some p else None)"
| "numa_trans p (Numa_Run_On_Node_Mask i rc) =
     (if np_ready p \<and> i \<in> set (np_masks p) then Some p else None)"
| "numa_trans p (Numa_Set_Preferred node) = (if np_ready p then Some p else None)"
| "numa_trans p (Numa_Alloc_Onnode bytes node a) =
     (if np_ready p \<and> bytes \<noteq> 0
      then Some (if a = 0 then p else p\<lparr>np_blocks := (a, bytes) # np_blocks p\<rparr>) else None)"
| "numa_trans p (Numa_Free a bytes) =
     (if np_ready p \<and> (a, bytes) \<in> set (np_blocks p)
      then Some (p\<lparr>np_blocks := remove1 (a, bytes) (np_blocks p)\<rparr>) else None)"

text \<open>
  A caller that keeps the blocks it got and gives back blocks it has, with their sizes; \<open>Give_Back\<close>
  names one by its place, and frees a null pointer when there is none at that place.
\<close>

datatype numa_op = Ask_Available | Ask_Max | Ask_Preferred | Ask_Status | Bind_To int
  | Take_On u64 int | Give_Back nat

fun numa_op_call :: "numa_env \<Rightarrow> bool \<Rightarrow> numa_op \<Rightarrow> (u64 \<times> u64) list \<times> numa_trace \<Rightarrow> (u64 \<times> u64) list \<times> numa_trace" where
  "numa_op_call env has Ask_Available (held, tr) = (held, snd (numa_available env has tr))"
| "numa_op_call env has Ask_Max (held, tr) = (held, snd (numa_max_node env has tr))"
| "numa_op_call env has Ask_Preferred (held, tr) = (held, snd (numa_preferred_node env has tr))"
| "numa_op_call env has Ask_Status (held, tr) = (held, snd (numa_status_line env has tr))"
| "numa_op_call env has (Bind_To node) (held, tr) = (held, snd (bind_thread_to_node env has node tr))"
| "numa_op_call env has (Take_On bytes node) (held, tr) =
     (let (p, tr) = alloc_onnode env has bytes node tr
      in (if p = 0 then held else (p, bytes) # held, tr))"
| "numa_op_call env has (Give_Back k) (held, tr) =
     (if k < length held
      then let (p, bytes) = held ! k in (remove1 (p, bytes) held, free_onnode has p bytes tr)
      else (held, free_onnode has 0 0 tr))"

definition numa_rests :: "bool \<Rightarrow> (u64 \<times> u64) list \<Rightarrow> numa_phase \<Rightarrow> bool" where
  "numa_rests has held p \<longleftrightarrow> np_masks p = [] \<and> np_blocks p = held
     \<and> (held \<noteq> [] \<longrightarrow> has \<and> np_ready p) \<and> (\<forall>b \<in> set held. fst b \<noteq> 0)"

text \<open>A function that leaves nothing allocated, and the phase as it was but for what it learns.\<close>

definition settles :: "(numa_trace \<Rightarrow> 'a \<times> numa_trace) \<Rightarrow> bool" where
  "settles f \<longleftrightarrow> (\<forall>tr. \<exists>es. snd (f tr) = tr @ es \<and>
     (\<forall>p. np_masks p = [] \<longrightarrow> (\<exists>b. follow numa_trans p es = Some (p\<lparr>np_ready := np_ready p \<or> b\<rparr>))))"

lemma numa_available_settles: "settles (numa_available env has)"
  by (auto simp: settles_def numa_available_def Let_def intro: exI [of _ False])

lemma numa_max_node_settles: "settles (numa_max_node env has)"
  by (auto simp: settles_def numa_max_node_def numa_available_def Let_def
      intro: exI [of _ False] exI [of _ True])

lemma numa_preferred_node_settles: "settles (numa_preferred_node env has)"
  by (auto simp: settles_def numa_preferred_node_def numa_available_def Let_def
      intro: exI [of _ False] exI [of _ True])

lemma numa_backend_settles: "settles (numa_backend env has)"
  by (auto simp: settles_def numa_backend_def numa_available_def Let_def
      intro: exI [of _ False] exI [of _ True])

lemma bind_thread_settles: "settles (bind_thread_to_node env has node)"
  by (auto simp: settles_def bind_thread_to_node_def node_refused_def numa_available_def Let_def
      split: option.split intro: exI [of _ False] exI [of _ True])

lemma settles_seq:
  assumes "settles f" and "settles g"
  shows "settles (\<lambda>tr. g (snd (f tr)))"
  unfolding settles_def
proof
  fix tr
  obtain es where es: "snd (f tr) = tr @ es"
    "\<And>p. np_masks p = [] \<Longrightarrow> \<exists>b. follow numa_trans p es = Some (p\<lparr>np_ready := np_ready p \<or> b\<rparr>)"
    using assms(1) unfolding settles_def by meson
  obtain fs where fs: "snd (g (tr @ es)) = (tr @ es) @ fs"
    "\<And>p. np_masks p = [] \<Longrightarrow> \<exists>b. follow numa_trans p fs = Some (p\<lparr>np_ready := np_ready p \<or> b\<rparr>)"
    using assms(2) unfolding settles_def by meson
  have "\<exists>b. follow numa_trans p (es @ fs) = Some (p\<lparr>np_ready := np_ready p \<or> b\<rparr>)"
    if p: "np_masks p = []" for p
  proof -
    obtain b where b: "follow numa_trans p es = Some (p\<lparr>np_ready := np_ready p \<or> b\<rparr>)"
      using es(2) [OF p] by blast
    obtain c where "follow numa_trans (p\<lparr>np_ready := np_ready p \<or> b\<rparr>) fs
        = Some (p\<lparr>np_ready := np_ready p \<or> b, np_ready := (np_ready p \<or> b) \<or> c\<rparr>)"
      using fs(2) [of "p\<lparr>np_ready := np_ready p \<or> b\<rparr>"] p by auto
    with b show ?thesis by (auto simp: follow_append intro: exI [of _ "b \<or> c"])
  qed
  with es(1) fs(1) show "\<exists>es. snd (g (snd (f tr))) = tr @ es \<and> (\<forall>p. np_masks p = [] \<longrightarrow>
      (\<exists>b. follow numa_trans p es = Some (p\<lparr>np_ready := np_ready p \<or> b\<rparr>)))"
    by (intro exI [of _ "es @ fs"]) simp
qed

lemma numa_status_line_settles: "settles (numa_status_line env has)"
proof -
  have "snd (numa_status_line env has tr) =
      snd (numa_preferred_node env has (snd (numa_max_node env has (snd (numa_available env has
        (snd (numa_backend env has tr)))))))" for tr
    by (simp add: numa_status_line_def Let_def case_prod_beta)
  moreover have "settles (\<lambda>tr. numa_preferred_node env has (snd (numa_max_node env has (snd (numa_available env has
        (snd (numa_backend env has tr)))))))"
    by (rule settles_seq [OF settles_seq [OF settles_seq [OF numa_backend_settles
        numa_available_settles] numa_max_node_settles] numa_preferred_node_settles])
  ultimately show ?thesis by (simp add: settles_def)
qed

lemma settles_rests:
  assumes "settles f" and "numa_rests has held p"
  shows "\<exists>es p'. snd (f tr) = tr @ es \<and> follow numa_trans p es = Some p' \<and> numa_rests has held p'"
proof -
  obtain es b where "snd (f tr) = tr @ es" "follow numa_trans p es = Some (p\<lparr>np_ready := np_ready p \<or> b\<rparr>)"
    using assms unfolding settles_def numa_rests_def by meson
  with assms(2) show ?thesis by (auto simp: numa_rests_def)
qed

lemma alloc_onnode_obeys:
  assumes "alloc_onnode env has bytes node tr = (a, tr')" and "numa_rests has held p"
  shows "\<exists>es p'. tr' = tr @ es \<and> follow numa_trans p es = Some p'
    \<and> numa_rests has (if a = 0 then held else (a, bytes) # held) p'"
  using assms by (auto simp: alloc_onnode_def numa_available_def numa_rests_def Let_def split: if_splits)

lemma free_onnode_obeys:
  assumes "k < length held" and "held ! k = (a, bytes)" and r: "numa_rests has held p"
  shows "\<exists>es p'. free_onnode has a bytes tr = tr @ es \<and> follow numa_trans p es = Some p'
    \<and> numa_rests has (remove1 (a, bytes) held) p'"
proof -
  have m: "(a, bytes) \<in> set held" using assms(1,2) nth_mem by fastforce
  then have "a \<noteq> 0" "has" "np_ready p" using r by (auto simp: numa_rests_def)
  with m r show ?thesis
    by (auto simp: free_onnode_def numa_rests_def dest: notin_set_remove1 [THEN contrapos_nn] set_remove1_subset [THEN subsetD])
qed

interpretation numa: protocol_client numa_trans "numa_op_call env has" "numa_rests has" for env has
proof unfold_locales
  fix x :: numa_op and held tr held' tr' p
  assume c: "numa_op_call env has x (held, tr) = (held', tr')" and r: "numa_rests has held p"
  note settled = settles_rests [OF numa_available_settles r] settles_rests [OF numa_max_node_settles r]
    settles_rests [OF numa_preferred_node_settles r] settles_rests [OF numa_status_line_settles r]
    settles_rests [OF bind_thread_settles r]
  show "\<exists>es p'. tr' = tr @ es \<and> follow numa_trans p es = Some p' \<and> numa_rests has held' p'"
  proof (cases x)
    case (Take_On bytes node)
    then show ?thesis
      using c alloc_onnode_obeys [OF _ r, of env bytes node tr]
      by (cases "alloc_onnode env has bytes node tr") auto
  next
    case (Give_Back k)
    show ?thesis
    proof (cases "k < length held")
      case True
      then show ?thesis
        using c Give_Back free_onnode_obeys [OF True _ r] by (cases "held ! k") auto
    next
      case False
      then show ?thesis using c Give_Back r by (auto simp: free_onnode_def)
    qed
  qed (use c settled in auto)
qed

section \<open>What the calls mean\<close>

text \<open>
  What a machine shows after the calls made so far is a parameter: the CPUs of each node, the bits
  set in a mask, the CPUs the thread may run on and the node its memory is taken from.
\<close>

record numa_machine =
  nm_node_cpus :: "nat \<Rightarrow> nat set"
  nm_mask :: "numa_call list \<Rightarrow> nat \<Rightarrow> nat set"
  nm_thread :: "numa_call list \<Rightarrow> nat set"
  nm_preferred :: "numa_call list \<Rightarrow> int"

text \<open>
  What numa(3) documents of the calls that return success: \<open>numa_node_to_cpus\<close> sets the bits of the
  CPUs of the node; \<open>numa_run_on_node_mask\<close> runs the thread only on the nodes whose bits are set;
  \<open>numa_set_preferred\<close> sets the preferred node, and neither it nor freeing a mask moves the thread.
  Nothing is supposed of calls that fail.
\<close>

definition numa_documented :: "numa_machine \<Rightarrow> bool" where
  "numa_documented M \<longleftrightarrow>
     (\<forall>tr node m. 0 \<le> node \<longrightarrow>
        nm_mask M (tr @ [Numa_Node_To_Cpus node m 0]) m = nm_node_cpus M (nat node))
   \<and> (\<forall>tr m. nm_thread M (tr @ [Numa_Run_On_Node_Mask m 0])
        = (\<Union>node \<in> nm_mask M tr m. nm_node_cpus M node))
   \<and> (\<forall>tr m. nm_thread M (tr @ [Numa_Free_Cpumask m]) = nm_thread M tr)
   \<and> (\<forall>tr node. nm_thread M (tr @ [Numa_Set_Preferred node]) = nm_thread M tr
        \<and> nm_preferred M (tr @ [Numa_Set_Preferred node]) = node)"

text \<open>The CPUs of the thread after filling a mask, running on it and freeing it.\<close>

lemma run_on_cpus_of_node:
  assumes "numa_documented M" and "0 \<le> node"
  shows "nm_thread M (tr @ [Numa_Node_To_Cpus node m 0, Numa_Run_On_Node_Mask m 0,
      Numa_Free_Cpumask m, Numa_Set_Preferred node])
      = (\<Union>k \<in> nm_node_cpus M (nat node). nm_node_cpus M k)"
    and "nm_preferred M (tr @ [Numa_Node_To_Cpus node m 0, Numa_Run_On_Node_Mask m 0,
      Numa_Free_Cpumask m, Numa_Set_Preferred node]) = node"
proof -
  let ?filled = "tr @ [Numa_Node_To_Cpus node m 0]"
  let ?run = "?filled @ [Numa_Run_On_Node_Mask m 0]"
  have "nm_mask M ?filled m = nm_node_cpus M (nat node)"
    "nm_thread M ?run = (\<Union>k \<in> nm_mask M ?filled m. nm_node_cpus M k)"
    "nm_thread M (?run @ [Numa_Free_Cpumask m]) = nm_thread M ?run"
    "nm_thread M ((?run @ [Numa_Free_Cpumask m]) @ [Numa_Set_Preferred node])
      = nm_thread M (?run @ [Numa_Free_Cpumask m])"
    "nm_preferred M ((?run @ [Numa_Free_Cpumask m]) @ [Numa_Set_Preferred node]) = node"
    using assms unfolding numa_documented_def by blast+
  then show "nm_thread M (tr @ [Numa_Node_To_Cpus node m 0, Numa_Run_On_Node_Mask m 0,
      Numa_Free_Cpumask m, Numa_Set_Preferred node])
      = (\<Union>k \<in> nm_node_cpus M (nat node). nm_node_cpus M k)"
    "nm_preferred M (tr @ [Numa_Node_To_Cpus node m 0, Numa_Run_On_Node_Mask m 0,
      Numa_Free_Cpumask m, Numa_Set_Preferred node]) = node"
    by (simp_all only: append_assoc append_Cons append_Nil)
qed

section \<open>Properties\<close>

text \<open>
  C25: Whatever libnuma answers, every sequence of the helpers, with a caller that frees only blocks
  it got, with their sizes, obeys libnuma: nothing is called before \<open>numa_available\<close> has succeeded,
  the CPU mask of \<open>bind_thread_to_node\<close> is freed exactly once on every path, and the blocks that
  are allocated are those the caller holds.
\<close>

theorem numa_protocol:
  "\<exists>p. follow numa_trans \<lparr>np_ready = False, np_masks = [], np_blocks = []\<rparr>
        (snd (run_ops (numa_op_call env has) ops ([], []))) = Some p
     \<and> np_masks p = [] \<and> np_blocks p = fst (run_ops (numa_op_call env has) ops ([], []))"
proof -
  let ?p = "\<lparr>np_ready = False, np_masks = [], np_blocks = []\<rparr>"
  obtain held tr where r: "run_ops (numa_op_call env has) ops ([], []) = (held, tr)" by fastforce
  have "numa_rests has [] ?p" by (simp add: numa_rests_def)
  from numa.run_obeys [OF r this] show ?thesis by (auto simp: r numa_rests_def)
qed

text \<open>
  C26: On every machine whose libnuma does what its manual page says, \<open>bind_thread_to_node\<close> succeeds
  only for a node from 0 to the largest one and after every call succeeded, in the order of the
  code; it leaves the node asked for as the preferred one. But the CPUs it leaves to the thread are
  those of the nodes whose numbers are CPU numbers of the node asked for: the mask passed to
  \<open>numa_run_on_node_mask\<close> is a mask of CPUs. When it returns false, no call that moves the thread
  has succeeded and the preferred node was not set.
\<close>

theorem bind_thread_effect:
  assumes M: "numa_documented M" and b: "bind_thread_to_node env True node tr = (ok, tr')"
  shows "if ok
    then 0 \<le> node \<and> nm_preferred M tr' = node
      \<and> nm_thread M tr' = (\<Union>k \<in> nm_node_cpus M (nat node). nm_node_cpus M k)
      \<and> (\<exists>rc largest m. rc \<noteq> - 1 \<and> node \<le> largest
          \<and> tr' = tr @ [Numa_Available rc, Numa_Max_Node largest, Numa_Allocate_Cpumask (Some m),
              Numa_Node_To_Cpus node m 0, Numa_Run_On_Node_Mask m 0, Numa_Free_Cpumask m,
              Numa_Set_Preferred node])
    else \<exists>es. tr' = tr @ es
      \<and> (\<forall>m. Numa_Run_On_Node_Mask m 0 \<notin> set es) \<and> (\<forall>k. Numa_Set_Preferred k \<notin> set es)"
proof (cases ok)
  case True
  with b obtain rc largest m where node: "0 \<le> node" "node \<le> largest" "rc \<noteq> - 1"
    and tr': "tr' = tr @ [Numa_Available rc, Numa_Max_Node largest, Numa_Allocate_Cpumask (Some m),
        Numa_Node_To_Cpus node m 0, Numa_Run_On_Node_Mask m 0, Numa_Free_Cpumask m, Numa_Set_Preferred node]"
    by (auto simp: bind_thread_to_node_def node_refused_def numa_available_def Let_def
        split: if_splits option.splits)
  let ?tr = "tr @ [Numa_Available rc, Numa_Max_Node largest, Numa_Allocate_Cpumask (Some m)]"
  have "tr' = ?tr @ [Numa_Node_To_Cpus node m 0, Numa_Run_On_Node_Mask m 0, Numa_Free_Cpumask m,
      Numa_Set_Preferred node]" by (simp add: tr')
  with run_on_cpus_of_node [OF M node(1), of ?tr m] True node tr' show ?thesis by auto
next
  case False
  with b show ?thesis
    by (auto simp: bind_thread_to_node_def node_refused_def numa_available_def Let_def
        split: if_splits option.splits)
qed

text \<open>
  A machine that keeps account of the calls, here with two nodes of two CPUs each: a thread bound to
  node 0 may run on the CPUs of both.
\<close>

fun mask_bits :: "(nat \<Rightarrow> nat set) \<Rightarrow> numa_call \<Rightarrow> (nat \<Rightarrow> nat set) \<Rightarrow> nat \<Rightarrow> nat set" where
  "mask_bits cpus (Numa_Node_To_Cpus node m rc) bits = (if rc = 0 then bits(m := cpus (nat node)) else bits)"
| "mask_bits cpus _ bits = bits"

fun thread_cpus :: "(nat \<Rightarrow> nat set) \<Rightarrow> numa_call \<Rightarrow> (nat \<Rightarrow> nat set) \<times> nat set \<Rightarrow> (nat \<Rightarrow> nat set) \<times> nat set" where
  "thread_cpus cpus (Numa_Run_On_Node_Mask m rc) (bits, run) =
     (bits, if rc = 0 then (\<Union>k \<in> bits m. cpus k) else run)"
| "thread_cpus cpus call (bits, run) = (mask_bits cpus call bits, run)"

definition accounting_machine :: "(nat \<Rightarrow> nat set) \<Rightarrow> numa_machine" where
  "accounting_machine cpus =
     (let state = (\<lambda>tr. fold (thread_cpus cpus) tr (\<lambda>m. {}, \<Union>k. cpus k))
      in \<lparr>nm_node_cpus = cpus, nm_mask = (\<lambda>tr. fst (state tr)), nm_thread = (\<lambda>tr. snd (state tr)),
          nm_preferred = (\<lambda>tr. case last tr of Numa_Set_Preferred node \<Rightarrow> node | _ \<Rightarrow> 0)\<rparr>)"

lemma accounting_machine_documented: "numa_documented (accounting_machine cpus)"
proof -
  let ?state = "\<lambda>tr. fold (thread_cpus cpus) tr (\<lambda>m. {}, \<Union>k. cpus k)"
  have step: "?state (tr @ [e]) = thread_cpus cpus e (?state tr)" for tr e by simp
  have "thread_cpus cpus (Numa_Node_To_Cpus node m 0) s = ((fst s)(m := cpus (nat node)), snd s)"
    "thread_cpus cpus (Numa_Run_On_Node_Mask m 0) s = (fst s, \<Union>k \<in> fst s m. cpus k)"
    "thread_cpus cpus (Numa_Free_Cpumask m) s = s"
    "thread_cpus cpus (Numa_Set_Preferred node) s = s" for node m s
    by (cases s; simp)+
  then show ?thesis unfolding numa_documented_def accounting_machine_def Let_def by simp
qed

definition two_nodes :: "nat \<Rightarrow> nat set" where
  "two_nodes n = (if n = 0 then {0, 1} else if n = 1 then {2, 3} else {})"

definition numa_fine :: numa_env where
  "numa_fine = \<lparr>on_available = (\<lambda>tr. 0), on_max_node = (\<lambda>tr. 1), on_preferred = (\<lambda>tr. 0),
     on_cpumask = (\<lambda>tr. Some 0), on_node_to_cpus = (\<lambda>tr node m. 0), on_run = (\<lambda>tr m. 0),
     on_alloc = (\<lambda>tr bytes node. 0x1000)\<rparr>"

theorem bind_thread_effect_witness:
  "fst (bind_thread_to_node numa_fine True 0 [])
   \<and> nm_thread (accounting_machine two_nodes) (snd (bind_thread_to_node numa_fine True 0 [])) = {0, 1, 2, 3}"
proof -
  obtain ok tr' where b: "bind_thread_to_node numa_fine True 0 [] = (ok, tr')" by fastforce
  then have ok: "ok"
    by (auto simp: bind_thread_to_node_def node_refused_def numa_available_def numa_fine_def Let_def)
  have "nm_node_cpus (accounting_machine two_nodes) = two_nodes"
    by (simp add: accounting_machine_def)
  with bind_thread_effect [OF accounting_machine_documented b, of two_nodes] ok
  have "nm_thread (accounting_machine two_nodes) tr' = (\<Union>k \<in> two_nodes 0. two_nodes k)" by simp
  also have "\<dots> = {0, 1, 2, 3}" by (auto simp: two_nodes_def)
  finally show ?thesis using b ok by simp
qed

text \<open>The stub and a machine without NUMA: nothing is called but \<open>numa_available\<close>.\<close>

lemma numa_guards:
  "bind_thread_to_node env False node tr = (False, tr)"
  "alloc_onnode env False bytes node tr = (0, tr)"
  "numa_max_node env False tr = (- 1, tr)" "numa_preferred_node env False tr = (- 1, tr)"
  "free_onnode has 0 bytes tr = tr"
  "on_available env tr = - 1 \<Longrightarrow> bind_thread_to_node env True node tr = (False, tr @ [Numa_Available (- 1)])"
  "on_available env tr = - 1 \<Longrightarrow> alloc_onnode env True bytes node tr = (0, tr @ [Numa_Available (- 1)])"
  by (simp_all add: bind_thread_to_node_def node_refused_def alloc_onnode_def numa_max_node_def
      numa_preferred_node_def numa_available_def free_onnode_def)

lemma numa_status_line_stub:
  "fst (numa_status_line env False tr) = ''numa_backend=stub available=no max_node=-1 preferred=-1''"
  by (simp add: numa_status_line_def numa_backend_def numa_available_def numa_max_node_def
      numa_preferred_node_def show_int_def show_nat.simps digit_char_def char_of_def bit_simps)

end
