(* ===== verification/Umbrella.thy ===== *)
theory Umbrella
  imports KernelBypass
begin

text \<open>
  The preprocessor side of the library: the feature macros with the defaults the headers of
  \<open>include/ll\<close> and the umbrella header \<open>industry.hpp\<close> give them, the branch hints of \<open>branch.hpp\<close>,
  and the macros \<open>src/folly_compat.hpp\<close> removes. \<open>CMake\<close> may define any of the feature macros on the
  command line.
\<close>

section \<open>Feature macros\<close>

text \<open>The macros that are defined, with the integer their replacement text stands for in \<open>#if\<close>.\<close>

type_synonym macros = "string \<rightharpoonup> int"

text \<open>\<open>#ifndef M\<close>, \<open>#define M 0\<close>, \<open>#endif\<close>.\<close>

definition default_off :: "string \<Rightarrow> macros \<Rightarrow> macros" where
  "default_off m env = (if env m = None then env(m \<mapsto> 0) else env)"

text \<open>\<open>#if M\<close>: a name that is not a macro counts as 0.\<close>

definition macro_on :: "macros \<Rightarrow> string \<Rightarrow> bool" where
  "macro_on env m \<longleftrightarrow> (case env m of None \<Rightarrow> False | Some v \<Rightarrow> v \<noteq> 0)"

definition hdr_c_macros :: "macros \<Rightarrow> macros" where
  "hdr_c_macros = default_off ''LL_HAS_HDRHISTOGRAM_C''"

definition jemalloc_macros :: "macros \<Rightarrow> macros" where
  "jemalloc_macros = default_off ''LL_HAS_JEMALLOC''"

definition kernel_bypass_macros :: "macros \<Rightarrow> macros" where
  "kernel_bypass_macros = default_off ''LL_HAS_ONLOAD'' \<circ> default_off ''LL_HAS_DPDK''"

definition linux_numa_macros :: "macros \<Rightarrow> macros" where
  "linux_numa_macros = default_off ''LL_HAS_LIBNUMA''"

definition linux_uring_macros :: "macros \<Rightarrow> macros" where
  "linux_uring_macros = default_off ''LL_HAS_LIBURING''"

definition struct_pack_macros :: "macros \<Rightarrow> macros" where
  "struct_pack_macros = default_off ''LL_HAS_STRUCT_PACK''"

text \<open>The umbrella header: the headers it includes, then its own defaults, in order.\<close>

definition industry_headers :: "(macros \<Rightarrow> macros) list" where
  "industry_headers = [hdr_c_macros, jemalloc_macros, kernel_bypass_macros, linux_numa_macros,
     linux_uring_macros, struct_pack_macros]"

definition industry_features :: "string list" where
  "industry_features =
     [''LL_HAS_HWLOC'', ''LL_HAS_FLATBUFFERS'', ''LL_HAS_MIMALLOC'', ''LL_HAS_JEMALLOC'',
      ''LL_HAS_BENCHMARK'', ''LL_HAS_MOODYCAMEL'', ''LL_HAS_STRUCT_PACK'', ''LL_HAS_HDRHISTOGRAM_C'',
      ''LL_HAS_LIBNUMA'', ''LL_HAS_LIBURING'', ''LL_HAS_SBE_CODEGEN'', ''LL_HAS_DPDK'', ''LL_HAS_ONLOAD'',
      ''LL_HAS_FOLLY_PCQ'']"

definition industry_macros :: "macros \<Rightarrow> macros" where
  "industry_macros env = fold default_off industry_features (fold (\<lambda>h. h) industry_headers env)"

definition industry_has_sbe_codec :: "macros \<Rightarrow> bool" where
  "industry_has_sbe_codec env = macro_on (industry_macros env) ''LL_HAS_SBE_CODEGEN''"

lemma default_off_apply: "default_off m env x = (if x = m \<and> env x = None then Some 0 else env x)"
  by (auto simp: default_off_def)

lemma macro_on_default_off [simp]: "macro_on (default_off m env) x = macro_on env x"
  by (auto simp: macro_on_def default_off_apply split: option.split)

lemma default_off_fold: "fold default_off ms env x = (if x \<in> set ms \<and> env x = None then Some 0 else env x)"
  by (induction ms arbitrary: env) (auto simp: default_off_apply)

text \<open>The headers are a list of defaults too.\<close>

lemma industry_headers_fold:
  "fold (\<lambda>h. h) industry_headers env = fold default_off
     [''LL_HAS_HDRHISTOGRAM_C'', ''LL_HAS_JEMALLOC'', ''LL_HAS_DPDK'', ''LL_HAS_ONLOAD'', ''LL_HAS_LIBNUMA'',
      ''LL_HAS_LIBURING'', ''LL_HAS_STRUCT_PACK''] env"
  by (simp add: industry_headers_def hdr_c_macros_def jemalloc_macros_def kernel_bypass_macros_def
      linux_numa_macros_def linux_uring_macros_def struct_pack_macros_def)

lemma industry_apply:
  "industry_macros env x = (if x \<in> set industry_features \<and> env x = None then Some 0 else env x)"
proof -
  have "set [''LL_HAS_HDRHISTOGRAM_C'', ''LL_HAS_JEMALLOC'', ''LL_HAS_DPDK'', ''LL_HAS_ONLOAD'', ''LL_HAS_LIBNUMA'',
      ''LL_HAS_LIBURING'', ''LL_HAS_STRUCT_PACK''] \<subseteq> set industry_features" by (simp add: industry_features_def)
  then show ?thesis unfolding industry_macros_def industry_headers_fold default_off_fold by auto
qed

text \<open>
  After the umbrella header every feature macro is defined, those set on the command line keep
  their values, no other macro changes, and no \<open>#if\<close> takes another branch than without it: the
  headers may be included in any order, before or after it.
\<close>

theorem industry_conservative:
  "(m \<in> set industry_features \<longrightarrow> industry_macros env m = Some (case env m of None \<Rightarrow> 0 | Some v \<Rightarrow> v))
   \<and> (m \<notin> set industry_features \<longrightarrow> industry_macros env m = env m)
   \<and> (macro_on (industry_macros env) m \<longleftrightarrow> macro_on env m)
   \<and> industry_macros (industry_macros env) = industry_macros env"
  by (auto simp: industry_apply macro_on_def fun_eq_iff split: option.split)

text \<open>The build configuration the receive backends see.\<close>

definition macro_value :: "macros \<Rightarrow> string \<Rightarrow> int" where
  "macro_value env m = (case env m of None \<Rightarrow> 0 | Some v \<Rightarrow> v)"

definition build_of :: "macros \<Rightarrow> build_config" where
  "build_of env = (let env = kernel_bypass_macros env in
     \<lparr>LL_HAS_DPDK = macro_value env ''LL_HAS_DPDK'', LL_HAS_ONLOAD = macro_value env ''LL_HAS_ONLOAD''\<rparr>)"

lemma macro_value_default_off [simp]: "macro_value (default_off m env) x = macro_value env x"
  by (auto simp: macro_value_def default_off_apply split: option.split)

lemma macro_value_industry [simp]: "macro_value (industry_macros env) m = macro_value env m"
  by (auto simp: macro_value_def industry_apply split: option.split)

lemma build_of_built:
  "dpdk_built (build_of env) = macro_on env ''LL_HAS_DPDK''"
  "onload_built (build_of env) = macro_on env ''LL_HAS_ONLOAD''"
  "build_of (industry_macros env) = build_of env"
  by (auto simp: build_of_def dpdk_built_def onload_built_def macro_on_def kernel_bypass_macros_def
      macro_value_def [of env] Let_def split: option.split)

section \<open>Branch hints\<close>

text \<open>
  \<open>LL_LIKELY(x)\<close> and \<open>LL_UNLIKELY(x)\<close> as the condition of an \<open>if\<close>, for a condition of integer type:
  an attribute behind the condition, \<open>__builtin_expect(!!(x), 1)\<close> (or \<open>0\<close>), which has the value of its
  first argument, or the condition alone.
\<close>

datatype hint_support = Hint_Attribute | Hint_Builtin | Hint_None

definition builtin_expect :: "int \<Rightarrow> int \<Rightarrow> int" where
  "builtin_expect e c = e"

definition not_not :: "int \<Rightarrow> int" where
  "not_not x = (if x = 0 then 0 else 1)"

fun ll_likely :: "hint_support \<Rightarrow> int \<Rightarrow> int" where
  "ll_likely Hint_Attribute x = x"
| "ll_likely Hint_Builtin x = builtin_expect (not_not x) 1"
| "ll_likely Hint_None x = x"

fun ll_unlikely :: "hint_support \<Rightarrow> int \<Rightarrow> int" where
  "ll_unlikely Hint_Attribute x = x"
| "ll_unlikely Hint_Builtin x = builtin_expect (not_not x) 0"
| "ll_unlikely Hint_None x = x"

text \<open>A hint never changes which branch is taken.\<close>

lemma hints_keep_branch: "ll_likely h x \<noteq> 0 \<longleftrightarrow> x \<noteq> 0" "ll_unlikely h x \<noteq> 0 \<longleftrightarrow> x \<noteq> 0"
  by (cases h; simp add: builtin_expect_def not_not_def)+

section \<open>Folly\<close>

text \<open>\<open>#ifdef M\<close>, \<open>#undef M\<close>, \<open>#endif\<close> for the macros of \<open><math.h>\<close> that clash with \<open>fmt\<close>.\<close>

definition undef_macro :: "string \<Rightarrow> macros \<Rightarrow> macros" where
  "undef_macro m env = (if env m \<noteq> None then env(m := None) else env)"

definition folly_compat :: "macros \<Rightarrow> macros" where
  "folly_compat = fold undef_macro [''isnan'', ''isinf'', ''isfinite'', ''signbit'', ''fpclassify'']"

lemma undef_macro_fold: "fold undef_macro ms env m = (if m \<in> set ms then None else env m)"
  by (induction ms arbitrary: env) (auto simp: undef_macro_def)

lemma folly_compat_apply:
  "folly_compat env m = (if m \<in> set [''isnan'', ''isinf'', ''isfinite'', ''signbit'', ''fpclassify''] then None else env m)"
  unfolding folly_compat_def by (rule undef_macro_fold)

end
