(* ===== verification/Examples.thy ===== *)
theory Examples
  imports SbeCodec SbeStyle KernelBypass
begin

text \<open>
  The programs of \<open>examples/\<close> that put the components together: \<open>sbe_codegen\<close>, \<open>sbe_style\<close> and
  \<open>kernel_bypass\<close>. Each is a function from the message the program sends, which the source
  fixes, to its exit code and the values it prints.
\<close>

section \<open>examples/sbe_codegen\<close>

definition codegen_tick :: tick_values where
  "codegen_tick = \<lparr>tv_instrument_id = 1001, tv_price_ticks = 1902500, tv_qty = 50, tv_seq = 7,
     tv_ts_ns = 42\<rparr>"

text \<open>The exit code, and the line printed before exit code 0: the wire size and the fields.\<close>

definition codegen_main :: "byte_order \<Rightarrow> tick_values \<Rightarrow> (int \<times> (size_t \<times> tick_values) option) res" where
  "codegen_main bo tick_in =
     res_bind (encode_tick bo (replicate 64 0) tick_in) (\<lambda>(n, wire).
     if n = 0 then Inr (1, None)
     else res_bind (decode_tick bo (take (unat n) wire) tick_values_default) (\<lambda>(ok, out).
          if \<not> ok then Inr (2, None) else Inr (0, Some (n, out))))"

section \<open>examples/sbe_style\<close>

definition style_msg :: tick_msg where
  "style_msg = \<lparr>tm_instrument_id = 1001, tm_price_ticks = 1902500, tm_qty = 50, tm_seq = 42\<rparr>"

definition style_main :: "byte_order \<Rightarrow> tick_msg \<Rightarrow> (int \<times> tick_msg option) res" where
  "style_main bo msg =
     res_bind (style_encode bo (replicate (unat sizeof_TickMsg) 0) msg) (\<lambda>(ok, wire).
     if \<not> ok then Inr (1, None)
     else res_bind (view_read bo wire (decode_view wire)) (\<lambda>m. Inr (0, Some m)))"

section \<open>examples/kernel_bypass\<close>

definition bypass_tick :: tick_values where
  "bypass_tick = \<lparr>tv_instrument_id = 7, tv_price_ticks = 100, tv_qty = 1, tv_seq = 1, tv_ts_ns = 1\<rparr>"

text \<open>What is printed: the number of packets, the length of the first, and the decoded tick.\<close>

definition bypass_main :: "byte_order \<Rightarrow> tick_values \<Rightarrow> (size_t \<times> size_t \<times> tick_values option) res" where
  "bypass_main bo tick =
     (let rx = snd (stub_open stub_new 0 0) in
      res_bind (encode_tick bo (replicate 64 0) tick) (\<lambda>(n, wire).
      res_bind (inject_for_test rx (take (unat n) wire)) (\<lambda>rx.
      let (got, batch, rx) = stub_poll rx (replicate 8 packet_view_default) in
      if got = 0 then Inr (got, 0, None)
      else res_bind (view_bytes (rx_slot rx) (batch ! 0)) (\<lambda>bytes.
           res_bind (decode_tick bo bytes tick_values_default) (\<lambda>(ok, out).
             Inr (got, pv_length (batch ! 0), if ok then Some out else None))))))"

section \<open>Properties\<close>

lemma encode_64: "encode_tick bo (replicate 64 0) v = Inr (32, tick_wire v @ replicate 32 0)"
  by (subst encode_tick_eq) simp_all

lemma decode_wire: "decode_tick bo (tick_wire v) out = Inr (True, v)"
  using decode_tick_eq [of "tick_wire v" bo out] wire_tick_wire [of v "[]"]
  by simp (simp add: sbeBlockLength_def)

text \<open>
  The code-generation example exits with 0 and prints the fields it has encoded, for its own
  message and for any other, on either kind of host; its wire size is 32 bytes.
\<close>

theorem codegen_example:
  "codegen_main bo v = Inr (0, Some (32, v))"
  by (simp add: codegen_main_def encode_64 decode_wire)

text \<open>
  The hand-written-layout example exits with 0 and prints the message it has encoded: the
  pointer \<open>decode_view\<close> returns is never null there.
\<close>

theorem style_example:
  "style_main bo msg = Inr (0, Some msg)"
proof -
  have "style_encode bo (replicate 16 0) msg = Inr (True, tick_msg_bytes bo msg @ [])"
    by (subst style_encode_eq) simp_all
  moreover have "decode_view (tick_msg_bytes bo msg) = Some 0"
    by (simp add: decode_view_def sizeof_TickMsg_def tick_msg.length_enc)
  moreover have "view_read bo (tick_msg_bytes bo msg @ []) (Some 0) = Inr msg"
    using tick_msg.get_at [of "[]" 0 bo msg "[]"] by (simp add: view_read_def sizeof_TickMsg_def)
  ultimately show ?thesis by (simp add: style_main_def sizeof_TickMsg_def)
qed

text \<open>
  C40: The receive pipeline works end to end: whatever tick is encoded and injected into the stub,
  one poll returns one packet of 32 bytes, and decoding it through the packet view gives back
  that tick.
\<close>

theorem bypass_example:
  "bypass_main bo v = Inr (1, 32, Some v)"
proof -
  let ?rx = "stub_new\<lparr>rx_port := 0, rx_queue := 0, rx_open := True\<rparr>"
  have "stub_inv ?rx" by (simp add: stub_inv_def stub_new_def)
  then have inj: "inject_for_test ?rx (tick_wire v) =
      Inr (?rx\<lparr>rx_slot := tick_wire v @ drop 32 (rx_slot ?rx), rx_len := 32, rx_pending := True\<rparr>)"
    by (subst inject_eq) simp_all
  show ?thesis
    by (simp add: bypass_main_def stub_open_def encode_64 inj stub_poll_def view_bytes_def
        mem_read_def decode_wire)
qed

end
