(* ===== verification/Platform.thy ===== *)
theory Platform
  imports Prelude
begin

text \<open>
  The thin wrappers around the platform: thread affinity (\<open>include/ll/affinity.hpp\<close>), jemalloc
  (\<open>include/ll/jemalloc_util.hpp\<close>), struct_pack (\<open>include/ll/struct_pack_tick.hpp\<close>) and the clocks of
  \<open>include/ll/tsc_clock.hpp\<close>. What the platform or a library answers is an argument.
\<close>

section \<open>Thread affinity\<close>

datatype os = Linux | Apple | Other_Os

text \<open>
  \<open>cpu_set_t\<close> has 1024 bits; \<open>CPU_SET\<close> compares the number, converted to \<open>size_t\<close>, with the size
  of the set, so a negative number and one from 1024 on set nothing. The \<open>int\<close> is an integer here.
\<close>

type_synonym cpu_set = "1024 word"

definition cpu_zero :: cpu_set where
  "cpu_zero = 0"

definition cpu_set_bit :: "int \<Rightarrow> cpu_set \<Rightarrow> cpu_set" where
  "cpu_set_bit cpu s =
     (let i = word_of_int cpu :: size_t in if i < 1024 then s OR push_bit (unat i) 1 else s)"

text \<open>\<open>setaffinity\<close> is \<open>pthread_setaffinity_np\<close> for the calling thread.\<close>

definition pin_current_thread_to_cpu :: "os \<Rightarrow> (cpu_set \<Rightarrow> int) \<Rightarrow> int \<Rightarrow> bool" where
  "pin_current_thread_to_cpu os setaffinity cpu_index =
     (if os = Linux then
        let s = cpu_zero;
            s = cpu_set_bit cpu_index s
        in setaffinity s = 0
      else False)"

definition set_current_thread_interactive_qos :: "os \<Rightarrow> int \<Rightarrow> bool" where
  "set_current_thread_interactive_qos os rc = (if os = Apple then rc = 0 else False)"

definition affinity_backend :: "os \<Rightarrow> string" where
  "affinity_backend os = (case os of
     Linux \<Rightarrow> ''linux-pthread_setaffinity_np''
   | Apple \<Rightarrow> ''macos-qos-user-interactive''
   | Other_Os \<Rightarrow> ''none'')"

lemma bit_2_pow: "bit (2 ^ i :: 'a::len word) k \<longleftrightarrow> k = i \<and> k < LENGTH('a)"
  by (auto simp: bit_exp_iff)

lemma cpu_set_bit_iff:
  assumes "- (2 ^ 31) \<le> cpu" and "cpu < 2 ^ 31"
  shows "bit (cpu_set_bit cpu s) k \<longleftrightarrow> bit s k \<or> (int k = cpu \<and> k < 1024)"
proof -
  let ?i = "word_of_int cpu :: size_t"
  show ?thesis
  proof (cases "0 \<le> cpu")
    case True
    then have i: "uint ?i = cpu" using assms by (simp add: uint_word_of_int)
    then have u: "int (unat ?i) = cpu" by simp
    have lt: "?i < 1024 \<longleftrightarrow> cpu < 1024" by (simp add: word_less_def i)
    have len: "LENGTH(1024) = 1024" by simp
    from u have "k = unat ?i \<longleftrightarrow> int k = cpu" by linarith
    then show ?thesis
      by (auto simp: cpu_set_bit_def Let_def lt bit_or_iff bit_2_pow)
  next
    case False
    then have "cpu mod 2 ^ 64 = cpu + 2 ^ 64"
      using assms mod_pos_pos_trivial [of "cpu + 2 ^ 64" "2 ^ 64"] by simp
    then have "uint ?i = cpu + 2 ^ 64" by (simp add: uint_word_of_int)
    then have "\<not> ?i < 1024" using assms by (simp add: word_less_def)
    with False show ?thesis by (auto simp: cpu_set_bit_def)
  qed
qed

text \<open>
  The set the thread asks for is the one CPU, or empty when the number is none of a CPU set; the
  call succeeds when the platform grants it.
\<close>

lemma pin_current_thread_set:
  assumes "- (2 ^ 31) \<le> cpu" and "cpu < 2 ^ 31"
  shows "\<exists>s. pin_current_thread_to_cpu Linux setaffinity cpu = (setaffinity s = 0)
    \<and> {k. bit s k} = (if 0 \<le> cpu \<and> cpu < 1024 then {nat cpu} else {})"
proof -
  have "{k. bit (cpu_set_bit cpu cpu_zero) k} = (if 0 \<le> cpu \<and> cpu < 1024 then {nat cpu} else {})"
    by (auto simp: cpu_set_bit_iff [OF assms] cpu_zero_def)
  then show ?thesis by (auto simp: pin_current_thread_to_cpu_def)
qed

section \<open>jemalloc\<close>

definition je_available :: "bool \<Rightarrow> bool" where
  "je_available has = has"

text \<open>
  The allocator is the state \<open>'h\<close>: \<open>malloc_bytes\<close> and \<open>free_bytes\<close> call \<open>malloc\<close> and \<open>free\<close> in
  both configurations, of jemalloc in one and of the C library in the other.
\<close>

definition malloc_bytes :: "(size_t \<Rightarrow> 'h \<Rightarrow> u64 \<times> 'h) \<Rightarrow> size_t \<Rightarrow> 'h \<Rightarrow> u64 \<times> 'h" where
  "malloc_bytes malloc n h = malloc n h"

definition free_bytes :: "(u64 \<Rightarrow> 'h \<Rightarrow> 'h) \<Rightarrow> u64 \<Rightarrow> 'h \<Rightarrow> 'h" where
  "free_bytes free p h = free p h"

text \<open>\<open>mallctl\<close> answers with a code and, through the pointer, a string or nothing.\<close>

definition version_string :: "bool \<Rightarrow> int \<times> string option \<Rightarrow> string" where
  "version_string has mallctl =
     (if has then
        (case mallctl of
           (rc, Some v) \<Rightarrow> if rc = 0 then v else ''jemalloc''
         | (rc, None) \<Rightarrow> ''jemalloc'')
      else ''stub'')"

lemma version_string_cases:
  "version_string has (rc, v) =
     (if \<not> has then ''stub'' else if rc = 0 \<and> v \<noteq> None then the v else ''jemalloc'')"
  by (simp add: version_string_def split: option.split)

section \<open>struct_pack\<close>

record sp_tick =
  sp_instrument_id :: u32
  sp_price_ticks :: u32
  sp_qty :: u32
  sp_seq :: u32
  sp_ts_ns :: u64

definition sp_tick_default :: sp_tick where
  "sp_tick_default = \<lparr>sp_instrument_id = 0, sp_price_ticks = 0, sp_qty = 0, sp_seq = 0, sp_ts_ns = 0\<rparr>"

definition sp_tick_eq :: "sp_tick \<Rightarrow> sp_tick \<Rightarrow> bool" where
  "sp_tick_eq t u \<longleftrightarrow> sp_instrument_id t = sp_instrument_id u \<and> sp_price_ticks t = sp_price_ticks u
     \<and> sp_qty t = sp_qty u \<and> sp_seq t = sp_seq u \<and> sp_ts_ns t = sp_ts_ns u"

text \<open>\<open>pack\<close> and \<open>unpack\<close> are \<open>struct_pack::serialize\<close> and \<open>struct_pack::deserialize<Tick>\<close>.\<close>

definition sp_available :: "bool \<Rightarrow> bool" where
  "sp_available has = has"

definition sp_serialize :: "bool \<Rightarrow> (sp_tick \<Rightarrow> char list) \<Rightarrow> sp_tick \<Rightarrow> char list" where
  "sp_serialize has pack t = (if has then pack t else [])"

definition sp_deserialize :: "bool \<Rightarrow> (char list \<Rightarrow> sp_tick option) \<Rightarrow> char list \<Rightarrow> sp_tick \<Rightarrow> bool \<times> sp_tick" where
  "sp_deserialize has unpack buf out =
     (if has then (case unpack buf of None \<Rightarrow> (False, out) | Some t \<Rightarrow> (True, t)) else (False, out))"

lemma sp_tick_eq: "sp_tick_eq t u \<longleftrightarrow> t = u"
  by (auto simp: sp_tick_eq_def)

text \<open>With the library's round trip, a tick survives; without the library nothing is decoded.\<close>

lemma sp_roundtrip:
  assumes "\<And>t. unpack (pack t) = Some t"
  shows "sp_deserialize True unpack (sp_serialize True pack t) out = (True, t)"
    and "sp_deserialize False unpack (sp_serialize False pack t) out = (False, out)"
  using assms by (simp_all add: sp_deserialize_def sp_serialize_def)

section \<open>Clocks\<close>

text \<open>
  \<open>cycles\<close> is what the counter instruction reads; \<open>ns\<close> is the tick count of \<open>steady_clock\<close>, a signed
  64-bit number. A difference of two readings is taken modulo 2^64.
\<close>

datatype cpu_arch = X86_64 | Aarch64 | Other_Arch

definition steady_ns :: "int \<Rightarrow> u64" where
  "steady_ns ns = word_of_int ns"

definition read_tsc :: "cpu_arch \<Rightarrow> u64 \<Rightarrow> int \<Rightarrow> u64" where
  "read_tsc arch cycles ns = (case arch of X86_64 \<Rightarrow> cycles | Aarch64 \<Rightarrow> cycles | Other_Arch \<Rightarrow> steady_ns ns)"

lemma steady_ns_difference:
  assumes "t0 \<le> t1" and "t1 - t0 < 2 ^ 64"
  shows "uint (steady_ns t1 - steady_ns t0) = t1 - t0"
proof -
  have "steady_ns t1 - steady_ns t0 = word_of_int (t1 - t0)" by (simp add: steady_ns_def)
  moreover have "uint (word_of_int (t1 - t0) :: u64) = t1 - t0"
    unfolding uint_word_of_int using assms by simp
  ultimately show ?thesis by simp
qed

end
