(* ===== verification/ExamplePrograms.thy ===== *)
theory ExamplePrograms
  imports HdrC LinuxUring LinuxNuma Platform Arena
begin

text \<open>
  The programs \<open>examples/arena\<close>, \<open>examples/hdr\<close> and \<open>examples/numa_uring\<close>: what they
  print, with \<open>double\<close> arithmetic rounded as binary64 and the clocks and libraries as arguments.
\<close>

section \<open>examples/arena\<close>

text \<open>A level is its price and its quantity; ten of them fill the block of 160 bytes.\<close>

definition arena_levels :: "(rat \<times> rat) list" where
  "arena_levels = map (\<lambda>i. (rd (100 + of_nat i), rd (1 * of_nat (i + 1)))) [0..<10]"

definition arena_notional :: "(rat \<times> rat) list \<Rightarrow> rat" where
  "arena_notional levels = foldl (\<lambda>s (px, qty). rd (s + rd (px * qty))) 0 levels"

text \<open>The line of each window: its notional and the bytes in use.\<close>

fun arena_windows :: "nat \<Rightarrow> arena \<Rightarrow> (rat \<times> size_t) list res" where
  "arena_windows 0 a = Inr []"
| "arena_windows (Suc k) a =
     (let a = arena_reset a in
      res_bind (arena_allocate a (16 * 10) 8) (\<lambda>(p, a).
        let line = (arena_notional arena_levels, arena_used a) in
        res_bind (arena_windows k a) (\<lambda>lines. Inr (line # lines))))"

definition arena_main :: "u64 \<Rightarrow> (rat \<times> size_t) list res" where
  "arena_main data = arena_windows 3 (arena_new data 65536)"

section \<open>examples/hdr\<close>

text \<open>
  \<open>readings\<close> are the two readings of the clock around each piece of work; the line printed has
  count, mean, three percentiles and the maximum.
\<close>

definition value_or_0 :: "u64 option \<Rightarrow> u64" where
  "value_or_0 v = (case v of None \<Rightarrow> 0 | Some x \<Rightarrow> x)"

definition hdr_main :: "(int \<times> int) list \<Rightarrow> (u64 \<times> double \<times> u64 \<times> u64 \<times> u64 \<times> u64) res" where
  "hdr_main readings =
     res_bind (record_all (histogram_new 64) (map (\<lambda>(t0, t1). steady_ns t1 - steady_ns t0) readings)) (\<lambda>hist.
     res_bind (value_at_percentile hist (Finite 50)) (\<lambda>p50.
     res_bind (value_at_percentile hist (Finite 99)) (\<lambda>p99.
     res_bind (value_at_percentile hist (Finite (rd (999 / 10)))) (\<lambda>p999.
       Inr (hist_count hist, hist_mean hist, value_or_0 p50, value_or_0 p99, value_or_0 p999, hist_max hist)))))"

section \<open>examples/numa_uring\<close>

text \<open>
  The lines printed, and the calls made of libnuma and of liburing; at the end of the program the
  ring is destroyed.
\<close>

definition numa_line :: "numa_env \<Rightarrow> bool \<Rightarrow> numa_trace \<Rightarrow> string \<times> numa_trace" where
  "numa_line env has tr =
     (let (avail, tr) = numa_available env has tr in
      if avail then
        let (pref, tr) = numa_preferred_node env has tr;
            (mx, tr) = numa_max_node env has tr
        in (''numa: preferred_node='' @ show_int pref @ '' max_node='' @ show_int mx, tr)
      else (''numa: not available (install libnuma-dev on Linux)'', tr))"

definition numa_uring_main :: "numa_env \<Rightarrow> bool \<Rightarrow> uring_env \<Rightarrow> bool \<Rightarrow> string list \<times> numa_trace \<times> uring_call list" where
  "numa_uring_main nenv has_numa uenv has_uring =
     (let (line1, ntr) = numa_status_line nenv has_numa [];
          line2 = uring_status_line has_uring;
          (ok, s) = ring_open uenv has_uring 16 (ring_new, []);
          (ok, s) = (if ok then submit_nop_and_wait uenv has_uring s else (False, s));
          line3 = (if ok then ''uring: NOP completed ok''
                   else ''uring: skipped or unavailable on this platform'');
          (line4, ntr) = numa_line nenv has_numa ntr;
          (r, utr) = ring_destroy has_uring s
      in ([line1, line2, line3, line4], ntr, utr))"

section \<open>What they print\<close>

lemma rd_numeral: "(numeral k :: int) \<le> 2 ^ 53 \<Longrightarrow> rd (numeral k) = numeral k"
  using rd_of_int [of "numeral k"] by simp

lemma arena_notional: "arena_notional arena_levels = 5830"
  by (simp add: arena_notional_def arena_levels_def upt_rec rd_numeral)

lemma arena_windows_lines:
  assumes inv: "arena_inv a" and al: "8 dvd unat (a_data a)" and cap: "length (a_storage a) = 65536"
    and room: "unat (a_data a) + 65536 + 8 \<le> 2 ^ 64"
  shows "arena_windows k a = Inr (replicate k (5830, 160))"
  using inv al cap room
proof (induction k arbitrary: a)
  case (Suc k)
  let ?a = "arena_reset a"
  have inv: "arena_inv ?a" and top: "arena_top ?a = unat (a_data a)" "arena_limit ?a = unat (a_data a) + 65536"
    using Suc.prems(1,3) by (simp_all add: arena_reset_def arena_inv_def arena_top_def arena_limit_def)
  have "pow2_size 8" unfolding pow2_size_def by (intro exI [of _ 3]) simp
  then have req: "sane_request ?a 160 8" using Suc.prems by (simp add: sane_request_def arena_reset_def)
  define p where "p = align_up (a_data ?a + a_offset ?a) 8"
  note n = arena_allocate_nat [OF inv req, folded p_def, unfolded top]
  obtain q where q: "unat p = 8 * q" using n(2) by auto
  obtain r where r: "unat (a_data a) = 8 * r" using Suc.prems(2) by auto
  have p: "unat p = unat (a_data a)" using n(3,4) unfolding q r by simp
  then have pa: "p = a_data a" by (simp add: word_unat_eq_iff)
  have alloc: "arena_allocate ?a 160 8 = Inr (a_data a, ?a\<lparr>a_offset := 160\<rparr>)"
    using n(1) p by (simp add: pa arena_reset_def)
  have "arena_inv (?a\<lparr>a_offset := 160\<rparr>)"
    using inv Suc.prems(3) by (simp add: arena_inv_def arena_reset_def)
  then have "arena_windows k (?a\<lparr>a_offset := 160\<rparr>) = Inr (replicate k (5830, 160))"
    using Suc.prems by (intro Suc.IH) (simp_all add: arena_reset_def)
  then show ?case by (simp add: alloc arena_notional arena_used_def)
qed simp

section \<open>Properties\<close>

text \<open>
  Every window of the arena example prints the exact notional 5830 and 160 bytes in use, whatever
  aligned address the storage has.
\<close>

theorem arena_example:
  assumes "8 dvd unat data" and "unat data + 65536 + 8 \<le> 2 ^ 64"
  shows "arena_main data = Inr [(5830, 160), (5830, 160), (5830, 160)]"
proof -
  have "arena_inv (arena_new data 65536)" using assms(2) by (simp add: arena_inv_def arena_new_def)
  from arena_windows_lines [OF this, of 3] assms show ?thesis
    by (simp add: arena_main_def arena_new_def numeral_3_eq_3)
qed

text \<open>
  The histogram example, for any readings of the clock: it prints the number of samples, the
  largest, and percentiles in ascending order.
\<close>

theorem hdr_example:
  assumes n: "readings \<noteq> []" "length readings \<le> 2 ^ 53"
  shows "\<exists>mean p50 p99 p999. hdr_main readings = Inr (word_of_nat (length readings), mean, p50, p99, p999,
      Max (set (map (\<lambda>(t0, t1). steady_ns t1 - steady_ns t0) readings)))
    \<and> p50 \<le> p99 \<and> p99 \<le> p999"
proof -
  let ?xs = "map (\<lambda>(t0, t1). steady_ns t1 - steady_ns t0) readings"
  have b: "(8 :: nat) \<le> 64" "(64 :: nat) \<le> 128" by simp_all
  obtain h where h: "record_all (histogram_new 64) ?xs = Inr h" "hist_inv 64 (rev ?xs) h"
    using record_all_new [OF b] by blast
  have xs: "rev ?xs \<noteq> []" "length (rev ?xs) \<le> 2 ^ 53" using n by simp_all
  have p: "(0 :: rat) < 50" "(50 :: rat) \<le> 99" "(0 :: rat) < 99" "99 \<le> rd (999 / 10)"
    using rd_mono [of 99 "999 / 10"] by (simp_all add: rd_numeral)
  from value_at_percentile_mono [OF b h(2) xs p(1,2)] value_at_percentile_mono [OF b h(2) xs p(3,4)]
  obtain p50 p99 p999 where
    "value_at_percentile h (Finite 50) = Inr (Some p50)" "value_at_percentile h (Finite 99) = Inr (Some p99)"
    "value_at_percentile h (Finite (rd (999 / 10))) = Inr (Some p999)" "p50 \<le> p99" "p99 \<le> p999"
    by auto
  moreover have "hist_count h = word_of_nat (length readings)"
    using h(2) by (simp add: hist_inv_def hist_count_def)
  moreover have "hist_max h = Max (set ?xs)"
    using h(2) n(1) by (simp add: hist_inv_def hist_max_def foldr_max_bot)
  ultimately show ?thesis using h(1) by (auto simp: hdr_main_def value_or_0_def)
qed

lemma numa_line_settles: "settles (numa_line env has)"
  by (auto simp: settles_def numa_line_def numa_preferred_node_def numa_max_node_def numa_available_def
      Let_def intro: exI [of _ False] exI [of _ True])

text \<open>
  The status example uses both libraries properly, from the first line to the destruction of the
  ring at its end.
\<close>

theorem numa_uring_example:
  "\<exists>lines ntr utr p. numa_uring_main nenv has_numa uenv has_uring = (lines, ntr, utr)
     \<and> length lines = 4
     \<and> follow numa_trans \<lparr>np_ready = False, np_masks = [], np_blocks = []\<rparr> ntr = Some p
     \<and> np_masks p = [] \<and> np_blocks p = []
     \<and> follow uring_trans (ring_phase has_uring ring_new) utr = Some (ring_phase has_uring ring_new)"
proof -
  define ops where "ops = (if fst (ring_open uenv has_uring 16 (ring_new, [])) then [Op_Open 16, Op_Nop] else [Op_Open 16])"
  define s where "s = run_ops (ring_call uenv has_uring) ops (ring_new, [])"
  define ntr where "ntr = snd (numa_line nenv has_numa (snd (numa_status_line nenv has_numa [])))"
  have uring: "follow uring_trans (ring_phase has_uring ring_new) (snd (ring_destroy has_uring s))
      = Some (ring_phase has_uring ring_new)"
    unfolding s_def by (rule ring.life_obeys) simp_all
  have "settles (\<lambda>tr. numa_line nenv has_numa (snd (numa_status_line nenv has_numa tr)))"
    by (rule settles_seq [OF numa_status_line_settles numa_line_settles])
  moreover have "numa_rests has_numa [] \<lparr>np_ready = False, np_masks = [], np_blocks = []\<rparr>"
    by (simp add: numa_rests_def)
  ultimately have "\<exists>es p'. snd (numa_line nenv has_numa (snd (numa_status_line nenv has_numa []))) = [] @ es
      \<and> follow numa_trans \<lparr>np_ready = False, np_masks = [], np_blocks = []\<rparr> es = Some p'
      \<and> numa_rests has_numa [] p'"
    by (rule settles_rests)
  then
  obtain p where p: "follow numa_trans \<lparr>np_ready = False, np_masks = [], np_blocks = []\<rparr> ntr = Some p"
    "numa_rests has_numa [] p" unfolding ntr_def by auto
  obtain lines where "numa_uring_main nenv has_numa uenv has_uring = (lines, ntr, snd (ring_destroy has_uring s))"
    "length lines = 4"
    by (simp add: numa_uring_main_def ntr_def s_def ops_def Let_def case_prod_beta)
  with uring p show ?thesis by (auto simp: numa_rests_def)
qed

end
