(* ===== verification/Relay.thy ===== *)
theory Relay
  imports SpscLiveness
begin

text \<open>
  Two threads that hand a number of items through a \<open>SpscQueue\<close>, as \<open>examples/spsc\<close> and the stress test
  of \<open>tests/test_ll_modules.cpp\<close> do: a feed that pushes them one after the other, spinning while the
  queue is full, and a strategy that pops them, spinning while it is empty, and does something with
  each. What the items are and what is done with them are the parameters. The threads are those of
  \<open>SpscThreads\<close> with the loops around their calls, one memory access per step. In a fair execution both
  come to their end, and all items have arrived in order.
\<close>

section \<open>The program\<close>

text \<open>
  The capacity of the queue, the number of items, the item of number \<open>k\<close> as the feed builds it (an
  environment value, such as the time, goes into it), the body of the strategy's loop with what it
  starts from, and \<open>T{}\<close>.
\<close>

record ('e, 'a, 'r) relay_program =
  rp_capacity :: nat
  rp_count :: nat
  rp_item :: "nat \<Rightarrow> 'e \<Rightarrow> 'a"
  rp_absorb :: "'r \<Rightarrow> 'a \<Rightarrow> 'r res"
  rp_start :: 'r
  rp_default :: 'a

fun absorb_all :: "('e, 'a, 'r) relay_program \<Rightarrow> 'r \<Rightarrow> 'a list \<Rightarrow> 'r res" where
  "absorb_all P r [] = Inr r"
| "absorb_all P r (x # xs) = res_bind (rp_absorb P r x) (\<lambda>r. absorb_all P r xs)"

text \<open>
  The feed is at the head of its \<open>for\<close> loop, or in the \<open>while\<close> around \<open>try_push\<close> with the item it
  has built, or at its end. A step of \<open>try_push\<close> is one of the queue; when the call returns, the
  last step tells what it returned.
\<close>

datatype 'a feed_pc = Feed_For nat | Feed_Push nat 'a | Feed_Done

record ('a, 'r) feed_strat =
  fs_queue :: "'a spsc_threads"
  fs_feed :: "'a feed_pc"
  fs_strat_done :: bool
  fs_got :: nat
  fs_checksum :: 'r

definition feed_strat_init :: "('e, 'a, 'r) relay_program \<Rightarrow> ('a, 'r) feed_strat" where
  "feed_strat_init P =
     \<lparr>fs_queue = spsc_threads_init (rp_default P), fs_feed = Feed_For 0, fs_strat_done = False,
      fs_got = 0, fs_checksum = rp_start P\<rparr>"

text \<open>\<open>e\<close> is what goes into a new item, \<open>i\<close> the store a load returns.\<close>

definition feed_step :: "('e, 'a, 'r) relay_program \<Rightarrow> 'e \<Rightarrow> nat \<Rightarrow> ('a, 'r) feed_strat \<Rightarrow>
    ('a, 'r) feed_strat res" where
  "feed_step P e i s = (case fs_feed s of
     Feed_For k \<Rightarrow>
       Inr (s\<lparr>fs_feed := (if k < rp_count P then Feed_Push k (rp_item P k e) else Feed_Done)\<rparr>)
   | Feed_Push k t \<Rightarrow>
       res_bind (push_step (rp_capacity P) t i (fs_queue s)) (\<lambda>q.
         let returned = (push_pc q = Push_Idle); accepted = push_publishing (push_pc (fs_queue s))
         in Inr (s\<lparr>fs_queue := q,
                   fs_feed := (if returned \<and> accepted then Feed_For (k + 1) else Feed_Push k t)\<rparr>))
   | Feed_Done \<Rightarrow> Inr s)"

text \<open>The strategy is in a call of \<open>try_pop\<close>, or about to make one as long as \<open>got\<close> is below the count.\<close>

definition strat_pops :: "('e, 'a, 'r) relay_program \<Rightarrow> ('a, 'r) feed_strat \<Rightarrow> bool" where
  "strat_pops P s \<longleftrightarrow> \<not> fs_strat_done s \<and> (pop_pc (fs_queue s) \<noteq> Pop_Idle \<or> fs_got s < rp_count P)"

definition strat_step :: "('e, 'a, 'r) relay_program \<Rightarrow> nat \<Rightarrow> ('a, 'r) feed_strat \<Rightarrow>
    ('a, 'r) feed_strat res" where
  "strat_step P i s =
     (if strat_pops P s then
        res_bind (pop_step (rp_capacity P) id i (fs_queue s)) (\<lambda>q.
          (case pop_pc (fs_queue s) of
             Pop_Publish h out \<Rightarrow>
               res_bind (rp_absorb P (fs_checksum s) out) (\<lambda>checksum.
               Inr (s\<lparr>fs_queue := q, fs_checksum := checksum, fs_got := fs_got s + 1\<rparr>))
           | _ \<Rightarrow> Inr (s\<lparr>fs_queue := q\<rparr>)))
      else Inr (s\<lparr>fs_strat_done := True\<rparr>))"

definition feed_choice :: "nat \<Rightarrow> ('a, 'r) feed_strat \<Rightarrow> bool" where
  "feed_choice i s = (case fs_feed s of Feed_Push k t \<Rightarrow> push_choice i (fs_queue s) | _ \<Rightarrow> True)"

definition strat_choice :: "('e, 'a, 'r) relay_program \<Rightarrow> nat \<Rightarrow> ('a, 'r) feed_strat \<Rightarrow> bool" where
  "strat_choice P i s = (strat_pops P s \<longrightarrow> pop_choice i (fs_queue s))"

datatype 'e fs_label = Feed_Moves 'e nat | Strat_Moves nat

fun fs_moves :: "('e, 'a, 'r) relay_program \<Rightarrow> 'e fs_label \<Rightarrow> ('a, 'r) feed_strat \<Rightarrow>
    ('a, 'r) feed_strat \<Rightarrow> bool" where
  "fs_moves P (Feed_Moves e i) s s' \<longleftrightarrow> feed_choice i s \<and> feed_step P e i s = Inr s'"
| "fs_moves P (Strat_Moves i) s s' \<longleftrightarrow> strat_choice P i s \<and> strat_step P i s = Inr s'"

fun feed_moves :: "'e fs_label \<Rightarrow> bool" where
  "feed_moves (Feed_Moves e i) \<longleftrightarrow> True"
| "feed_moves (Strat_Moves i) \<longleftrightarrow> False"

text \<open>
  Infinite executions (a thread that has ended makes empty steps), in which both threads keep
  running and stores become visible to the loads of the other thread after finitely many steps.
\<close>

definition fs_exec :: "('e, 'a, 'r) relay_program \<Rightarrow> (nat \<Rightarrow> ('a, 'r) feed_strat) \<Rightarrow>
    (nat \<Rightarrow> 'e fs_label) \<Rightarrow> bool" where
  "fs_exec P \<sigma> lab \<longleftrightarrow> \<sigma> 0 = feed_strat_init P \<and> (\<forall>k. fs_moves P (lab k) (\<sigma> k) (\<sigma> (Suc k)))"

definition fs_fair :: "(nat \<Rightarrow> 'e fs_label) \<Rightarrow> bool" where
  "fs_fair lab \<longleftrightarrow> (\<forall>k. \<exists>j\<ge>k. feed_moves (lab j)) \<and> (\<forall>k. \<exists>j\<ge>k. \<not> feed_moves (lab j))"

definition fs_visible :: "(nat \<Rightarrow> ('a, 'r) feed_strat) \<Rightarrow> (nat \<Rightarrow> 'e fs_label) \<Rightarrow> bool" where
  "fs_visible \<sigma> lab \<longleftrightarrow>
     (\<forall>k m. m < length (hist (mem (fs_queue (\<sigma> k))) Tail) \<longrightarrow> (\<exists>j. \<forall>l\<ge>j. \<forall>h i.
        lab l = Strat_Moves i \<and> pop_pc (fs_queue (\<sigma> l)) = Pop_Load_Tail h \<longrightarrow> m \<le> i))
   \<and> (\<forall>k m. m < length (hist (mem (fs_queue (\<sigma> k))) Head) \<longrightarrow> (\<exists>j. \<forall>l\<ge>j. \<forall>x t e i.
        lab l = Feed_Moves e i \<and> push_pc (fs_queue (\<sigma> l)) = Push_Load_Head x t \<longrightarrow> m \<le> i))"

text \<open>An execution: the threads take turns, and every load returns the newest store.\<close>

definition fs_label :: "'e \<Rightarrow> nat \<Rightarrow> ('a, 'r) feed_strat \<Rightarrow> 'e fs_label" where
  "fs_label e k s =
     (if even k then Feed_Moves e (case push_pc (fs_queue s) of
        Push_Idle \<Rightarrow> newest (fs_queue s) Tail | Push_Load_Head _ _ \<Rightarrow> newest (fs_queue s) Head | _ \<Rightarrow> 0)
      else Strat_Moves (case pop_pc (fs_queue s) of
        Pop_Idle \<Rightarrow> newest (fs_queue s) Head | Pop_Load_Tail _ \<Rightarrow> newest (fs_queue s) Tail | _ \<Rightarrow> 0))"

fun fs_sched_step :: "('e, 'a, 'r) relay_program \<Rightarrow> 'e fs_label \<Rightarrow> ('a, 'r) feed_strat \<Rightarrow> ('a, 'r) feed_strat" where
  "fs_sched_step P (Feed_Moves e i) s = projr (feed_step P e i s)"
| "fs_sched_step P (Strat_Moves i) s = projr (strat_step P i s)"

primrec fs_turns :: "('e, 'a, 'r) relay_program \<Rightarrow> 'e \<Rightarrow> nat \<Rightarrow> ('a, 'r) feed_strat" where
  "fs_turns P e0 0 = (feed_strat_init P)"
| "fs_turns P e0 (Suc k) = fs_sched_step P (fs_label e0 k (fs_turns P e0 k)) (fs_turns P e0 k)"

definition fs_turn_label :: "('e, 'a, 'r) relay_program \<Rightarrow> 'e \<Rightarrow> nat \<Rightarrow> 'e fs_label" where
  "fs_turn_label P e0 k = fs_label e0 k (fs_turns P e0 k)"

lemma absorb_all_append:
  "absorb_all P c (xs @ ys) = res_bind (absorb_all P c xs) (\<lambda>c. absorb_all P c ys)"
  by (induction P c xs rule: absorb_all.induct) (simp_all add: res_bind_assoc)

section \<open>Invariant\<close>

text \<open>The items so far are those of the feed, with some environment values.\<close>

definition fed :: "('e, 'a, 'r) relay_program \<Rightarrow> 'a list \<Rightarrow> bool" where
  "fed P xs \<longleftrightarrow> (\<exists>ts. xs = map (\<lambda>i. rp_item P i (ts i)) [0..<length xs])"

lemma fed_snoc: "fed P xs \<Longrightarrow> fed P (xs @ [rp_item P (length xs) t])"
proof -
  assume "fed P xs"
  then obtain ts where ts: "xs = map (\<lambda>i. rp_item P i (ts i)) [0..<length xs]" by (auto simp: fed_def)
  have "xs @ [rp_item P (length xs) t]
      = map (\<lambda>i. rp_item P i ((ts(length xs := t)) i)) [0..<length (xs @ [rp_item P (length xs) t])]"
    by (subst ts) simp
  then show ?thesis unfolding fed_def by blast
qed

lemma fed_prefix: "fed P (xs @ ys) \<Longrightarrow> fed P xs"
proof -
  assume "fed P (xs @ ys)"
  then obtain ts where "xs @ ys = map (\<lambda>i. rp_item P i (ts i)) [0..<length xs + length ys]"
    by (auto simp: fed_def)
  then have "take (length xs) (xs @ ys) = map (\<lambda>i. rp_item P i (ts i)) (take (length xs) [0..<length xs + length ys])"
    by (simp only: take_map)
  then show ?thesis unfolding fed_def by (auto intro: exI [of _ ts])
qed

fun push_item :: "'a push_pc \<Rightarrow> 'a option" where
  "push_item Push_Idle = None"
| "push_item (Push_Load_Head x t) = Some x"
| "push_item (Push_Write x t next) = Some x"
| "push_item (Push_Publish x next) = Some x"

lemma push_step_item:
  assumes "push_step c item i s = Inr s'"
  shows "push_pc s = Push_Idle \<Longrightarrow> push_item (push_pc s') = Some item"
    and "push_item (push_pc s') = None \<or> push_item (push_pc s') = push_item (push_pc s) \<or> push_pc s = Push_Idle"
    and "push_publishing (push_pc s) \<Longrightarrow> push_pc s' = Push_Idle \<and> (\<exists>x. push_item (push_pc s) = Some x \<and> pushed s' = pushed s @ [x])"
    and "\<not> push_publishing (push_pc s) \<Longrightarrow> pushed s' = pushed s"
  using assms
  by (auto simp: push_step_def Let_def res_bind_Inr_iff split: push_pc.splits prod.splits if_splits)

lemma pop_step_item:
  assumes "pop_step c moved i s = Inr s'"
  shows "pop_pc s = Pop_Publish h out \<Longrightarrow> pop_pc s' = Pop_Idle \<and> got s' = got s @ [out]"
    and "\<not> pop_publishing (pop_pc s) \<Longrightarrow> got s' = got s"
  using assms
  by (auto simp: pop_step_def Let_def res_bind_Inr_iff split: pop_pc.splits prod.splits if_splits)

fun feed_ok :: "('e, 'a, 'r) relay_program \<Rightarrow> nat \<Rightarrow> 'a feed_pc \<Rightarrow> 'a push_pc \<Rightarrow> bool" where
  "feed_ok P m (Feed_For k) pc \<longleftrightarrow> k = m \<and> k \<le> rp_count P \<and> pc = Push_Idle"
| "feed_ok P m (Feed_Push k t) pc \<longleftrightarrow>
     k = m \<and> k < rp_count P \<and> (\<exists>ts. t = rp_item P k ts) \<and> (push_item pc = None \<or> push_item pc = Some t)"
| "feed_ok P m Feed_Done pc \<longleftrightarrow> m = rp_count P \<and> pc = Push_Idle"

definition fs_inv :: "('e, 'a, 'r) relay_program \<Rightarrow> ('a, 'r) feed_strat \<Rightarrow> bool" where
  "fs_inv P s \<longleftrightarrow> (let q = fs_queue s in
     spsc_inv (rp_capacity P) q \<and> fed P (pushed q) \<and> feed_ok P (length (pushed q)) (fs_feed s) (push_pc q)
     \<and> fs_got s = length (got q) \<and> absorb_all P (rp_start P) (got q) = Inr (fs_checksum s)
     \<and> (pop_pc q \<noteq> Pop_Idle \<longrightarrow> fs_got s < rp_count P \<and> \<not> fs_strat_done s)
     \<and> (fs_strat_done s \<longrightarrow> \<not> fs_got s < rp_count P))"

lemma fs_inv_init: "0 < (rp_capacity P) \<Longrightarrow> fs_inv P (feed_strat_init P)"
  using spsc_inv_init [of "rp_capacity P" "rp_default P"]
  by (simp add: fs_inv_def feed_strat_init_def fed_def spsc_threads_init_def)

definition feed_distance :: "('a, 'r) feed_strat \<Rightarrow> nat" where
  "feed_distance s = (case fs_feed s of
     Feed_For k \<Rightarrow> 5
   | Feed_Push k t \<Rightarrow> (if push_pc (fs_queue s) = Push_Idle then 4 else push_left (push_pc (fs_queue s)))
   | Feed_Done \<Rightarrow> 0)"

section \<open>It ends\<close>

text \<open>What is asked of a program: a queue of a valid size, and a loop body that takes the items.\<close>

locale relay =
  fixes P :: "('e, 'a, 'r) relay_program"
  assumes cap: "pow2_size (rp_capacity P)" and cap2: "2 \<le> rp_capacity P"
    and absorbs: "fed P xs \<Longrightarrow> length xs \<le> rp_count P \<Longrightarrow> \<exists>r. absorb_all P (rp_start P) xs = Inr r"
begin

lemma feed_step_inv:
  assumes inv: "fs_inv P s" and ch: "feed_choice i s"
  shows "\<exists>s'. feed_step P ts i s = Inr s' \<and> fs_inv P s'"
proof (cases "fs_feed s")
  case (Feed_Push k t)
  let ?q = "fs_queue s"
  have q: "spsc_inv (rp_capacity P) ?q" "fed P (pushed ?q)" and k: "k = length (pushed ?q)" "k < rp_count P"
    and t: "\<exists>ts. t = rp_item P k ts" "push_item (push_pc ?q) = None \<or> push_item (push_pc ?q) = Some t"
    using inv Feed_Push by (auto simp: fs_inv_def Let_def)
  have "push_choice i ?q" using ch Feed_Push by (simp add: feed_choice_def)
  from push_step_inv [OF cap q(1) this, of t] obtain q' where q': "push_step (rp_capacity P) t i ?q = Inr q'" "spsc_inv (rp_capacity P) q'"
    by blast
  note it = push_step_item [OF q'(1)] and left = push_step_left [OF q'(1)]
  show ?thesis
  proof (cases "push_publishing (push_pc ?q)")
    case True
    obtain ts where "t = rp_item P (length (pushed ?q)) ts" using t(1) k(1) by blast
    moreover have "push_pc q' = Push_Idle" "pushed q' = pushed ?q @ [t]" using it(3) [OF True] t(2) by auto
    ultimately show ?thesis using inv Feed_Push q' left(1,2) fed_snoc [OF q(2)] k True
      by (auto simp: feed_step_def fs_inv_def Let_def)
  next
    case False
    have "push_item (push_pc q') = None \<or> push_item (push_pc q') = Some t"
      using it(1,2) t(2) by auto
    then show ?thesis using inv Feed_Push q' left(1,2) it(4) [OF False] False
      by (auto simp: feed_step_def fs_inv_def Let_def)
  qed
next
  case (Feed_For k)
  then show ?thesis using inv by (cases "k < rp_count P") (auto simp: feed_step_def fs_inv_def Let_def)
next
  case Feed_Done
  then show ?thesis using inv by (simp add: feed_step_def)
qed

lemma strat_step_inv:
  assumes inv: "fs_inv P s" and ch: "strat_choice P i s"
  shows "\<exists>s'. strat_step P i s = Inr s' \<and> fs_inv P s'"
proof (cases "strat_pops P s")
  case True
  let ?q = "fs_queue s"
  have q: "spsc_inv (rp_capacity P) ?q" "fed P (pushed ?q)" "absorb_all P (rp_start P) (got ?q) = Inr (fs_checksum s)"
    "fs_got s < rp_count P" "\<not> fs_strat_done s" "fs_got s = length (got ?q)"
    using inv True by (auto simp: fs_inv_def Let_def strat_pops_def)
  have "pop_choice i ?q" using ch True by (simp add: strat_choice_def)
  from pop_step_inv [OF cap q(1) this, of id] obtain q' where q': "pop_step (rp_capacity P) id i ?q = Inr q'" "spsc_inv (rp_capacity P) q'"
    by blast
  note it = pop_step_item [OF q'(1)] and left = pop_step_left [OF q'(1)]
  show ?thesis
  proof (cases "pop_pc ?q")
    case (Pop_Publish h out)
    have g: "pop_pc q' = Pop_Idle" "got q' = got ?q @ [out]" using it(1) [OF Pop_Publish] by simp_all
    have "prefix (got q') (pushed ?q)" using got_prefix_pushed [OF q'(2)] left(2) by simp
    then have "fed P (got q')" using q(2) fed_prefix by (auto simp: prefix_def)
    then obtain ck where ck: "absorb_all P (rp_start P) (got ?q @ [out]) = Inr ck"
      using absorbs [of "got q'"] g(2) q(4,6) by auto
    then have "rp_absorb P (fs_checksum s) out = Inr ck" by (simp add: absorb_all_append q(3) res_bind_Inr_iff)
    then show ?thesis using inv True Pop_Publish q' g ck left(1,2) q(4,5)
      by (simp add: strat_step_def fs_inv_def Let_def)
  qed (use inv True q' left(1,2) it(2) q(4,5) in \<open>simp_all add: strat_step_def fs_inv_def Let_def\<close>)
next
  case False
  then show ?thesis using inv by (auto simp: strat_step_def fs_inv_def Let_def strat_pops_def)
qed

lemma fs_moves_inv:
  assumes inv: "fs_inv P s" and m: "fs_moves P e s s'"
  shows "fs_inv P s'"
proof (cases e)
  case (Feed_Moves ts i)
  then show ?thesis using feed_step_inv [OF inv, of i ts] m by auto
next
  case (Strat_Moves i)
  then show ?thesis using strat_step_inv [OF inv, of i] m by auto
qed

lemma fs_exec_inv:
  assumes ex: "fs_exec P \<sigma> lab"
  shows "fs_inv P (\<sigma> k)"
proof (induction k)
  case 0
  then show ?case using ex fs_inv_init [OF pow2_size_pos [OF cap]] by (simp add: fs_exec_def)
next
  case (Suc k)
  have "fs_moves P (lab k) (\<sigma> k) (\<sigma> (Suc k))" using ex by (simp add: fs_exec_def)
  with Suc show ?case by (rule fs_moves_inv)
qed

lemma fs_moves_grows:
  assumes "fs_moves P e s s'"
  shows "length (got (fs_queue s)) \<le> length (got (fs_queue s'))"
    and "fs_feed s = Feed_Done \<Longrightarrow> fs_feed s' = Feed_Done"
    and "fs_strat_done s \<Longrightarrow> fs_strat_done s'"
    and "feed_moves e \<Longrightarrow> pop_pc (fs_queue s') = pop_pc (fs_queue s)"
    and "\<not> feed_moves e \<Longrightarrow> push_pc (fs_queue s') = push_pc (fs_queue s)"
    and "\<not> feed_moves e \<Longrightarrow> fs_feed s' = fs_feed s"
    and "length (pushed (fs_queue s)) \<le> length (pushed (fs_queue s'))"
proof -
  have push: "length (pushed q) \<le> length (pushed q')" if "push_step (rp_capacity P) x i q = Inr q'"
    for x i and q q' :: "'a spsc_threads"
    using push_step_item [OF that] by (cases "push_publishing (push_pc q)") auto
  have pop: "length (got q) \<le> length (got q')" if "pop_step (rp_capacity P) id i q = Inr q'" for i and q q' :: "'a spsc_threads"
    using pop_step_item [OF that] by (cases "pop_pc q") auto
  have "length (got (fs_queue s)) \<le> length (got (fs_queue s'))
    \<and> (fs_feed s = Feed_Done \<longrightarrow> fs_feed s' = Feed_Done) \<and> (fs_strat_done s \<longrightarrow> fs_strat_done s')
    \<and> (feed_moves e \<longrightarrow> pop_pc (fs_queue s') = pop_pc (fs_queue s))
    \<and> (\<not> feed_moves e \<longrightarrow> push_pc (fs_queue s') = push_pc (fs_queue s))
    \<and> (\<not> feed_moves e \<longrightarrow> fs_feed s' = fs_feed s)
    \<and> length (pushed (fs_queue s)) \<le> length (pushed (fs_queue s'))"
  proof (cases e)
    case (Feed_Moves ts i)
    show ?thesis
    proof (cases "fs_feed s")
      case (Feed_Push k x)
      then obtain q' where "push_step (rp_capacity P) x i (fs_queue s) = Inr q'" "fs_queue s' = q'" "fs_strat_done s' = fs_strat_done s"
        using assms Feed_Moves by (auto simp: feed_step_def Let_def res_bind_Inr_iff)
      then show ?thesis using Feed_Push Feed_Moves push_step_left(1,2) [of "rp_capacity P" x i "fs_queue s" q'] push by simp
    qed (use assms Feed_Moves in \<open>auto simp: feed_step_def\<close>)
  next
    case (Strat_Moves i)
    show ?thesis
    proof (cases "strat_pops P s")
      case True
      then obtain q' where "pop_step (rp_capacity P) id i (fs_queue s) = Inr q'" "fs_queue s' = q'"
        "fs_feed s' = fs_feed s" "fs_strat_done s' = fs_strat_done s"
        using assms Strat_Moves by (cases "pop_pc (fs_queue s)") (auto simp: strat_step_def res_bind_Inr_iff)
      then show ?thesis using Strat_Moves pop pop_step_left(1,2) [of "rp_capacity P" id i "fs_queue s" q'] by simp
    qed (use assms Strat_Moves in \<open>auto simp: strat_step_def\<close>)
  qed
  then show "length (got (fs_queue s)) \<le> length (got (fs_queue s'))"
    "fs_feed s = Feed_Done \<Longrightarrow> fs_feed s' = Feed_Done" "fs_strat_done s \<Longrightarrow> fs_strat_done s'"
    "feed_moves e \<Longrightarrow> pop_pc (fs_queue s') = pop_pc (fs_queue s)"
    "\<not> feed_moves e \<Longrightarrow> push_pc (fs_queue s') = push_pc (fs_queue s)"
    "\<not> feed_moves e \<Longrightarrow> fs_feed s' = fs_feed s"
    "length (pushed (fs_queue s)) \<le> length (pushed (fs_queue s'))" by blast+
qed

lemma fs_exec_grows:
  assumes ex: "fs_exec P \<sigma> lab" and "k \<le> j"
  shows "length (got (fs_queue (\<sigma> k))) \<le> length (got (fs_queue (\<sigma> j)))"
    and "fs_feed (\<sigma> k) = Feed_Done \<Longrightarrow> fs_feed (\<sigma> j) = Feed_Done"
    and "fs_strat_done (\<sigma> k) \<Longrightarrow> fs_strat_done (\<sigma> j)"
    and "length (pushed (fs_queue (\<sigma> k))) \<le> length (pushed (fs_queue (\<sigma> j)))"
proof -
  have mv: "fs_moves P (lab l) (\<sigma> l) (\<sigma> (Suc l))" for l using ex by (simp add: fs_exec_def)
  show "length (got (fs_queue (\<sigma> k))) \<le> length (got (fs_queue (\<sigma> j)))"
    "fs_feed (\<sigma> k) = Feed_Done \<Longrightarrow> fs_feed (\<sigma> j) = Feed_Done"
    "fs_strat_done (\<sigma> k) \<Longrightarrow> fs_strat_done (\<sigma> j)"
    "length (pushed (fs_queue (\<sigma> k))) \<le> length (pushed (fs_queue (\<sigma> j)))"
    using assms(2)
    by (induction j rule: dec_induct)
      (auto intro: order_trans [OF _ fs_moves_grows(1) [OF mv]] order_trans [OF _ fs_moves_grows(7) [OF mv]]
        fs_moves_grows(2,3) [OF mv])
qed

lemma fs_lengths:
  assumes "fs_inv P s"
  shows "length (got (fs_queue s)) \<le> length (pushed (fs_queue s))" and "length (pushed (fs_queue s)) \<le> rp_count P"
proof -
  show "length (got (fs_queue s)) \<le> length (pushed (fs_queue s))"
    using assms got_prefix_pushed prefix_length_le by (auto simp: fs_inv_def Let_def)
  show "length (pushed (fs_queue s)) \<le> rp_count P"
    using assms by (cases "fs_feed s") (auto simp: fs_inv_def Let_def)
qed

text \<open>
  When all that was pushed has been taken, and the feed sees that, each of its steps brings it closer
  to the next push.
\<close>

lemma feed_step_advances:
  assumes inv: "fs_inv P s" and st: "feed_step P ts i s = Inr s'"
    and ch: "feed_choice i s" and few: "length (pushed (fs_queue s)) = m" "m < rp_count P"
    and see: "\<And>x t. push_pc (fs_queue s) = Push_Load_Head x t \<Longrightarrow> m \<le> i"
  shows "m < length (pushed (fs_queue s')) \<or> feed_distance s' < feed_distance s"
proof (cases "fs_feed s")
  case (Feed_For k)
  then show ?thesis using st inv few by (auto simp: feed_step_def feed_distance_def fs_inv_def Let_def)
next
  case (Feed_Push k t)
  let ?q = "fs_queue s"
  obtain q' where q': "push_step (rp_capacity P) t i ?q = Inr q'"
    "s' = s\<lparr>fs_queue := q', fs_feed := (if push_pc q' = Push_Idle \<and> push_publishing (push_pc ?q)
      then Feed_For (k + 1) else Feed_Push k t)\<rparr>"
    using st Feed_Push by (auto simp: feed_step_def Let_def res_bind_Inr_iff)
  have qi: "spsc_inv (rp_capacity P) ?q" using inv by (simp add: fs_inv_def Let_def)
  have ch: "push_choice i ?q" using ch Feed_Push by (simp add: feed_choice_def)
  note it = push_step_item [OF q'(1)] and left = push_step_left [OF q'(1)]
  show ?thesis
  proof (cases "push_pc ?q")
    case Push_Idle
    then have "push_pc q' \<noteq> Push_Idle" using it(1) by auto
    then show ?thesis using Push_Idle Feed_Push q'(2) left(3) by (simp add: feed_distance_def)
  next
    case (Push_Load_Head x h)
    have "i \<le> m" using ch qi Push_Load_Head fs_lengths(1) [OF inv] few(1)
      by (simp add: push_choice_def can_read_def inv_parts)
    with see [OF Push_Load_Head] have "length (pushed ?q) = i" using few(1) by simp
    then have "push_pc q' \<noteq> Push_Idle"
      using push_refuses_iff [OF cap qi Push_Load_Head ch q'(1)] cap2 by simp
    then show ?thesis using Push_Load_Head Feed_Push q'(2) left(4) by (simp add: feed_distance_def)
  next
    case (Push_Write x t' next')
    then have "push_pc q' \<noteq> Push_Idle"
      using q'(1) by (auto simp: push_step_def res_bind_Inr_iff split: if_splits)
    then show ?thesis using Push_Write Feed_Push q'(2) left(4) by (simp add: feed_distance_def)
  next
    case (Push_Publish x next')
    then show ?thesis using it(3) q'(2) few(1) by auto
  qed
next
  case Feed_Done
  then show ?thesis using inv few by (simp add: fs_inv_def Let_def)
qed

lemma fs_visible_head:
  "fs_visible \<sigma> lab \<Longrightarrow> m < length (hist (mem (fs_queue (\<sigma> k))) Head) \<Longrightarrow> \<exists>j. \<forall>l\<ge>j. \<forall>x t ts i.
    lab l = Feed_Moves ts i \<and> push_pc (fs_queue (\<sigma> l)) = Push_Load_Head x t \<longrightarrow> m \<le> i"
  by (simp add: fs_visible_def)

lemma feed_pushes:
  assumes ex: "fs_exec P \<sigma> lab" and fair: "fs_fair lab"
    and vis: "fs_visible \<sigma> lab" and m: "m \<le> length (got (fs_queue (\<sigma> k)))" "m < rp_count P"
  shows "\<exists>j\<ge>k. m < length (pushed (fs_queue (\<sigma> j)))"
proof -
  have mv: "fs_moves P (lab l) (\<sigma> l) (\<sigma> (Suc l))" for l using ex by (simp add: fs_exec_def)
  note inv = fs_exec_inv [OF ex]
  have "m < length (hist (mem (fs_queue (\<sigma> k))) Head)"
    using inv [of k] m(1) by (simp add: fs_inv_def inv_parts)
  from fs_visible_head [OF vis this] obtain j0 where j0: "\<And>l x t ts i. j0 \<le> l \<Longrightarrow> lab l = Feed_Moves ts i
      \<Longrightarrow> push_pc (fs_queue (\<sigma> l)) = Push_Load_Head x t \<Longrightarrow> m \<le> i"
    by blast
  have "\<exists>j\<ge>max k j0. m < length (pushed (fs_queue (\<sigma> j)))"
  proof (rule fair_progress [where mine = "\<lambda>l. feed_moves (lab l)" and d = "\<lambda>l. feed_distance (\<sigma> l)"])
    show "\<exists>j\<ge>l. feed_moves (lab j)" for l using fair by (simp add: fs_fair_def)
    show "feed_distance (\<sigma> (Suc l)) = feed_distance (\<sigma> l)" if "\<not> feed_moves (lab l)" for l
      using fs_moves_grows(5,6) [OF mv that] by (simp add: feed_distance_def split: feed_pc.split)
  next
    fix l assume l: "max k j0 \<le> l" "\<not> m < length (pushed (fs_queue (\<sigma> l)))" "feed_moves (lab l)"
    then obtain ts i where i: "lab l = Feed_Moves ts i" by (cases "lab l") auto
    have "m \<le> length (got (fs_queue (\<sigma> l)))" using fs_exec_grows(1) [OF ex, of k l] m(1) l(1) by simp
    then have all: "length (pushed (fs_queue (\<sigma> l))) = m"
      using fs_lengths(1) [OF inv, of l] l(2) by simp
    have st: "feed_step P ts i (\<sigma> l) = Inr (\<sigma> (Suc l))" "feed_choice i (\<sigma> l)"
      using mv [of l] i by simp_all
    have see: "m \<le> i" if "push_pc (fs_queue (\<sigma> l)) = Push_Load_Head x t" for x t
      using j0 [OF _ i that] l(1) by simp
    show "m < length (pushed (fs_queue (\<sigma> (Suc l)))) \<or> feed_distance (\<sigma> (Suc l)) < feed_distance (\<sigma> l)"
      by (rule feed_step_advances [OF inv st all m(2) see])
  qed
  then show ?thesis by auto
qed

lemma strat_step_advances:
  assumes inv: "fs_inv P s" and st: "strat_step P i s = Inr s'"
    and ch: "strat_choice P i s" and few: "length (got (fs_queue s)) < rp_count P"
    and see: "\<And>h. pop_pc (fs_queue s) = Pop_Load_Tail h \<Longrightarrow> length (got (fs_queue s)) < i"
  shows "length (got (fs_queue s)) < length (got (fs_queue s'))
    \<or> pop_distance (pop_pc (fs_queue s')) < pop_distance (pop_pc (fs_queue s))"
proof -
  let ?q = "fs_queue s"
  have q: "spsc_inv (rp_capacity P) ?q" and pops: "strat_pops P s"
    using inv few by (auto simp: fs_inv_def Let_def strat_pops_def)
  have ch: "pop_choice i ?q" using ch pops by (simp add: strat_choice_def)
  obtain q' where q': "pop_step (rp_capacity P) id i ?q = Inr q'" "fs_queue s' = q'"
    using st pops by (cases "pop_pc ?q") (auto simp: strat_step_def res_bind_Inr_iff)
  show ?thesis unfolding q'(2) by (rule pop_step_advances [OF cap q ch q'(1) see])
qed

lemma strat_gets:
  assumes ex: "fs_exec P \<sigma> lab" and fair: "fs_fair lab"
    and vis: "fs_visible \<sigma> lab" and m: "m < length (pushed (fs_queue (\<sigma> k)))" "m \<le> length (got (fs_queue (\<sigma> k)))"
  shows "\<exists>j. m < length (got (fs_queue (\<sigma> j)))"
proof -
  have mv: "fs_moves P (lab l) (\<sigma> l) (\<sigma> (Suc l))" for l using ex by (simp add: fs_exec_def)
  note inv = fs_exec_inv [OF ex]
  have mn: "m < rp_count P" using m(1) fs_lengths(2) [OF inv, of k] by simp
  have "Suc m < length (hist (mem (fs_queue (\<sigma> k))) Tail)"
    using inv [of k] m(1) by (simp add: fs_inv_def inv_parts)
  then obtain j0 where j0: "\<And>l h i. j0 \<le> l \<Longrightarrow> lab l = Strat_Moves i
      \<Longrightarrow> pop_pc (fs_queue (\<sigma> l)) = Pop_Load_Tail h \<Longrightarrow> Suc m \<le> i"
    using vis unfolding fs_visible_def by blast
  have "\<exists>j\<ge>max k j0. m < length (got (fs_queue (\<sigma> j)))"
  proof (rule fair_progress [where mine = "\<lambda>l. \<not> feed_moves (lab l)"
      and d = "\<lambda>l. pop_distance (pop_pc (fs_queue (\<sigma> l)))"])
    show "\<exists>j\<ge>l. \<not> feed_moves (lab j)" for l using fair by (simp add: fs_fair_def)
    show "pop_distance (pop_pc (fs_queue (\<sigma> (Suc l)))) = pop_distance (pop_pc (fs_queue (\<sigma> l)))"
      if "\<not> \<not> feed_moves (lab l)" for l
      using fs_moves_grows(4) [OF mv] that by simp
  next
    fix l assume l: "max k j0 \<le> l" "\<not> m < length (got (fs_queue (\<sigma> l)))" "\<not> feed_moves (lab l)"
    then obtain i where i: "lab l = Strat_Moves i" by (cases "lab l") auto
    have g: "length (got (fs_queue (\<sigma> l))) = m" using fs_exec_grows(1) [OF ex, of k l] m(2) l(1,2) by simp
    show "m < length (got (fs_queue (\<sigma> (Suc l))))
      \<or> pop_distance (pop_pc (fs_queue (\<sigma> (Suc l)))) < pop_distance (pop_pc (fs_queue (\<sigma> l)))"
      using strat_step_advances [OF inv [of l], of i "\<sigma> (Suc l)"] mv [of l] i j0 [OF _ i] l(1) mn g
      by (auto simp: Suc_le_eq)
  qed
  then show ?thesis by blast
qed

lemma all_got:
  assumes ex: "fs_exec P \<sigma> lab" and fair: "fs_fair lab"
    and vis: "fs_visible \<sigma> lab"
  shows "m \<le> rp_count P \<Longrightarrow> \<exists>j. m \<le> length (got (fs_queue (\<sigma> j)))"
proof (induction m)
  case (Suc m)
  then obtain k where k: "m \<le> length (got (fs_queue (\<sigma> k)))" by auto
  obtain j where j: "k \<le> j" "m < length (pushed (fs_queue (\<sigma> j)))"
    using feed_pushes [OF ex fair vis k] Suc.prems by auto
  have "m \<le> length (got (fs_queue (\<sigma> j)))" using fs_exec_grows(1) [OF ex j(1)] k by simp
  from strat_gets [OF ex fair vis j(2) this] show ?case by (auto simp: Suc_le_eq)
qed simp

text \<open>When everything has been taken, both threads come to their end.\<close>

lemma fs_ends:
  assumes ex: "fs_exec P \<sigma> lab" and fair: "fs_fair lab"
    and all: "rp_count P \<le> length (got (fs_queue (\<sigma> k)))"
  shows "\<exists>j\<ge>k. fs_feed (\<sigma> j) = Feed_Done \<and> fs_strat_done (\<sigma> j)"
proof -
  have mv: "fs_moves P (lab l) (\<sigma> l) (\<sigma> (Suc l))" for l using ex by (simp add: fs_exec_def)
  note inv = fs_exec_inv [OF ex]
  have n: "length (got (fs_queue (\<sigma> l))) = rp_count P \<and> length (pushed (fs_queue (\<sigma> l))) = rp_count P" if "k \<le> l" for l
    using fs_exec_grows(1) [OF ex that] all fs_lengths [OF inv, of l] by simp
  have "\<exists>j\<ge>k. fs_feed (\<sigma> j) = Feed_Done"
  proof (rule fair_progress [where mine = "\<lambda>l. feed_moves (lab l)" and d = "\<lambda>_. 0"])
    show "\<exists>j\<ge>l. feed_moves (lab j)" for l using fair by (simp add: fs_fair_def)
  next
    fix l assume l: "k \<le> l" "fs_feed (\<sigma> l) \<noteq> Feed_Done" "feed_moves (lab l)"
    then obtain ts i where i: "lab l = Feed_Moves ts i" by (cases "lab l") auto
    obtain k' where "fs_feed (\<sigma> l) = Feed_For k'" "\<not> k' < rp_count P"
      using inv [of l] n [OF l(1)] l(2) by (cases "fs_feed (\<sigma> l)") (auto simp: fs_inv_def Let_def)
    then have "\<sigma> (Suc l) = (\<sigma> l)\<lparr>fs_feed := Feed_Done\<rparr>" using mv [of l] i by (simp add: feed_step_def)
    then show "fs_feed (\<sigma> (Suc l)) = Feed_Done \<or> (0 :: nat) < 0" by simp
  qed simp
  moreover have "\<exists>j\<ge>k. fs_strat_done (\<sigma> j)"
  proof (rule fair_progress [where mine = "\<lambda>l. \<not> feed_moves (lab l)" and d = "\<lambda>_. 0"])
    show "\<exists>j\<ge>l. \<not> feed_moves (lab j)" for l using fair by (simp add: fs_fair_def)
  next
    fix l assume l: "k \<le> l" "\<not> feed_moves (lab l)"
    then obtain i where i: "lab l = Strat_Moves i" by (cases "lab l") auto
    have "\<not> strat_pops P (\<sigma> l)"
      using inv [of l] n [OF l(1)] by (auto simp: strat_pops_def fs_inv_def Let_def)
    then have "\<sigma> (Suc l) = (\<sigma> l)\<lparr>fs_strat_done := True\<rparr>" using mv [of l] i by (simp add: strat_step_def)
    then show "fs_strat_done (\<sigma> (Suc l)) \<or> (0 :: nat) < 0" by simp
  qed simp
  ultimately obtain j j' where "k \<le> j" "fs_feed (\<sigma> j) = Feed_Done" "k \<le> j'" "fs_strat_done (\<sigma> j')" by blast
  then show ?thesis
    using fs_exec_grows(2) [OF ex, of j "max j j'"] fs_exec_grows(3) [OF ex, of j' "max j j'"]
    by (intro exI [of _ "max j j'"]) simp
qed

text \<open>The execution in which they take turns.\<close>

lemma fs_turns_move:
  assumes inv: "fs_inv P (fs_turns P e0 k)"
  shows "fs_moves P (fs_turn_label P e0 k) (fs_turns P e0 k) (fs_turns P e0 (Suc k))"
proof -
  let ?s = "fs_turns P e0 k"
  have q: "spsc_inv (rp_capacity P) (fs_queue ?s)" using inv by (simp add: fs_inv_def Let_def)
  show ?thesis
  proof (cases "fs_turn_label P e0 k")
    case (Feed_Moves ts i)
    then have i: "i = (case push_pc (fs_queue ?s) of
        Push_Idle \<Rightarrow> newest (fs_queue ?s) Tail | Push_Load_Head _ _ \<Rightarrow> newest (fs_queue ?s) Head | _ \<Rightarrow> 0)"
      by (auto simp: fs_turn_label_def fs_label_def split: if_splits)
    have "push_choice i (fs_queue ?s)" unfolding i
      using newest_choice(1,2) [OF q] by (cases "push_pc (fs_queue ?s)") (simp_all add: push_choice_def)
    then have "feed_choice i ?s" by (simp add: feed_choice_def split: feed_pc.split)
    with feed_step_inv [OF inv this, of ts] Feed_Moves show ?thesis by (auto simp: fs_turn_label_def)
  next
    case (Strat_Moves i)
    then have i: "i = (case pop_pc (fs_queue ?s) of
        Pop_Idle \<Rightarrow> newest (fs_queue ?s) Head | Pop_Load_Tail _ \<Rightarrow> newest (fs_queue ?s) Tail | _ \<Rightarrow> 0)"
      by (auto simp: fs_turn_label_def fs_label_def split: if_splits)
    have "pop_choice i (fs_queue ?s)" unfolding i
      using newest_choice(3,4) [OF q] by (cases "pop_pc (fs_queue ?s)") (simp_all add: pop_choice_def)
    then have "strat_choice P i ?s" by (simp add: strat_choice_def)
    with strat_step_inv [OF inv this] Strat_Moves show ?thesis by (auto simp: fs_turn_label_def)
  qed
qed

lemma fs_turns_exec:
  shows "fs_exec P (fs_turns P e0) (fs_turn_label P e0)"
proof -
  have "fs_inv P (fs_turns P e0 k)" for k
  proof (induction k)
    case 0
    then show ?case by (simp add: fs_inv_init pow2_size_pos [OF cap])
  next
    case (Suc k)
    show ?case by (rule fs_moves_inv [OF Suc fs_turns_move [OF Suc]])
  qed
  then show ?thesis using fs_turns_move by (simp add: fs_exec_def del: fs_turns.simps(2))
qed

lemma fs_turns_fair: "fs_fair (fs_turn_label P e0)"
proof -
  have "feed_moves (fs_turn_label P e0 (2 * k))" "\<not> feed_moves (fs_turn_label P e0 (2 * k + 1))" for k
    by (simp_all add: fs_turn_label_def fs_label_def)
  then show ?thesis unfolding fs_fair_def by (metis le_add1 mult_2 trans_le_add1)
qed

lemma fs_turns_visible:
  shows "fs_visible (fs_turns P e0) (fs_turn_label P e0)"
proof -
  let ?s = "fs_turns P e0" and ?lab = "fs_turn_label P e0"
  note ex = fs_turns_exec [of e0]
  have q: "spsc_inv (rp_capacity P) (fs_queue (?s l))" for l
    using fs_exec_inv [OF ex, of l] by (simp add: fs_inv_def Let_def)
  have len: "length (hist (mem (fs_queue (?s l))) Tail) = Suc (length (pushed (fs_queue (?s l))))"
    "length (hist (mem (fs_queue (?s l))) Head) = Suc (length (got (fs_queue (?s l))))" for l
    using q [of l] by (simp_all add: inv_parts)
  have tail: "m \<le> i" if "m < length (hist (mem (fs_queue (?s k))) Tail)" "k \<le> l" "?lab l = Strat_Moves i"
    "pop_pc (fs_queue (?s l)) = Pop_Load_Tail h" for k l m i h
  proof -
    have "i = newest (fs_queue (?s l)) Tail"
      using that(3,4) by (auto simp: fs_turn_label_def fs_label_def split: if_splits)
    then show ?thesis using that(1) len(1) fs_exec_grows(4) [OF ex that(2)] by (simp add: newest_def)
  qed
  have head: "m \<le> i" if "m < length (hist (mem (fs_queue (?s k))) Head)" "k \<le> l" "?lab l = Feed_Moves ts i"
    "push_pc (fs_queue (?s l)) = Push_Load_Head x t" for k l m i ts x t
  proof -
    have "i = newest (fs_queue (?s l)) Head"
      using that(3,4) by (auto simp: fs_turn_label_def fs_label_def split: if_splits)
    then show ?thesis using that(1) len(2) fs_exec_grows(1) [OF ex that(2)] by (simp add: newest_def)
  qed
  show ?thesis unfolding fs_visible_def using tail head by blast
qed

text \<open>The result: both threads end, and all items went through the loop body of the strategy in order.\<close>

lemma relay_terminates:
  assumes ex: "fs_exec P \<sigma> lab" and fair: "fs_fair lab" and vis: "fs_visible \<sigma> lab"
  shows "\<exists>j. \<forall>k\<ge>j. fs_feed (\<sigma> k) = Feed_Done \<and> fs_strat_done (\<sigma> k)
    \<and> (\<exists>xs. fed P xs \<and> length xs = rp_count P \<and> absorb_all P (rp_start P) xs = Inr (fs_checksum (\<sigma> k)))"
proof -
  from all_got [OF ex fair vis order_refl] obtain k where "rp_count P \<le> length (got (fs_queue (\<sigma> k)))" by blast
  from fs_ends [OF ex fair this] obtain j where j: "fs_feed (\<sigma> j) = Feed_Done" "fs_strat_done (\<sigma> j)" by blast
  have "fs_feed (\<sigma> k) = Feed_Done \<and> fs_strat_done (\<sigma> k)
    \<and> (\<exists>xs. fed P xs \<and> length xs = rp_count P \<and> absorb_all P (rp_start P) xs = Inr (fs_checksum (\<sigma> k)))"
    if "j \<le> k" for k
  proof -
    have ended: "fs_feed (\<sigma> k) = Feed_Done" "fs_strat_done (\<sigma> k)"
      using fs_exec_grows(2,3) [OF ex that] j by simp_all
    note inv = fs_exec_inv [OF ex, of k]
    let ?q = "fs_queue (\<sigma> k)"
    have len: "length (got ?q) = rp_count P" "length (pushed ?q) = rp_count P"
      using inv ended fs_lengths [OF inv] by (simp_all add: fs_inv_def Let_def)
    have "prefix (got ?q) (pushed ?q)"
      using inv got_prefix_pushed by (auto simp: fs_inv_def Let_def)
    with len have "got ?q = pushed ?q" by (auto simp: prefix_def)
    moreover have "fed P (pushed ?q)" "absorb_all P (rp_start P) (got ?q) = Inr (fs_checksum (\<sigma> k))"
      using inv by (simp_all add: fs_inv_def Let_def)
    ultimately show ?thesis using ended len by metis
  qed
  then show ?thesis by blast
qed

end

end
