(* ===== verification/FeedStrat.thy ===== *)
theory FeedStrat
  imports Relay Binary64 Platform Decimal
begin

text \<open>
  \<open>examples/spsc\<close>: a feed thread pushes 50000 ticks through a \<open>SpscQueue<Tick, 4096>\<close> to a strategy
  thread, each spinning while the queue is full or empty; \<open>main\<close> joins them and prints a checksum.
  It is the two-thread program of \<open>Relay\<close> with these items and this loop body. The theorem is about the
  whole program: it ends, and what it prints is determined.
\<close>

section \<open>examples/spsc\<close>

text \<open>The tick of number \<open>i\<close>, stamped with the time \<open>ts\<close>.\<close>

type_synonym feed_tick = "u64 \<times> rat \<times> rat"

definition feed_item :: "nat \<Rightarrow> u64 \<Rightarrow> feed_tick" where
  "feed_item i ts = (ts, rd (100 + rd (of_nat (i mod 10) * rd (1 / 100))), 1)"

text \<open>\<open>static_cast<std::uint64_t>(x)\<close> drops the fraction; it is undefined for what does not fit.\<close>

definition trunc_to_u64 :: "rat \<Rightarrow> u64 res" where
  "trunc_to_u64 x = (if - 1 < x \<and> x < 2 ^ 64 then Inr (word_of_int (max 0 \<lfloor>x\<rfloor>)) else Inl Bad_Conversion)"

definition feed_count :: nat where
  "feed_count = 50000"

text \<open>The body of the strategy's loop, for a tick it got.\<close>

fun strat_checksum :: "u64 \<Rightarrow> feed_tick \<Rightarrow> u64 res" where
  "strat_checksum checksum (ts, px, qty) =
     res_bind (trunc_to_u64 (rd (px * 100))) (\<lambda>p.
     res_bind (trunc_to_u64 qty) (\<lambda>q. Inr (checksum + (p + q))))"

definition feed_program :: "(u64, feed_tick, u64) relay_program" where
  "feed_program = \<lparr>rp_capacity = 4096, rp_count = feed_count, rp_item = feed_item,
     rp_absorb = strat_checksum, rp_start = 0, rp_default = (0, 0, 0)\<rparr>"

text \<open>After both threads are joined, \<open>main\<close> prints and returns 0.\<close>

definition feed_strat_line :: "(feed_tick, u64) feed_strat \<Rightarrow> string" where
  "feed_strat_line s =
     ''spsc example ok  ticks='' @ show_nat feed_count @ '' checksum='' @ show_nat (unat (fs_checksum s))"

section \<open>The checksum\<close>

text \<open>The prices of the feed are not exact, but the cents come out right.\<close>

lemma feed_price_0: "rd (rd (100 + rd (0 * rd (1 / 100))) * 100) = 10000"
  by code_simp

lemma feed_price_1: "rd (rd (100 + rd (1 * rd (1 / 100))) * 100) = 10001"
  by code_simp

lemma feed_price_2: "rd (rd (100 + rd (2 * rd (1 / 100))) * 100) = 10002"
  by code_simp

lemma feed_price_3: "rd (rd (100 + rd (3 * rd (1 / 100))) * 100) = 10003"
  by code_simp

lemma feed_price_4: "rd (rd (100 + rd (4 * rd (1 / 100))) * 100) = 10004"
  by code_simp

lemma feed_price_5: "rd (rd (100 + rd (5 * rd (1 / 100))) * 100) = 10005"
  by code_simp

lemma feed_price_6: "rd (rd (100 + rd (6 * rd (1 / 100))) * 100) = 10006"
  by code_simp

lemma feed_price_7: "rd (rd (100 + rd (7 * rd (1 / 100))) * 100) = 10007"
  by code_simp

lemma feed_price_8: "rd (rd (100 + rd (8 * rd (1 / 100))) * 100) = 10008"
  by code_simp

lemma feed_price_9: "rd (rd (100 + rd (9 * rd (1 / 100))) * 100) = 10009"
  by code_simp

lemmas feed_rounding = feed_price_0 feed_price_1 feed_price_2 feed_price_3 feed_price_4
  feed_price_5 feed_price_6 feed_price_7 feed_price_8 feed_price_9

lemma feed_cents:
  assumes "d < 10"
  shows "rd (rd (100 + rd (of_nat d * rd (1 / 100))) * 100) = of_nat (10000 + d)"
proof -
  have "d = 0 \<or> d = 1 \<or> d = 2 \<or> d = 3 \<or> d = 4 \<or> d = 5 \<or> d = 6 \<or> d = 7 \<or> d = 8 \<or> d = 9"
    using assms by presburger
  then show ?thesis using feed_rounding by (elim disjE) simp_all
qed

lemma strat_checksum_feed:
  "absorb_all feed_program c (map (\<lambda>i. feed_item i (ts i)) is) = Inr (c + (\<Sum>i\<leftarrow>is. word_of_nat (10001 + i mod 10)))"
proof (induction "is" arbitrary: c)
  case (Cons i "is")
  have px: "rd (rd (100 + rd (of_nat (i mod 10) * rd (1 / 100))) * 100) = of_nat (10000 + i mod 10)"
    by (rule feed_cents) simp
  have "i mod 10 < 10" by simp
  then have "(of_nat (10000 + i mod 10) :: rat) < 2 ^ 64"
    using of_nat_less_iff [of "10000 + i mod 10" "2 ^ 64", where 'a = rat] by simp
  then have "trunc_to_u64 (of_nat (10000 + i mod 10)) = Inr (word_of_nat (10000 + i mod 10))"
    unfolding trunc_to_u64_def floor_of_nat by (simp del: of_nat_add)
  moreover have "trunc_to_u64 1 = Inr 1" by (simp add: trunc_to_u64_def)
  ultimately have "strat_checksum c (feed_item i (ts i)) = Inr (c + word_of_nat (10001 + i mod 10))"
    using px by (simp add: feed_item_def algebra_simps)
  then show ?case using Cons.IH by (simp add: feed_program_def algebra_simps)
qed simp

lemma sum_mod_10: "(\<Sum>i\<leftarrow>[0..<10 * k]. 10001 + i mod 10) = k * 100055"
proof (induction k)
  case (Suc k)
  have split: "[0..<10 * Suc k] = [0..<10 * k] @ map (\<lambda>d. 10 * k + d) [0..<10]"
    by (simp add: map_add_upt add.commute) (metis upt_add_eq_append le0 add.commute)
  have "(\<Sum>i\<leftarrow>map (\<lambda>d. 10 * k + d) [0..<10]. 10001 + i mod 10) = (\<Sum>d\<leftarrow>[0..<10]. 10001 + d mod 10)"
    unfolding map_map o_def mod_mult_self4 ..
  also have "\<dots> = 100055" by (simp add: upt_rec)
  finally show ?case using Suc unfolding split by simp
qed simp

lemma sum_of_nat: "(\<Sum>i\<leftarrow>is. word_of_nat (f i)) = (word_of_nat (\<Sum>i\<leftarrow>is. f i) :: u64)"
  by (induction "is") simp_all

lemma fed_feed: "fed feed_program xs \<longleftrightarrow> (\<exists>ts. xs = map (\<lambda>i. feed_item i (ts i)) [0..<length xs])"
  by (simp add: fed_def feed_program_def)

interpretation feed: relay feed_program
proof
  show "pow2_size (rp_capacity feed_program)"
    unfolding pow2_size_def by (intro exI [of _ 12]) (simp add: feed_program_def)
  show "2 \<le> rp_capacity feed_program" by (simp add: feed_program_def)
  show "\<exists>r. absorb_all feed_program (rp_start feed_program) xs = Inr r" if "fed feed_program xs" for xs
  proof -
    obtain ts where "xs = map (\<lambda>i. feed_item i (ts i)) [0..<length xs]" using \<open>fed feed_program xs\<close> by (auto simp: fed_feed)
    with strat_checksum_feed [of "rp_start feed_program" ts "[0..<length xs]"] show ?thesis by auto
  qed
qed

lemma fed_total:
  assumes "fed feed_program xs" and "length xs = feed_count"
  shows "absorb_all feed_program 0 xs = Inr 500275000"
proof -
  obtain ts where ts: "xs = map (\<lambda>i. feed_item i (ts i)) [0..<feed_count]"
    using assms by (auto simp: fed_feed)
  have "feed_count = 10 * 5000" by (simp add: feed_count_def)
  then have "(\<Sum>i\<leftarrow>[0..<feed_count]. 10001 + i mod 10) = 5000 * 100055"
    using sum_mod_10 [of 5000] by (simp only:)
  then show ?thesis unfolding ts strat_checksum_feed sum_of_nat by simp
qed

section \<open>The program\<close>

text \<open>
  C5: The feed and strategy example terminates and prints one possible line: in every infinite
  execution in which both threads keep running and stores become visible after finitely many
  steps, both threads come to their end, and what is printed is the checksum 500275000. No tick is
  lost, doubled or torn by the queue of 4096 slots, neither spin loop hangs, and although no price
  but the first is exact in binary64, no cent is lost in the conversion.
\<close>

theorem feed_strat_terminates:
  assumes ex: "fs_exec feed_program \<sigma> lab" and fair: "fs_fair lab" and vis: "fs_visible \<sigma> lab"
  shows "\<exists>j. \<forall>k\<ge>j. fs_feed (\<sigma> k) = Feed_Done \<and> fs_strat_done (\<sigma> k)
    \<and> feed_strat_line (\<sigma> k) = ''spsc example ok  ticks=50000 checksum=500275000''"
proof -
  have line: "feed_strat_line s = ''spsc example ok  ticks=50000 checksum=500275000''"
    if "\<exists>xs. fed feed_program xs \<and> length xs = rp_count feed_program
      \<and> absorb_all feed_program (rp_start feed_program) xs = Inr (fs_checksum s)" for s
  proof -
    have start: "rp_start feed_program = 0" "rp_count feed_program = feed_count" by (simp_all add: feed_program_def)
    then have "fs_checksum s = 500275000" using that fed_total by auto
    then have "unat (fs_checksum s) = 500275000" by simp
    then show ?thesis by (simp add: feed_strat_line_def feed_count_def show_nat_step digit_chars)
  qed
  from feed.relay_terminates [OF ex fair vis] show ?thesis using line by metis
qed

theorem feed_strat_terminates_witness:
  "\<exists>k. feed_strat_line (fs_turns feed_program 0 k) = ''spsc example ok  ticks=50000 checksum=500275000''"
  using feed_strat_terminates [OF feed.fs_turns_exec feed.fs_turns_fair feed.fs_turns_visible] by blast

end
