(* ===== verification/SmallPrograms.thy ===== *)
theory SmallPrograms
  imports ExamplePrograms FeedStrat SbeCodec KernelBypass
begin

text \<open>
  The remaining small programs: \<open>examples/struct_pack\<close>, \<open>hdr_c\<close>, \<open>tsc\<close> and \<open>industry_queues\<close>, the
  loops of \<open>benchmarks/bench_queues.cpp\<close> over other queues and \<open>tools/ide_index.cpp\<close>. Queues of
  other libraries, struct_pack and HdrHistogram_c are arguments.
\<close>

section \<open>examples/struct_pack\<close>

definition sp_example_tick :: sp_tick where
  "sp_example_tick =
     \<lparr>sp_instrument_id = 1001, sp_price_ticks = 1902500, sp_qty = 10, sp_seq = 1, sp_ts_ns = 99\<rparr>"

text \<open>The exit code and the line printed.\<close>

definition struct_pack_main ::
  "bool \<Rightarrow> (sp_tick \<Rightarrow> char list) \<Rightarrow> (char list \<Rightarrow> sp_tick option) \<Rightarrow> int \<times> string" where
  "struct_pack_main has pack unpack =
     (if \<not> sp_available has then
        (0, ''struct_pack: not enabled (STACK_WITH_STRUCT_PACK=OFF or fetch failed)'')
      else
        let buf = sp_serialize has pack sp_example_tick;
            (ok, out) = sp_deserialize has unpack buf sp_tick_default
        in if \<not> ok then (1, ''struct_pack: deserialize failed'')
           else (0, ''struct_pack ok bytes='' @ show_nat (length buf)
                  @ '' id='' @ show_nat (unat (sp_instrument_id out))
                  @ '' px='' @ show_int (sint (sp_price_ticks out))
                  @ '' qty='' @ show_nat (unat (sp_qty out)) @ '' seq='' @ show_nat (unat (sp_seq out))))"

section \<open>examples/hdr_c\<close>

text \<open>
  The durations go to both histograms. Printed are the 99th percentile and the maximum of the
  portable one and, with the library, percentile, maximum, mean and validity of the other; the
  calls of the library end with those of its destructor. The arguments of \<open>printf\<close> are evaluated
  from left to right here.
\<close>

definition hdr_c_durations :: "(int \<times> int) list \<Rightarrow> i64 list" where
  "hdr_c_durations readings = map (\<lambda>(t0, t1). steady_ns t1 - steady_ns t0) readings"

definition hdr_c_main ::
  "hdr_env \<Rightarrow> bool \<Rightarrow> (int \<times> int) list \<Rightarrow>
    ((u64 \<times> u64) \<times> (i64 \<times> i64 \<times> double \<times> bool) option \<times> hdr_call list) res" where
  "hdr_c_main env has readings =
     (let dts = hdr_c_durations readings;
          c = run_ops (hdr_op_call env) (map (\<lambda>dt. Record_Op (if sint dt < 0 then 0 else dt)) dts)
                (hdr_new env has 3600000000 3 [])
      in
      res_bind (record_all (histogram_new 64) dts) (\<lambda>portable.
      res_bind (value_at_percentile portable (Finite 99)) (\<lambda>p99.
        let line1 = (value_or_0 p99, hist_max portable);
            (cp99, c1) = hdr_value_at_percentile env (Finite 99) c;
            (cmax, c2) = hdr_max env c1;
            (cmean, c3) = hdr_mean env c2;
            line2 = (if has then Some (value_or_0 cp99, cmax, cmean, hdr_valid (fst c3)) else None);
            c = hdr_destroy (if has then c3 else c)
        in Inr (line1, line2, snd c))))"

section \<open>examples/tsc\<close>

fun work_loop :: "nat \<Rightarrow> nat \<Rightarrow> rat \<Rightarrow> rat" where
  "work_loop 0 i s = s"
| "work_loop (Suc k) i s = work_loop k (Suc i) (rd (s + rd (of_nat i * (1 / 2))))"

definition work :: "nat \<Rightarrow> rat" where
  "work n = work_loop n 0 0"

text \<open>The arguments are the readings of the counter and of the clock, before and after the work.\<close>

definition tsc_main :: "cpu_arch \<Rightarrow> u64 \<times> int \<Rightarrow> int \<Rightarrow> u64 \<times> int \<Rightarrow> int \<Rightarrow> u64 \<times> u64 \<times> rat" where
  "tsc_main arch r0 t0 r1 t1 =
     (let c0 = read_tsc arch (fst r0) (snd r0);
          n0 = steady_ns t0;
          sink = work 100000;
          c1 = read_tsc arch (fst r1) (snd r1);
          n1 = steady_ns t1
      in (c1 - c0, n1 - n0, sink))"

section \<open>Queues of other libraries\<close>

text \<open>
  A queue with its constructor, a push, and a pop that stores what it takes through its argument
  and leaves the argument alone when it takes nothing.
\<close>

record 'b other_queue =
  oq_new :: 'b
  oq_push :: "'b \<Rightarrow> int \<Rightarrow> bool \<times> 'b"
  oq_pop :: "'b \<Rightarrow> bool \<times> int \<times> 'b"

definition pop_into :: "'b other_queue \<Rightarrow> 'b \<Rightarrow> int \<Rightarrow> bool \<times> int \<times> 'b" where
  "pop_into Q q v = (let (ok, x, q) = oq_pop Q q in (ok, if ok then x else v, q))"

text \<open>\<open>BM_boost_spsc_push_pop\<close> and \<open>BM_moodycamel_push_pop\<close>.\<close>

fun bench_other :: "'b other_queue \<Rightarrow> nat \<Rightarrow> int \<Rightarrow> int \<Rightarrow> 'b \<Rightarrow> (int \<times> 'b) res" where
  "bench_other Q 0 sink v q = Inr (sink, q)"
| "bench_other Q (Suc n) sink v q =
     (let (_, q1) = oq_push Q q 1;
          (ok, v, q2) = pop_into Q q1 v
      in res_bind (if ok then add_int sink v else Inr sink) (\<lambda>sink. bench_other Q n sink v q2))"

definition bench_boost_push_pop :: "'b other_queue \<Rightarrow> nat \<Rightarrow> int res" where
  "bench_boost_push_pop Q iterations =
     res_bind (bench_other Q iterations 0 0 (oq_new Q)) (\<lambda>(sink, q). Inr sink)"

definition bench_moodycamel_push_pop :: "'b other_queue \<Rightarrow> nat \<Rightarrow> int res" where
  "bench_moodycamel_push_pop Q iterations =
     res_bind (bench_other Q iterations 0 0 (oq_new Q)) (\<lambda>(sink, q). Inr sink)"

text \<open>\<open>examples/industry_queues\<close>: the lines printed; \<open>has\<close> is \<open>LL_HAS_MOODYCAMEL\<close>.\<close>

definition queue_line :: "string \<Rightarrow> int \<Rightarrow> string" where
  "queue_line name v = name @ '' pop='' @ show_int v"

definition other_line :: "string \<Rightarrow> 'b other_queue \<Rightarrow> int \<Rightarrow> string" where
  "other_line name Q x =
     (let (_, q) = oq_push Q (oq_new Q) x; (_, v, q) = pop_into Q q 0 in queue_line name v)"

definition industry_queues_main :: "bool \<Rightarrow> 'b other_queue \<Rightarrow> 'm other_queue \<Rightarrow> string list res" where
  "industry_queues_main has boost moody =
     res_bind (try_push (spsc_new 64 0) (1 :: int)) (\<lambda>(_, q).
     res_bind (try_pop (\<lambda>x. x) q) (\<lambda>(v, q).
       Inr [queue_line ''ll::SpscQueue'' (case v of None \<Rightarrow> - 1 | Some x \<Rightarrow> x),
            other_line ''boost::lockfree::spsc_queue'' boost 2,
            if has then other_line ''moodycamel::ReaderWriterQueue'' moody 3
            else ''moodycamel: not built (LL_HAS_MOODYCAMEL=0)'']))"

section \<open>tools/ide_index.cpp\<close>

text \<open>
  \<open>touch_ll_types\<close> makes one object of each type and calls a member; the results are dropped, and
  members that only return a constant or a field are left out.
  \<open>addr\<close> is where the arena's storage lies, \<open>has\<close> is \<open>LL_HAS_SBE_CODEGEN\<close>.
\<close>

definition touch_ll_types :: "byte_order \<Rightarrow> bool \<Rightarrow> u64 \<Rightarrow> unit res" where
  "touch_ll_types bo has addr =
     res_bind (try_push (spsc_new 8 0) (1 :: int)) (\<lambda>_.
     res_bind (arena_allocate (arena_new addr 256) 16 16) (\<lambda>_.
     res_bind (hist_record (histogram_new 64) 1) (\<lambda>_.
     res_bind (if has then encode_tick bo (replicate 64 0) tick_values_default else Inr (0, [])) (\<lambda>_.
     Inr ()))))"

text \<open>\<open>line\<close> is what \<open>fmt::format\<close> returns.\<close>

definition ide_index_main :: "byte_order \<Rightarrow> bool \<Rightarrow> u64 \<Rightarrow> string \<Rightarrow> int res" where
  "ide_index_main bo has addr line =
     res_bind (touch_ll_types bo has addr) (\<lambda>_. Inr (if line = '''' then 1 else 0))"

section \<open>What they do\<close>

theorem struct_pack_example:
  assumes "\<And>t. unpack (pack t) = Some t"
  shows "struct_pack_main True pack unpack =
    (0, ''struct_pack ok bytes='' @ show_nat (length (pack sp_example_tick)) @ '' id=1001 px=1902500 qty=10 seq=1'')"
proof -
  have "show_nat 1001 = ''1001''" "show_int 1902500 = ''1902500''" "show_nat 10 = ''10''" "show_nat 1 = ''1''"
    by (simp_all add: show_nat_step show_int_def digit_chars)
  moreover have "sint (1902500 :: u32) = 1902500" by simp
  ultimately show ?thesis
    by (simp add: struct_pack_main_def sp_available_def sp_serialize_def sp_deserialize_def assms
        sp_example_tick_def)
qed

lemma run_ops_append: "run_ops call (xs @ ys) s = run_ops call ys (run_ops call xs s)"
  by (induction xs arbitrary: s) auto

text \<open>
  Whatever HdrHistogram_c answers and with or without it, the portable histogram gives a percentile
  of the durations and their maximum, and the library is used properly to the end.
\<close>

theorem hdr_c_example:
  assumes n: "readings \<noteq> []" "length readings \<le> 2 ^ 53"
  shows "\<exists>p99 line2 tr. hdr_c_main env has readings
      = Inr ((p99, Max (set (hdr_c_durations readings))), line2, tr)
    \<and> follow hdr_trans None tr = Some None \<and> (line2 = None \<longleftrightarrow> \<not> has)"
proof -
  let ?xs = "hdr_c_durations readings"
  have b: "(8 :: nat) \<le> 64" "(64 :: nat) \<le> 128" by simp_all
  obtain h where h: "record_all (histogram_new 64) ?xs = Inr h" "hist_inv 64 (rev ?xs) h"
    using record_all_new [OF b] by blast
  have xs: "rev ?xs \<noteq> []" "length (rev ?xs) \<le> 2 ^ 53" using n by (simp_all add: hdr_c_durations_def)
  from value_at_percentile_mono [OF b h(2) xs, of 99 99]
  obtain p99 where p99: "value_at_percentile h (Finite 99) = Inr (Some p99)" by auto
  have mx: "hist_max h = Max (set ?xs)"
    using h(2) xs(1) by (simp add: hist_inv_def hist_max_def foldr_max_bot)
  let ?rec = "map (\<lambda>dt. Record_Op (if sint dt < 0 then 0 else dt)) ?xs"
  let ?c = "run_ops (hdr_op_call env) ?rec (hdr_new env has 3600000000 3 [])"
  let ?c3 = "run_ops (hdr_op_call env) (?rec @ [Percentile_Op (Finite 99), Max_Op, Mean_Op])
      (hdr_new env has 3600000000 3 [])"
  obtain c tr where new: "hdr_new env has 3600000000 3 [] = (c, tr)" by fastforce
  have ends: "follow hdr_trans None (snd (hdr_destroy (run_ops (hdr_op_call env) ops
      (hdr_new env has 3600000000 3 [])))) = Some None" for ops
    unfolding new by (rule hdr.life_obeys [OF refl hdr_new_obeys [OF new]])
  have "?c3 = snd (hdr_mean env (snd (hdr_max env (snd (hdr_value_at_percentile env (Finite 99) ?c)))))"
    unfolding run_ops_append by simp
  then have "\<exists>line2. hdr_c_main env has readings = Inr ((p99, Max (set ?xs)), line2,
      snd (hdr_destroy (if has then ?c3 else ?c))) \<and> (line2 = None \<longleftrightarrow> \<not> has)"
    using h(1) p99 mx
    by (cases has) (simp_all add: hdr_c_main_def Let_def case_prod_beta value_or_0_def)
  moreover have "follow hdr_trans None (snd (hdr_destroy (if has then ?c3 else ?c))) = Some None"
    using ends by (cases has) simp_all
  ultimately show ?thesis by blast
qed

lemma work_loop_sum:
  assumes "0 \<le> m" and "m + int k * (int i + int k) \<le> 2 ^ 53"
  shows "work_loop k i (of_int m * p2 (- 1)) = of_int (m + (\<Sum>j\<in>{i..<i + k}. int j)) * p2 (- 1)"
  using assms
proof (induction k arbitrary: i m)
  case (Suc k)
  have half: "p2 (- 1) = 1 / 2" by (simp add: p2_def)
  have bound: "m + int i + int k * (int (Suc i) + int k) \<le> 2 ^ 53"
    using Suc.prems by (simp add: algebra_simps)
  then have "m + int i \<le> 2 ^ 53" by (smt (verit) of_nat_0_le_iff mult_nonneg_nonneg)
  then have "rd (of_int m * p2 (- 1) + rd (of_nat i * (1 / 2))) = of_int (m + int i) * p2 (- 1)"
  proof -
    have "rd (of_nat i * (1 / 2)) = of_nat i * (1 / 2)"
      using rd_exact [of "int i" "- 1"] Suc.prems(1) \<open>m + int i \<le> 2 ^ 53\<close> by (simp add: half)
    moreover have "rd (of_int m * (1 / 2) + of_nat i * (1 / 2)) = of_int (m + int i) * (1 / 2)"
      using rd_exact [of "m + int i" "- 1"] Suc.prems(1) \<open>m + int i \<le> 2 ^ 53\<close>
      by (simp add: half add_divide_distrib)
    ultimately show ?thesis unfolding half by (simp only:)
  qed
  then have "work_loop (Suc k) i (of_int m * p2 (- 1)) = work_loop k (Suc i) (of_int (m + int i) * p2 (- 1))"
    by simp
  also have "\<dots> = of_int (m + int i + (\<Sum>j\<in>{Suc i..<Suc i + k}. int j)) * p2 (- 1)"
    using Suc.prems(1) bound by (intro Suc.IH) simp_all
  also have "m + int i + (\<Sum>j\<in>{Suc i..<Suc i + k}. int j) = m + (\<Sum>j\<in>{i..<i + Suc k}. int j)"
    by (simp add: sum.atLeast_Suc_lessThan)
  finally show ?case .
qed simp

text \<open>The sum of the work is exact, and the elapsed time is the difference of the clock's readings.\<close>

theorem tsc_example:
  assumes "t0 \<le> t1" and "t1 - t0 < 2 ^ 64"
  shows "\<exists>c ns. tsc_main arch r0 t0 r1 t1 = (c, ns, 2499975000) \<and> uint ns = t1 - t0"
proof -
  have "(\<Sum>j\<in>{0..<100000}. int j) = int (\<Sum>{0..<100000})" by (simp only: of_nat_sum)
  also have "\<dots> = 4999950000" by (simp add: Sum_Ico_nat)
  finally have "work 100000 = of_int 4999950000 * p2 (- 1)"
    using work_loop_sum [of 0 100000 0] by (simp add: work_def)
  then have "work 100000 = 2499975000" by (simp add: p2_def)
  then show ?thesis using steady_ns_difference [OF assms] by (simp add: tsc_main_def Let_def)
qed

text \<open>
  A queue of another library that gives back what was pushed when it was drained: the loop counts
  its iterations, and the example prints what was pushed.
\<close>

definition gives_back :: "'b other_queue \<Rightarrow> ('b \<Rightarrow> bool) \<Rightarrow> bool" where
  "gives_back Q drained \<longleftrightarrow> drained (oq_new Q)
     \<and> (\<forall>q x. drained q \<longrightarrow> (\<exists>q1 q2. oq_push Q q x = (True, q1) \<and> oq_pop Q q1 = (True, x, q2) \<and> drained q2))"

lemma bench_other_counts:
  "gives_back Q drained \<Longrightarrow> drained q \<Longrightarrow> 0 \<le> sink \<Longrightarrow> sink + int n < 2 ^ 31 \<Longrightarrow>
    \<exists>q'. bench_other Q n sink v q = Inr (sink + int n, q') \<and> drained q'"
proof (induction n arbitrary: sink v q)
  case (Suc n)
  obtain q1 q2 where q: "oq_push Q q 1 = (True, q1)" "oq_pop Q q1 = (True, 1, q2)" "drained q2"
    using Suc.prems unfolding gives_back_def by blast
  obtain q' where "bench_other Q n (sink + 1) 1 q2 = Inr (sink + 1 + int n, q')" "drained q'"
    using Suc.IH [of q2 "sink + 1" 1] Suc.prems q(3) by auto
  moreover have "add_int sink 1 = Inr (sink + 1)" using Suc.prems by (simp add: add_int_def)
  ultimately show ?case using q by (simp add: pop_into_def)
qed simp

lemma bench_others_count:
  assumes "gives_back Q drained" and "int n < 2 ^ 31"
  shows "bench_boost_push_pop Q n = Inr (int n)" and "bench_moodycamel_push_pop Q n = Inr (int n)"
  using bench_other_counts [OF assms(1), of "oq_new Q" 0 n 0] assms
  by (auto simp: bench_boost_push_pop_def bench_moodycamel_push_pop_def gives_back_def)

lemma other_line_pushed: "gives_back Q drained \<Longrightarrow> other_line name Q x = queue_line name x"
  unfolding gives_back_def other_line_def pop_into_def Let_def
  by (elim conjE allE [of _ "oq_new Q"] allE [of _ x] impE) auto

lemma new_push_pop:
  assumes "1 \<le> k" and "k < 64"
  shows "\<exists>q1 q2. try_push (spsc_new (2 ^ k) d) x = Inr (True, q1) \<and> try_pop moved q1 = Inr (Some x, q2)"
proof -
  have c: "2 \<le> (2 :: nat) ^ k" "pow2_size (2 ^ k)"
    using assms self_le_power [of 2 k] by (auto simp: pow2_size_def)
  show ?thesis
    using spsc.push_then_pop [OF spsc_new_inv(1) [OF c], of d x moved] spsc_new_inv(2,3) [OF c, of d] c(1)
    by auto
qed

theorem industry_queues_example:
  assumes "gives_back boost db" and "gives_back moody dm"
  shows "industry_queues_main True boost moody
    = Inr [''ll::SpscQueue pop=1'', ''boost::lockfree::spsc_queue pop=2'', ''moodycamel::ReaderWriterQueue pop=3'']"
proof -
  have "show_int 1 = ''1''" "show_int 2 = ''2''" "show_int 3 = ''3''" by code_simp+
  moreover have "res_bind (try_push (spsc_new 64 0) (1 :: int)) (\<lambda>(_, q).
      res_bind (try_pop (\<lambda>x. x) q) (\<lambda>(v, q). Inr (f v))) = Inr (f (Some 1))" for f :: "int option \<Rightarrow> string list"
    using new_push_pop [of 6 "0 :: int" 1 "\<lambda>x. x"] by auto
  ultimately show ?thesis using assms
    by (simp add: industry_queues_main_def other_line_pushed queue_line_def)
qed

text \<open>The index program runs to its end without undefined behaviour or an exception.\<close>

theorem ide_index_runs:
  assumes addr: "unat addr + 1024 \<le> 2 ^ 64" and line: "line \<noteq> ''''"
  shows "ide_index_main bo has addr line = Inr 0"
proof -
  have "\<exists>r. try_push (spsc_new 8 0) (1 :: int) = Inr r"
    using new_push_pop [of 3 0 "1 :: int" "\<lambda>x. x"] by auto
  moreover have "\<exists>r. arena_allocate (arena_new addr 256) 16 16 = Inr r"
  proof -
    let ?a = "arena_new addr 256"
    have room: "unat addr < 18446744073709551360" using addr by simp
    have inv: "arena_inv ?a" and top: "arena_top ?a = unat addr" "arena_limit ?a = unat addr + 256"
      by (use room in \<open>simp_all add: arena_new_def arena_inv_def arena_top_def arena_limit_def\<close>)
    have "pow2_size 16" unfolding pow2_size_def by (intro exI [of _ 4]) simp
    then have req: "sane_request ?a 16 16" using addr by (simp add: sane_request_def arena_new_def)
    show ?thesis using arena_allocate_nat [OF inv req, unfolded top] by simp
  qed
  moreover obtain h where "record_all (histogram_new 64) [1] = Inr h"
    using record_all_new [of 64 "[1]"] by auto
  then have "\<exists>r. hist_record (histogram_new 64) 1 = Inr r" by (auto simp: res_bind_Inr_iff)
  moreover have "\<exists>r. encode_tick bo (replicate 64 0) tick_values_default = Inr r"
    by (subst encode_tick_eq) simp_all
  ultimately show ?thesis using line by (auto simp: ide_index_main_def touch_ll_types_def)
qed

end
