(* ===== verification/StressTest.thy ===== *)
theory StressTest
  imports Relay
begin

text \<open>
  The stress test of the queue in \<open>tests/test_ll_modules.cpp\<close>: 100000 integers through a
  \<open>SpscQueue<int, 1024>\<close>, added up by the consumer. It is the two-thread program of \<open>Relay\<close> with
  another workload, so it ends with the sum it requires in every fair execution.
\<close>

definition stress_count :: nat where
  "stress_count = 100000"

text \<open>\<open>for (int i = 1; i <= N; ++i)\<close>; the number of an item counts from 0.\<close>

definition stress_item :: "nat \<Rightarrow> unit \<Rightarrow> int" where
  "stress_item k e = int k + 1"

text \<open>\<open>sum += *v\<close> on \<open>std::int64_t\<close>.\<close>

definition stress_add :: "int \<Rightarrow> int \<Rightarrow> int res" where
  "stress_add acc v = (if - (2 ^ 63) \<le> acc + v \<and> acc + v < 2 ^ 63 then Inr (acc + v) else Inl Signed_Overflow)"

definition stress_program :: "(unit, int, int) relay_program" where
  "stress_program = \<lparr>rp_capacity = 1024, rp_count = stress_count, rp_item = stress_item,
     rp_absorb = stress_add, rp_start = 0, rp_default = 0\<rparr>"

definition stress_requires :: "(int, int) feed_strat \<Rightarrow> bool" where
  "stress_requires s \<longleftrightarrow> fs_checksum s = int stress_count * (int stress_count + 1) div 2"

lemma stress_sum: "(\<Sum>i\<leftarrow>[0..<k]. int i + 1) = int k * (int k + 1) div 2"
proof (induction k)
  case (Suc k)
  have "int (Suc k) * (int (Suc k) + 1) = int k * (int k + 1) + (int k + 1) * 2" by (simp add: algebra_simps)
  then have "int (Suc k) * (int (Suc k) + 1) div 2 = int k * (int k + 1) div 2 + (int k + 1)" by simp
  with Suc show ?case by simp
qed simp

lemma absorb_stress:
  assumes "k \<le> stress_count"
  shows "absorb_all stress_program 0 (map (\<lambda>i. stress_item i (ts i)) [0..<k]) = Inr (int k * (int k + 1) div 2)"
  using assms
proof (induction k)
  case (Suc k)
  have k: "int k \<le> 100000" using Suc.prems by (simp add: stress_count_def)
  have s: "int k * (int k + 1) div 2 + (int k + 1) = int (Suc k) * (int (Suc k) + 1) div 2"
    using stress_sum [of "Suc k"] stress_sum [of k] by simp
  have "int k * (int k + 1) \<le> 100000 * 100001" using k by (intro mult_mono) simp_all
  then have b: "0 \<le> int k * (int k + 1) div 2" "int k * (int k + 1) div 2 \<le> 5000050000" by (auto intro: pos_imp_zdiv_nonneg_iff [THEN iffD2])
  then have "stress_add (int k * (int k + 1) div 2) (int k + 1) = Inr (int (Suc k) * (int (Suc k) + 1) div 2)"
    using k unfolding stress_add_def s [symmetric] by simp
  moreover have "map (\<lambda>i. stress_item i (ts i)) [0..<Suc k] = map (\<lambda>i. stress_item i (ts i)) [0..<k] @ [int k + 1]"
    by (simp add: stress_item_def)
  moreover have "absorb_all stress_program r [x] = stress_add r x" for r x
    by (simp add: stress_program_def res_bind_def split: sum.split)
  ultimately show ?case using Suc by (simp add: absorb_all_append)
qed (simp add: stress_item_def)

lemma fed_stress: "fed stress_program xs \<longleftrightarrow> (\<exists>ts. xs = map (\<lambda>i. stress_item i (ts i)) [0..<length xs])"
  by (simp add: fed_def stress_program_def)

lemma fed_absorb_stress:
  assumes "fed stress_program xs" and "length xs \<le> stress_count"
  shows "absorb_all stress_program 0 xs = Inr (int (length xs) * (int (length xs) + 1) div 2)"
proof -
  obtain ts where "xs = map (\<lambda>i. stress_item i (ts i)) [0..<length xs]" using assms(1) by (auto simp: fed_stress)
  with absorb_stress [OF assms(2), of ts] show ?thesis by simp
qed

lemma stress_program_simps [simp]:
  "rp_start stress_program = 0" "rp_count stress_program = stress_count" "rp_capacity stress_program = 1024"
  by (simp_all add: stress_program_def)

interpretation stress: relay stress_program
proof
  show "pow2_size (rp_capacity stress_program)"
    unfolding pow2_size_def by (intro exI [of _ 10]) simp
  show "\<exists>r. absorb_all stress_program (rp_start stress_program) xs = Inr r"
    if "fed stress_program xs" "length xs \<le> rp_count stress_program" for xs
    using fed_absorb_stress [OF that(1)] that(2) by simp
qed simp

text \<open>
  The stress test of the queue passes: in every infinite execution in which both threads keep
  running and stores become visible after finitely many steps, both threads come to their end and
  the sum is the one required, without a signed overflow on the way.
\<close>

theorem stress_test_passes:
  assumes "fs_exec stress_program \<sigma> lab" and "fs_fair lab" and "fs_visible \<sigma> lab"
  shows "\<exists>j. \<forall>k\<ge>j. fs_feed (\<sigma> k) = Feed_Done \<and> fs_strat_done (\<sigma> k) \<and> stress_requires (\<sigma> k)"
proof -
  have "stress_requires s" if "\<exists>xs. fed stress_program xs \<and> length xs = rp_count stress_program
      \<and> absorb_all stress_program (rp_start stress_program) xs = Inr (fs_checksum s)" for s
    using that fed_absorb_stress by (auto simp: stress_requires_def)
  with stress.relay_terminates [OF assms] show ?thesis by metis
qed

theorem stress_test_passes_witness:
  "\<exists>k. stress_requires (fs_turns stress_program () k)"
  using stress_test_passes [OF stress.fs_turns_exec stress.fs_turns_fair stress.fs_turns_visible] by blast

end
