(* ===== verification/StaticInterface.thy ===== *)
theory StaticInterface
  imports Prelude
begin

text \<open>
  The CRTP base \<open>ll::StaticInterface<Derived>\<close> of \<open>include/ll/branch.hpp\<close>: \<open>self()\<close> casts the base
  subobject it is called on to the class it is the base of. The objects are a store: the complete
  object at each address, with the class it was created as. A class is laid out with its
  \<open>StaticInterface\<close> bases, each the class named as its argument and the offset of the subobject.
\<close>

section \<open>Objects and the cast\<close>

type_synonym crtp_layout = "string \<Rightarrow> (string \<times> nat) list"

type_synonym 'v crtp_objects = "nat \<rightharpoonup> string \<times> 'v"

text \<open>
  The base \<open>StaticInterface<X>\<close> of an object of class \<open>c\<close> at \<open>a\<close>, to which a member call converts
  the object: its address, when the class has that base.
\<close>

definition crtp_base :: "crtp_layout \<Rightarrow> string \<Rightarrow> string \<Rightarrow> nat \<Rightarrow> nat option" where
  "crtp_base lay c X a = map_option (\<lambda>k. a + k) (map_of (lay c) X)"

text \<open>
  \<open>static_cast<X&>(*this)\<close> on a \<open>StaticInterface<X>\<close> at \<open>b\<close> goes back by the offset the base has in
  \<open>X\<close>. It compiles when \<open>X\<close> has the base; the behaviour is undefined when the subobject is not
  part of an \<open>X\<close>, which is the outcome \<open>Out_Of_Bounds\<close> here. Both \<open>self()\<close>, the other on a constant
  object, are this cast.
\<close>

definition self :: "crtp_layout \<Rightarrow> 'v crtp_objects \<Rightarrow> string \<Rightarrow> nat \<Rightarrow> nat res option" where
  "self lay objs X b =
     (case map_of (lay X) X of
        None \<Rightarrow> None
      | Some k \<Rightarrow> Some (if k \<le> b \<and> map_option fst (objs (b - k)) = Some X then Inr (b - k)
                       else Inl Out_Of_Bounds))"

definition self_const :: "crtp_layout \<Rightarrow> 'v crtp_objects \<Rightarrow> string \<Rightarrow> nat \<Rightarrow> nat res option" where
  "self_const lay objs X b =
     (case map_of (lay X) X of
        None \<Rightarrow> None
      | Some k \<Rightarrow> Some (if k \<le> b \<and> map_option fst (objs (b - k)) = Some X then Inr (b - k)
                       else Inl Out_Of_Bounds))"

text \<open>
  A call \<open>x.self().f()\<close> of a member function \<open>f\<close> of \<open>X\<close>, which may change the object; the class of \<open>X\<close>
  is known when the program is compiled, so \<open>f\<close> is, too.
\<close>

definition self_call :: "crtp_layout \<Rightarrow> string \<Rightarrow> ('v \<Rightarrow> 'r \<times> 'v) \<Rightarrow> nat \<Rightarrow> 'v crtp_objects
    \<Rightarrow> ('r \<times> 'v crtp_objects) res option" where
  "self_call lay X f b objs =
     map_option (\<lambda>r. res_bind r (\<lambda>a. case objs a of
        None \<Rightarrow> Inl Out_Of_Bounds
      | Some (c, v) \<Rightarrow> Inr (fst (f v), objs(a \<mapsto> (c, snd (f v)))))) (self lay objs X b)"

text \<open>The call without the interface, on the object itself.\<close>

definition direct_call :: "('v \<Rightarrow> 'r \<times> 'v) \<Rightarrow> nat \<Rightarrow> 'v crtp_objects \<Rightarrow> ('r \<times> 'v crtp_objects) res" where
  "direct_call f a objs =
     (case objs a of
        None \<Rightarrow> Inl Out_Of_Bounds
      | Some (c, v) \<Rightarrow> Inr (fst (f v), objs(a \<mapsto> (c, snd (f v)))))"

section \<open>The cast and the call\<close>

lemma self_const_eq: "self_const lay objs X b = self lay objs X b"
  by (simp add: self_const_def self_def)

text \<open>
  \<open>self()\<close> gives back exactly the object whose base it is called on: it is defined on the base of
  every object of the class, and only there.
\<close>

theorem self_exact:
  assumes "map_of (lay X) X \<noteq> None"
  shows "self lay objs X b = Some (Inr a) \<longleftrightarrow>
    (\<exists>v. objs a = Some (X, v)) \<and> crtp_base lay X X a = Some b"
  using assms by (auto simp: self_def crtp_base_def split: if_splits)

lemma self_exact_witness:
  "self (\<lambda>c. [(c, 8)]) [16 \<mapsto> (''Feed'', 5 :: int)] ''Feed'' 24 = Some (Inr 16)"
  using self_exact [of "\<lambda>c. [(c, 8)]" "''Feed''" "[16 \<mapsto> (''Feed'', 5 :: int)]" 24 16]
  by (simp add: crtp_base_def)

text \<open>
  Calling a member through the interface is calling it on the object: the same result, and the same
  objects afterwards.
\<close>

theorem self_call_direct:
  assumes "objs a = Some (X, v)" and "crtp_base lay X X a = Some b"
  shows "self_call lay X f b objs = Some (direct_call f a objs)"
proof -
  have "map_of (lay X) X \<noteq> None" using assms(2) by (auto simp: crtp_base_def)
  with assms have "self lay objs X b = Some (Inr a)" by (auto simp: self_def crtp_base_def)
  with assms(1) show ?thesis by (simp add: self_call_def direct_call_def)
qed

lemma self_call_direct_witness:
  "self_call (\<lambda>c. [(c, 0)]) ''Impl'' (\<lambda>n. (n + 1, n + 1)) 16 [16 \<mapsto> (''Impl'', 10 :: int)]
    = Some (Inr (11, [16 \<mapsto> (''Impl'', 11)]))"
  using self_call_direct [of "[16 \<mapsto> (''Impl'', 10 :: int)]" 16 "''Impl''" 10 "\<lambda>c. [(c, 0)]" 16 "\<lambda>n. (n + 1, n + 1)"]
  by (simp add: crtp_base_def direct_call_def)

text \<open>
  The mistake CRTP allows: a class that names another one, \<open>struct B : StaticInterface<A>\<close>. The program
  compiles, and the cast is undefined unless an \<open>A\<close> happens to be at that place.
\<close>

lemma self_wrong_class:
  assumes "map_of (lay A) A = Some k" and "crtp_base lay B A b = Some p"
    and "k \<le> p \<Longrightarrow> map_option fst (objs (p - k)) \<noteq> Some A"
  shows "self lay objs A p = Some (Inl Out_Of_Bounds)"
  using assms by (auto simp: self_def)

end
