(* ===== verification/RepoTests.thy ===== *)
theory RepoTests
  imports SpscQueue Examples ObjectPool LatencyBuffer HdrHistogram Platform CacheLine
    PmrArena StaticInterface
    "HOL-Library.Sublist"
begin

text \<open>
  Tests of the repository that run in one thread, evaluated on the models: \<open>tests/test_ll_modules.cpp\<close>
  and \<open>tests/test_roadmap_stack.cpp\<close>, and from \<open>tests/test_industry_stack.cpp\<close> those of the library's own
  components. A test is the list of its \<open>REQUIRE\<close>s; it passes when none of them is false and nothing
  throws; \<open>find(s) != npos\<close> is \<open>sublist s\<close>. The stress test with two threads
  is in \<open>StressTest\<close>, the tests of the wrapped libraries in \<open>LibraryTests\<close>.
\<close>

definition test_passes :: "bool list res \<Rightarrow> bool" where
  "test_passes t \<longleftrightarrow> (case t of Inl e \<Rightarrow> False | Inr bs \<Rightarrow> list_all (\<lambda>b. b) bs)"

lemma test_passes_simps [simp]: "test_passes (Inr bs) = list_all (\<lambda>b. b) bs" "\<not> test_passes (Inl e)"
  by (simp_all add: test_passes_def)

section \<open>Queue, pool, sample buffer, affinity\<close>

definition test_queue :: "bool list res" where
  "test_queue =
     (let q = spsc_new 8 (0 :: int); e = q_empty q in
      res_bind (try_push_move id q 1) (\<lambda>(r1, _, q).
      res_bind (try_push_move id q 2) (\<lambda>(r2, _, q).
      res_bind (try_pop id q) (\<lambda>(a, q).
      res_bind (try_pop id q) (\<lambda>(b, q).
      res_bind (try_pop id q) (\<lambda>(c, q).
        Inr [e, r1, r2, a = Some 1, b = Some 2, c = None]))))))"

definition test_queue_again :: "bool list res" where
  "test_queue_again =
     res_bind (try_push_move id (spsc_new 8 (0 :: int)) 3) (\<lambda>(r, _, q).
     res_bind (try_pop id q) (\<lambda>(v, q). Inr [r, v = Some 3]))"

definition test_pool :: "bool list res" where
  "test_pool =
     (let p = pool_new 4; a0 = available p in
      res_bind (acquire p) (\<lambda>(r, p).
      let a1 = available p in
      res_bind (release p r) (\<lambda>p. Inr [a0 = 4, r \<noteq> None, a1 = 3, available p = 4])))"

text \<open>The readings of the two clocks, before and after the loop.\<close>

definition test_clocks :: "cpu_arch \<Rightarrow> u64 \<times> int \<Rightarrow> u64 \<times> int \<Rightarrow> bool list res" where
  "test_clocks arch before after =
     (let t0 = read_tsc arch (fst before) (snd before); n0 = steady_ns (snd before);
          t1 = read_tsc arch (fst after) (snd after); n1 = steady_ns (snd after) in
      res_bind (lb_try_push (lb_new 16) 10) (\<lambda>(r, buf). Inr [t1 \<ge> t0, n1 \<ge> n0, r, lb_size buf = 1]))"

definition test_affinity :: "os \<Rightarrow> bool list res" where
  "test_affinity os = Inr [0 < length (affinity_backend os)]"

section \<open>Messages\<close>

definition test_tick :: tick_values where
  "test_tick = \<lparr>tv_instrument_id = 42, tv_price_ticks = 1902500, tv_qty = 10, tv_seq = 99,
     tv_ts_ns = 1700000000000000000\<rparr>"

definition test_sbe_roundtrip :: "byte_order \<Rightarrow> bool list res" where
  "test_sbe_roundtrip bo =
     res_bind (encode_tick bo (replicate 64 0) test_tick) (\<lambda>(n, buf).
     res_bind (decode_tick bo (take (unat n) buf) tick_values_default) (\<lambda>(r, out).
       Inr [kTickWireBytes = 8 + 24, n = kTickWireBytes, r, tv_instrument_id out = 42,
            tv_price_ticks out = 1902500, tv_qty out = 10, tv_seq out = 99,
            tv_ts_ns out = 1700000000000000000]))"

definition test_sbe_wrong_schema :: "byte_order \<Rightarrow> bool list res" where
  "test_sbe_wrong_schema bo =
     (let tick_in = \<lparr>tv_instrument_id = 1, tv_price_ticks = 1, tv_qty = 1, tv_seq = 1, tv_ts_ns = 1\<rparr> in
      res_bind (encode_tick bo (replicate 64 0) tick_in) (\<lambda>(n, buf).
      res_bind (decode_tick bo (buf[4 := 0, 5 := 0]) tick_values_default) (\<lambda>(r, out).
        Inr [n > 0, \<not> r])))"

definition test_style :: "byte_order \<Rightarrow> tick_msg \<Rightarrow> bool list res" where
  "test_style bo zero =
     (let pod = \<lparr>tm_instrument_id = 7, tm_price_ticks = 1, tm_qty = 2, tm_seq = 3\<rparr> in
      res_bind (style_encode bo (replicate 16 0) pod) (\<lambda>(r, wire).
      res_bind (decode_copy bo wire zero) (\<lambda>(r2, out). Inr [r, r2, tm_seq out = 3])))"

definition test_bypass :: "build_config \<Rightarrow> bool list res" where
  "test_bypass c =
     (let b = stub_backend = Backend_Stub; (o1, rx) = stub_open stub_new 0 0;
          bytes = map (word_of_nat \<circ> of_char) ''TICK'' in
      res_bind (inject_for_test rx bytes) (\<lambda>rx.
      let (n, views, rx) = stub_poll rx (replicate 4 packet_view_default) in
      res_bind (view_bytes (rx_slot rx) (views ! 0)) (\<lambda>bs.
      let (n2, _, rx) = stub_poll rx views in
        Inr [\<not> dpdk_built c, \<not> onload_built c, sublist ''stub'' (backend_status c), b, o1, n = 1,
             pv_length (views ! 0) = 4, hd bs = word_of_nat (of_char CHR ''T''), n2 = 0])))"

definition test_capabilities :: "build_config \<Rightarrow> bool list res" where
  "test_capabilities c =
     (let (o1, rx) = stub_open make_default_rx 0 0 in
      res_bind (inject_for_test rx [1, 2, 3, 4]) (\<lambda>rx.
      let (n, views, rx) = stub_poll rx (replicate 2 packet_view_default) in
        Inr [cap_stub (capabilities c), preferred_backend_name c \<noteq> '''', o1, n = 1,
             pv_length (views ! 0) = 4]))"

section \<open>The histogram and struct_pack\<close>

definition test_histogram :: "bool list res" where
  "test_histogram =
     res_bind (record_all (histogram_new 64) (map word_of_nat [1..<1001])) (\<lambda>h.
     res_bind (hist_record h 100000) (\<lambda>h.
     res_bind (value_at_percentile h (Finite 50)) (\<lambda>p50.
     res_bind (value_at_percentile h (Finite 99)) (\<lambda>p99.
       Inr [hist_count h = 1001, hist_max h = 100000, hist_min h = 1, p50 \<noteq> None, p99 \<noteq> None,
            the p99 \<ge> the p50, hist_max h \<ge> the p99]))))"

definition test_sp :: "(sp_tick \<Rightarrow> char list) \<Rightarrow> (char list \<Rightarrow> sp_tick option) \<Rightarrow> bool list res" where
  "test_sp pack unpack =
     (let t = \<lparr>sp_instrument_id = 7, sp_price_ticks = 1902500, sp_qty = 3, sp_seq = 99, sp_ts_ns = 42\<rparr>;
          buf = sp_serialize True pack t; (r, out) = sp_deserialize True unpack buf sp_tick_default in
      Inr [sp_available True, buf \<noteq> [], r, sp_tick_eq out t])"

section \<open>Cache lines, arenas, CRTP, the remaining messages, jemalloc\<close>

text \<open>The test of the mask is that of a power of two, on \<open>std::size_t\<close>.\<close>

definition test_cache_line :: "nat option \<Rightarrow> bool list res" where
  "test_cache_line interference =
     (let line = word_of_nat (kCacheLine interference) :: size_t in
      Inr [line \<ge> 64, line AND (line - 1) = 0])"

text \<open>
  \<open>*p\<close> is read from the storage of the arena that lies at \<open>data\<close>; an \<open>int\<close> has 4 bytes, \<open>double\<close> the 8
  of its IEEE encoding, which is 0x3FF8000000000000 for 1.5.
\<close>

definition arena_read :: "arena \<Rightarrow> u64 \<Rightarrow> nat \<Rightarrow> u8 list res" where
  "arena_read a p n = mem_read (a_storage a) (unat (p - a_data a)) n"

definition test_arena :: "byte_order \<Rightarrow> u64 \<Rightarrow> bool list res" where
  "test_arena bo data =
     (let b42 = host_bytes bo (42 :: u32); b15 = host_bytes bo (0x3FF8000000000000 :: u64);
          b7 = host_bytes bo (7 :: u32) in
      res_bind (arena_create (arena_new data 4096) b42 4) (\<lambda>(pa, a).
      res_bind (arena_create a b15 8) (\<lambda>(pb, a).
      res_bind (arena_read a pa 4) (\<lambda>va.
      res_bind (arena_read a pb 8) (\<lambda>vb.
      let used = arena_used a; a = arena_reset a; again = arena_used a in
      res_bind (arena_create a b7 4) (\<lambda>(pc, a).
      res_bind (arena_read a pc 4) (\<lambda>vc.
        Inr [host_word bo va = (42 :: u32), host_word bo vb = (0x3FF8000000000000 :: u64), used > 0,
             again = 0, host_word bo vc = (7 :: u32)])))))))"

definition pmr_read :: "pmr_arena \<Rightarrow> u64 \<Rightarrow> nat \<Rightarrow> u8 list res" where
  "pmr_read a p n = mem_read (pm_buffer a) (unat (p - pm_data a)) n"

definition test_pmr_arena :: "resource \<Rightarrow> byte_order \<Rightarrow> u64 \<Rightarrow> bool list res" where
  "test_pmr_arena mr bo data =
     (let b7 = host_bytes bo (7 :: u32); b99 = host_bytes bo (99 :: u64); b1 = host_bytes bo (1 :: u32) in
      res_bind (uncaught (pmr_create mr (pmr_new data 4096) b7 4)) (\<lambda>(pa, a).
      res_bind (uncaught (pmr_create mr a b99 8)) (\<lambda>(pb, a).
      res_bind (pmr_read a pa 4) (\<lambda>va.
      res_bind (pmr_read a pb 8) (\<lambda>vb.
      res_bind (uncaught (pmr_create mr (pmr_release a) b1 4)) (\<lambda>(pc, a).
      res_bind (pmr_read a pc 4) (\<lambda>vc.
        Inr [host_word bo va = (7 :: u32), host_word bo vb = (99 :: u64),
             host_word bo vc = (1 :: u32)])))))))"

text \<open>\<open>Impl\<close> has no members but its base, which is empty and lies at its start.\<close>

definition test_crtp :: "nat \<Rightarrow> bool list res" where
  "test_crtp x =
     (let lay = (\<lambda>c. if c = ''Impl'' then [(''Impl'', 0)] else []); objs = [x \<mapsto> (''Impl'', ())] in
      case Option.bind (crtp_base lay ''Impl'' ''Impl'' x)
             (\<lambda>b. self_call lay ''Impl'' (\<lambda>this. (11 :: int, this)) b objs) of
        None \<Rightarrow> Inr [False]
      | Some r \<Rightarrow> res_bind r (\<lambda>(v, _). Inr [v = 11]))"

definition test_style_roundtrip :: "byte_order \<Rightarrow> tick_msg \<Rightarrow> bool list res" where
  "test_style_roundtrip bo zero =
     (let m = \<lparr>tm_instrument_id = 42, tm_price_ticks = 12345, tm_qty = 10, tm_seq = 7\<rparr> in
      res_bind (style_encode bo (replicate 16 0) m) (\<lambda>(r, buf).
      res_bind (decode_copy bo buf zero) (\<lambda>(r2, out).
      let view = decode_view buf in
      res_bind (view_read bo buf view) (\<lambda>v.
        Inr [r, r2, tm_instrument_id out = 42, tm_price_ticks out = 12345, tm_qty out = 10,
             tm_seq out = 7, view \<noteq> None, tm_seq v = 7]))))"

text \<open>With jemalloc; the allocator and what \<open>mallctl\<close> says are the library's.\<close>

definition test_jemalloc :: "(size_t \<Rightarrow> 'h \<Rightarrow> u64 \<times> 'h) \<Rightarrow> (u64 \<Rightarrow> 'h \<Rightarrow> 'h) \<Rightarrow> (u64 \<Rightarrow> nat \<Rightarrow> u8 \<Rightarrow> 'h \<Rightarrow> 'h)
    \<Rightarrow> int \<times> string option \<Rightarrow> 'h \<Rightarrow> bool list res \<times> 'h" where
  "test_jemalloc malloc free memset mallctl h =
     (let (p, h) = malloc_bytes malloc 256 h; h = memset p 256 0xCD h; h = free_bytes free p h in
      (Inr [je_available True, p \<noteq> 0, version_string True mallctl \<noteq> ''''], h))"

section \<open>They pass\<close>

lemma spsc_8: "spsc_new 8 (0 :: int) = \<lparr>q_head = 0, q_tail = 0, q_slots = [0, 0, 0, 0, 0, 0, 0, 0]\<rparr>"
  by (simp add: spsc_new_def eval_nat_numeral)

lemma test_queue_passes: "test_passes test_queue" "test_passes test_queue_again"
  unfolding test_queue_def test_queue_again_def spsc_8 by code_simp+

lemma test_pool_passes: "test_passes test_pool"
  unfolding test_pool_def by code_simp

lemma test_clocks_passes:
  assumes "fst before \<le> fst after" and "0 \<le> snd before" "snd before \<le> snd after" "snd after < 2 ^ 63"
  shows "test_passes (test_clocks arch before after)"
proof -
  have "lb_try_push (lb_new 16) 10 = Inr (True, \<lparr>lb_data = 10 # replicate 15 0, lb_n = 1, lb_dropped = 0\<rparr>)"
    by code_simp
  moreover have "steady_ns (snd before) \<le> steady_ns (snd after)"
    using assms(2-4) by (simp add: steady_ns_def word_le_def uint_word_of_int)
  ultimately show ?thesis
    using assms(1) by (simp add: test_clocks_def Let_def lb_size_def read_tsc_def split: cpu_arch.split)
qed

lemma test_affinity_passes: "test_passes (test_affinity os)"
  by (cases os) (simp_all add: test_affinity_def affinity_backend_def)

lemma test_sbe_roundtrip_passes: "test_passes (test_sbe_roundtrip bo)"
  by (simp add: test_sbe_roundtrip_def encode_64 decode_wire test_tick_def kTickWireBytes_def tick_const_defs)

lemma test_sbe_wrong_schema_passes: "test_passes (test_sbe_wrong_schema bo)"
proof -
  define v :: tick_values where
    "v = \<lparr>tv_instrument_id = 1, tv_price_ticks = 1, tv_qty = 1, tv_seq = 1, tv_ts_ns = 1\<rparr>"
  let ?src = "(tick_wire v @ replicate 32 0)[4 := 0, 5 := 0]"
  have "wire_u16 ?src 4 = le_word [0, 0]"
    by (simp add: wire_u16_def numeral_nat take_Suc_conv_app_nth)
  then have "wire_u16 ?src 4 \<noteq> sbeSchemaId" by (simp add: sbeSchemaId_def)
  moreover have "length ?src < 2 ^ 64" by simp
  ultimately have "decode_tick bo ?src tick_values_default = Inr (False, tick_values_default)"
    by (subst decode_tick_eq) simp_all
  then show ?thesis by (simp add: test_sbe_wrong_schema_def encode_64 flip: v_def)
qed

lemma test_style_passes: "test_passes (test_style bo zero)"
  by (simp add: test_style_def style_encode_eq decode_copy_eq tick_msg.length_enc tick_msg.dec_enc)

lemma sublist_append_front: "sublist xs (xs @ ys)"
  by (rule prefix_imp_sublist) simp

lemma stub_status: "sublist ''stub'' ''stub-only (no NIC SDK linked)''"
  using sublist_append_front [of "''stub''" "''-only (no NIC SDK linked)''"] by simp

lemma test_bypass_passes: "\<not> dpdk_built c \<Longrightarrow> \<not> onload_built c \<Longrightarrow> test_passes (test_bypass c)"
  by (simp add: test_bypass_def stub_open_def inject_eq stub_inv_def stub_new_def stub_poll_def view_bytes_def
      mem_read_def stub_backend_def backend_status_def stub_status Let_def)

lemma test_capabilities_passes: "test_passes (test_capabilities c)"
  by (simp add: test_capabilities_def stub_open_def make_default_rx_def inject_eq stub_inv_def stub_new_def
      stub_poll_def capabilities_def preferred_backend_name_def Let_def)

lemma test_sp_passes:
  assumes "\<And>t. unpack (pack t) = Some t" and "\<And>t. pack t \<noteq> []"
  shows "test_passes (test_sp pack unpack)"
  using sp_roundtrip [of unpack pack, OF assms(1)] assms(2)
  by (simp add: test_sp_def Let_def sp_available_def sp_serialize_def sp_tick_eq)

lemma rd_near:
  assumes "1 / 8 \<le> x"
  shows "\<bar>rd x - x\<bar> \<le> x / 2 ^ 53"
proof -
  have "p2 (- 1022) \<le> p2 (- 3)" by (simp add: p2_le_iff)
  moreover have "p2 (- 3) = 1 / 8" by (simp add: p2_def)
  ultimately show ?thesis using assms by (intro rd_relative) simp
qed

text \<open>A rank is exact when the exact number it is rounded from is not close to a whole one.\<close>

lemma percentile_rank_exact:
  assumes "25 \<le> p" "p \<le> 100" and "n \<le> 10000" "0 < n"
    and r: "of_nat r - 999 / 1000 \<le> p * of_nat n / 100" "p * of_nat n / 100 \<le> of_nat r - 1 / 1000"
  shows "percentile_rank p n = r"
proof -
  let ?q = "p / 100" and ?x = "rd (p / 100) * of_nat n" and ?y = "p * of_nat n / 100"
  have q: "1 / 4 \<le> ?q" "?q \<le> 1" using assms by simp_all
  have n: "(1 :: rat) \<le> of_nat n" "(of_nat n :: rat) \<le> 10000"
    using assms(3,4) by (simp, metis of_nat_mono of_nat_numeral)
  have "\<bar>rd ?q - ?q\<bar> \<le> ?q / 2 ^ 53" using q(1) by (intro rd_near) simp
  also have "\<dots> \<le> 1 / 2 ^ 53" using q(2) by (intro divide_right_mono) simp_all
  finally have "\<bar>rd ?q - ?q\<bar> * of_nat n \<le> 1 / 2 ^ 53 * 10000" using n by (intro mult_mono) simp_all
  moreover have "\<bar>rd ?q - ?q\<bar> * of_nat n = \<bar>?x - ?y\<bar>"
    using abs_mult [of "rd ?q - ?q" "of_nat n"] by (simp add: left_diff_distrib)
  ultimately have x: "\<bar>?x - ?y\<bar> \<le> 1 / 2 ^ 39" by simp
  have y: "1 / 4 \<le> ?y" "?y \<le> 10000" using mult_mono [OF q(1) n(1)] mult_mono [OF q(2) n(2)] q n by simp_all
  have small: "1 / 2 ^ 39 \<le> (1 / 2000 :: rat)" "(1 / 2 ^ 39 :: rat) \<le> 1 / 8" by simp_all
  have "?x \<le> ?y + 1 / 2 ^ 39" "?y \<le> ?x + 1 / 2 ^ 39" using x by linarith+
  with y small have bx: "1 / 8 \<le> ?x" "?x \<le> 20000" by linarith+
  have "\<bar>rd ?x - ?x\<bar> \<le> ?x / 2 ^ 53" using bx(1) by (rule rd_near)
  also have "\<dots> \<le> 20000 / 2 ^ 53" using bx(2) by (intro divide_right_mono) simp_all
  also have "(20000 / 2 ^ 53 :: rat) \<le> 1 / 4000" by simp
  finally have "\<bar>rd ?x - ?x\<bar> \<le> 1 / 4000" .
  with x small r have "of_nat r - 1 < rd ?x" "rd ?x \<le> of_nat r" by linarith+
  then have "\<lceil>rd ?x\<rceil> = int r" by (intro ceiling_unique) simp_all
  then show ?thesis using assms(2) by (simp add: percentile_rank_def)
qed

lemma ranks_1001: "percentile_rank 50 1001 = 501" "percentile_rank 99 1001 = 991"
  by (rule percentile_rank_exact; simp)+

lemma bit_length_unique:
  assumes "0 < k" and "2 ^ (k - 1) \<le> unat v" and "unat v < 2 ^ k"
  shows "bit_length v = k"
proof -
  have v: "v \<noteq> 0" using assms(2) by (intro notI) simp
  have "(2 :: nat) ^ (bit_length v - 1) < 2 ^ k" "(2 :: nat) ^ (k - 1) < 2 ^ bit_length v"
    using bit_length_bounds(1,2) [of v] v assms(2,3) by linarith+
  then have "bit_length v - 1 < k" "k - 1 < bit_length v" by (simp_all only: power_strict_increasing_iff one_less_numeral_iff semiring_norm)
  with assms(1) bit_length_bounds(4) [OF v] show ?thesis by linarith
qed

lemma representatives: "representative 64 501 = 384" "representative 64 991 = 768"
proof -
  have "bit_length 501 = 9" "bit_length 991 = 10" by (rule bit_length_unique; simp)+
  then show "representative 64 501 = 384" "representative 64 991 = 768"
    by (simp_all add: representative_def bucket_index_word bucket_representative_def push_bit_eq_mult)
qed

lemma test_histogram_passes: "test_passes test_histogram"
proof -
  let ?w = "word_of_nat :: nat \<Rightarrow> u64"
  let ?xs = "map ?w [1..<1001]" and ?ys = "100000 # rev (map ?w [1..<1001])"
  have b: "(8 :: nat) \<le> 64" "(64 :: nat) \<le> 128" by simp_all
  obtain h where h: "record_all (histogram_new 64) ?xs = Inr h" "hist_inv 64 (rev ?xs) h"
    using record_all_new [OF b] by blast
  obtain h' where h': "hist_record h 100000 = Inr h'" "hist_inv 64 ?ys h'"
    using hist_record_inv [OF b h(2), of 100000] by blast
  have w: "unat (?w k) = k" if "k < 1001" for k using that by (simp add: unat_of_nat_64)
  have le: "?w i \<le> ?w j" if "i \<le> j" "j < 1001" for i j using that by (simp add: word_le_nat_alt w)
  have "sorted (?xs @ [100000])"
    by (auto simp: sorted_append word_le_nat_alt w intro!: sorted_map_mono mono_onI le)
  then have sort: "sort ?ys = ?xs @ [100000]" by (intro properties_for_sort) simp_all
  have n: "length ?ys = 1001" by simp
  have "value_at_percentile h' (Finite 50) = Inr (Some 384)"
    using value_at_percentile_eq [OF b h'(2), of 50] unfolding n sort ranks_1001
    by (simp add: nth_append representatives)
  moreover have "value_at_percentile h' (Finite 99) = Inr (Some 768)"
    using value_at_percentile_eq [OF b h'(2), of 99] unfolding n sort ranks_1001
    by (simp add: nth_append representatives)
  moreover have "hist_count h' = 1001" "hist_min h' = 1" "hist_max h' = 100000"
  proof -
    have s: "set ?ys = insert 100000 (?w ` {1..<1001})" by auto
    show "hist_count h' = 1001" using h'(2) by (simp add: hist_inv_def hist_count_def)
    have "hb_min h' = Min (set ?ys)" using h'(2) foldr_min_top [of ?ys] by (simp only: hist_inv_def) simp
    also have "\<dots> = 1" unfolding s by (intro Min_eqI) (auto simp: word_le_nat_alt w intro!: image_eqI [of _ _ 1])
    finally show "hist_min h' = 1" using \<open>hist_count h' = 1001\<close> by (simp add: hist_min_def hist_count_def)
    have "Max (set ?ys) = 100000" unfolding s by (intro Max_eqI) (auto simp: word_le_nat_alt w)
    then show "hist_max h' = 100000" using h'(2) foldr_max_bot [of ?ys] unfolding hist_inv_def hist_max_def by (simp only: ) simp
  qed
  ultimately show ?thesis unfolding test_histogram_def h(1) res_bind_simps h'(1) by simp
qed

text \<open>The constant of a library that gives a power of two of at least 64, or the default.\<close>

lemma test_cache_line_passes:
  "interference = None \<or> interference = Some (2 ^ k) \<and> 6 \<le> k \<and> k < 64 \<Longrightarrow>
    test_passes (test_cache_line interference)"
proof (elim disjE conjE)
  assume i: "interference = Some (2 ^ k)" and k: "6 \<le> k" "k < 64"
  have "(64 :: size_t) \<le> 2 ^ k"
  proof -
    have pow: "(2 :: nat) ^ 6 \<le> 2 ^ k" using k(1) by (intro power_increasing) simp_all
    have "unat (word_of_nat (2 ^ k) :: size_t) = 2 ^ k" 
      by (intro unat_of_nat_64 power_strict_increasing k(2)) simp
    then have "unat (2 ^ k :: size_t) = 2 ^ k" by simp
    with pow show ?thesis by (simp add: word_le_nat_alt)
  qed
  moreover have "(2 ^ k :: size_t) AND (2 ^ k - 1) = 0"
    by (rule bit_word_eqI) (auto simp: bit_simps simp flip: mask_eq_decr_exp)
  ultimately show ?thesis using i by (simp add: test_cache_line_def kCacheLine_def)
qed (simp add: test_cache_line_def kCacheLine_def)

lemma test_crtp_passes: "test_passes (test_crtp x)"
  by (simp add: test_crtp_def crtp_base_def self_call_def self_def)

lemma test_style_roundtrip_passes: "test_passes (test_style_roundtrip bo zero)"
  by (simp add: test_style_roundtrip_def style_encode_eq decode_copy_eq tick_msg.length_enc tick_msg.dec_enc
      decode_view_def view_read_def field_get_def mem_read_def sizeof_TickMsg_def)

lemma test_jemalloc_passes:
  assumes "fst (malloc 256 h) \<noteq> 0" and "\<And>v. mallctl = (0, Some v) \<Longrightarrow> v \<noteq> ''''"
  shows "test_passes (fst (test_jemalloc malloc free memset mallctl h))"
  using assms
  by (cases mallctl) (auto simp: test_jemalloc_def malloc_bytes_def je_available_def version_string_cases
      split: prod.split)

text \<open>
  The arenas, their storage at an address that suits every type of the test; the storage of a vector
  is aligned to 16 bytes.
\<close>

lemma align_up_test:
  assumes "16 dvd unat data" and "unat data + 4096 < 2 ^ 64"
  shows "align_up data 4 = data" and "align_up (data + 4) 8 = data + 8"
proof -
  have p: "pow2_size (unat (4 :: u64))" "pow2_size (unat (8 :: u64))"
    using exI [of "\<lambda>k. k < 64 \<and> (4 :: nat) = 2 ^ k" 2] exI [of "\<lambda>k. k < 64 \<and> (8 :: nat) = 2 ^ k" 3]
    by (simp_all add: pow2_size_def)
  have up: "unat (data + 4) = unat data + 4" "unat (data + 8) = unat data + 8"
    using assms(2) by (simp_all add: unat_add_no_wrap)
  obtain d where d: "unat data = 16 * d" using assms(1) by blast
  have "unat (align_up data 4) = unat data"
    using align_up_nat [OF p(1), of data] assms(2) by (simp add: d)
  then show "align_up data 4 = data" by (simp add: word_unat_eq_iff)
  have "(16 * d + 4 + (8 - 1)) div 8 * 8 = 16 * d + 8" by presburger
  then have "unat (align_up (data + 4) 8) = unat (data + 8)"
    using align_up_nat [OF p(2), of "data + 4"] assms(2) by (simp add: d up)
  then show "align_up (data + 4) 8 = data + 8" by (simp add: word_unat_eq_iff)
qed

lemma test_arena_passes:
  assumes "16 dvd unat data" and "unat data + 4096 < 2 ^ 64"
  shows "test_passes (test_arena bo data)"
  by (simp add: test_arena_def arena_create_def arena_allocate_def arena_new_def arena_capacity_def
      arena_read_def arena_reset_def arena_used_def align_up_test [OF assms] mem_write_def mem_read_def
      Let_def host_word_bytes byte_sized_def)

lemma test_pmr_arena_passes:
  assumes data: "unat data + 4096 < 2 ^ 64"
    and mr: "monotonic_resource data 4096 mr" "serves_what_fits 4096 mr"
  shows "test_passes (test_pmr_arena mr bo data)"
proof -
  define b7 b99 b1 where b: "b7 = host_bytes bo (7 :: u32)" "b99 = host_bytes bo (99 :: u64)"
    "b1 = host_bytes bo (1 :: u32)"
  have len: "length b7 = 4" "length b99 = 8" "length b1 = 4" by (simp_all add: b byte_sized_def)
  have al: "pow2_size (unat (4 :: u64))" "pow2_size (unat (8 :: u64))"
    using exI [of "\<lambda>k. k < 64 \<and> (4 :: nat) = 2 ^ k" 2] exI [of "\<lambda>k. k < 64 \<and> (8 :: nat) = 2 ^ k" 3]
    by (simp_all add: pow2_size_def)
  have new: "pmr_inv mr (pmr_new data 4096, [])" "length (pm_buffer (pmr_new data 4096)) = 4096"
    using pmr_inv_new [OF data mr(1)] by (simp_all add: pmr_new_def)
  obtain pa a1 where c1: "pmr_create mr (pmr_new data 4096) b7 4 = (Inr pa, a1)"
    and i1: "pmr_inv mr (a1, [(pa, 4, 4, Some b7)])" and s1: "length (pm_buffer a1) = 4096"
    by (rule pmr_create_fits [OF new(1) _ al(1), of b7]) (use mr(2) new(2) len in auto)
  obtain pb a2 where c2: "pmr_create mr a1 b99 8 = (Inr pb, a2)"
    and i2: "pmr_inv mr (a2, [(pb, 8, 8, Some b99), (pa, 4, 4, Some b7)])"
    and s2: "length (pm_buffer a2) = 4096"
    by (rule pmr_create_fits [OF i1 _ al(2), of b99]) (use mr(2) s1 len in auto)
  have s3: "length (pm_buffer (pmr_release a2)) = 4096" using s2 by (simp add: pmr_release_def)
  obtain pc a3 where c3: "pmr_create mr (pmr_release a2) b1 4 = (Inr pc, a3)"
    and i3: "pmr_inv mr (a3, [(pc, 4, 4, Some b1)])"
    by (rule pmr_create_fits [OF pmr_inv_release [OF i2] _ al(1), of b1]) (use mr(2) s3 len in auto)
  have "pmr_read a2 pa 4 = Inr b7" "pmr_read a2 pb 8 = Inr b99" "pmr_read a3 pc 4 = Inr b1"
    using pmr_object_reads [OF i2, of pa 4 4 b7] pmr_object_reads [OF i2, of pb 8 8 b99]
      pmr_object_reads [OF i3, of pc 4 4 b1] by (simp_all add: pmr_read_def)
  then show ?thesis
    by (simp add: test_pmr_arena_def Let_def b [symmetric] c1 c2 c3)
      (simp add: b host_word_bytes byte_sized_def)
qed

end
