(* ===== verification/LibraryTests.thy ===== *)
theory LibraryTests
  imports RepoTests HdrC LinuxUring LinuxNuma
begin

text \<open>
  The tests of the wrappers around libnuma, liburing and HdrHistogram_c in
  \<open>tests/test_roadmap_stack.cpp\<close>, in both configurations of the build: \<open>has\<close> is the feature macro,
  and what the library answers is an environment. Without the library they pass; with it they pass
  when it answers as documented, and use it properly. A test returns the calls it has made, too.
\<close>

section \<open>The tests\<close>

definition test_numa :: "numa_env \<Rightarrow> bool \<Rightarrow> bool list res \<times> numa_trace" where
  "test_numa env has =
     (let (line, tr) = numa_status_line env has [];
          requires = [line \<noteq> '''', sublist ''numa_backend='' line]
      in if has then
           let (ok, tr) = numa_available env has tr
           in if ok then
                let (n, tr) = numa_max_node env has tr;
                    (node, tr) = numa_preferred_node env has tr
                in (Inr (requires @ [0 \<le> n]),
                    if 0 \<le> node then
                      let (p, tr) = alloc_onnode env has 4096 node tr
                      in if p \<noteq> 0 then free_onnode has p 4096 tr else tr
                    else tr)
              else (Inr requires, tr)
         else
           let (ok, tr) = numa_available env has tr; (bound, tr) = bind_thread_to_node env has 0 tr
           in (Inr (requires @ [\<not> ok, bound = False]), tr))"

text \<open>\<open>buf\<close> is the address of the array of 256 bytes; \<open>open\<close> has the default depth 256. The ring is destroyed at the end.\<close>

definition test_uring :: "uring_env \<Rightarrow> bool \<Rightarrow> u64 \<Rightarrow> bool list res \<times> uring_call list" where
  "test_uring env has buf =
     (if has then
        let (o1, s) = ring_open env has 8 (ring_new, []);
            live = ring_is_open has (fst s);
            (nop, s) = submit_nop_and_wait env has s;
            (n, s) = read_file env has (Some ''/etc/hosts'') (buf, 256) s;
            s = ring_close has s
        in (Inr [uring_status_line has \<noteq> '''', uring_available has, o1, live, nop, - 1 \<le> n,
                 \<not> ring_is_open has (fst s)], snd (ring_destroy has s))
      else
        let (o1, s) = ring_open env has 256 (ring_new, []); (nop, s) = submit_nop_and_wait env has s
        in (Inr [uring_status_line has \<noteq> '''', \<not> uring_available has, \<not> o1, \<not> nop],
            snd (ring_destroy has s)))"

definition test_hdr_c :: "hdr_env \<Rightarrow> bool \<Rightarrow> bool list res \<times> hdr_call list" where
  "test_hdr_c env has =
     (let portable = res_bind (record_all (histogram_new 64) (map word_of_nat [1..<1001]))
                       (\<lambda>h. value_at_percentile h (Finite 99))
      in if has then
           let s = hdr_new env has 3600000000 3 [];
               valid = hdr_valid (fst s);
               s = fold hdr_record (map word_of_nat [1..<1001]) s;
               s = hdr_record 100000 s;
               (m, s) = hdr_max env s;
               (p99, s) = hdr_value_at_percentile env (Finite 99) s
           in (res_bind portable (\<lambda>p. Inr [p \<noteq> None, hdr_c_available has, valid, sint m \<ge> 100000, p99 \<noteq> None,
                 (case p99 of None \<Rightarrow> False | Some v \<Rightarrow> sint v \<ge> 1)]),
               snd (hdr_destroy s))
         else (res_bind portable (\<lambda>p. Inr [p \<noteq> None, \<not> hdr_c_available has,
                 \<not> stub_c_valid (stub_c_new 3600000000 3)]), []))"

section \<open>They pass\<close>

lemma status_line_prefix: "prefix ''numa_backend='' (fst (numa_status_line env has tr))"
  by (simp add: numa_status_line_def Let_def split: prod.split)

lemma prefix_passes:
  assumes "prefix ''numa_backend='' line"
  shows "line \<noteq> ''''" and "sublist ''numa_backend='' line"
  using assms by (auto simp: prefix_imp_sublist)

text \<open>
  On a system whose answer to \<open>numa_available\<close> does not change and whose largest node is not
  negative.
\<close>

lemma test_numa_passes:
  assumes "has \<Longrightarrow> \<forall>tr. on_available env tr = rc \<and> 0 \<le> on_max_node env tr"
  shows "test_passes (fst (test_numa env has))"
proof -
  obtain line tr where l: "numa_status_line env has [] = (line, tr)" by fastforce
  have p: "prefix ''numa_backend='' line" using status_line_prefix [of env has "[]"] by (simp add: l)
  note req = prefix_passes [OF p]
  show ?thesis
  proof (cases has)
    case True
    with assms req l show ?thesis
      by (simp add: test_numa_def numa_available_def numa_max_node_def Let_def split: prod.split)
  next
    case False
    with req l show ?thesis
      by (simp add: test_numa_def numa_available_def bind_thread_to_node_def Let_def split: prod.split)
  qed
qed

text \<open>The ring is set up, entries are to be had, and no request fails.\<close>

lemma test_uring_passes:
  assumes "has \<Longrightarrow> \<forall>tr depth. on_queue_init env tr depth = 0 \<and> on_get_sqe env tr \<noteq> None
      \<and> 0 \<le> on_submit env tr \<and> 0 \<le> fst (on_wait_cqe env tr) \<and> 0 \<le> cqe_res (snd (on_wait_cqe env tr))"
  shows "test_passes (fst (test_uring env has buf))"
proof (cases has)
  case True
  have sqe: "\<exists>q. on_get_sqe env tr = Some q" and sub: "\<not> on_submit env tr < 0"
    and rc: "on_wait_cqe env tr = (rc, c) \<Longrightarrow> \<not> rc < 0 \<and> 0 \<le> cqe_res c" for tr rc c
    using assms [OF True] by (auto simp: not_less dest: spec [of _ tr])
  have nop: x if call: "submit_nop_and_wait env True (\<lparr>open_flag = True\<rparr>, tr) = (x, s)" for tr x s
  proof -
    obtain q where q: "on_get_sqe env tr = Some q" using sqe by blast
    let ?tr = "tr @ [Get_Sqe (Some q), Prep_Nop q]"
    obtain rc' c where w: "on_wait_cqe env (?tr @ [Submit (on_submit env ?tr)]) = (rc', c)" by fastforce
    show ?thesis using call sub [of ?tr] rc [OF w] w by (simp add: submit_nop_and_wait_def Let_def q)
  qed
  have rd: "read_file env True (Some p) dst (r, tr) = (n, s) \<Longrightarrow> - 1 \<le> n" for p dst r tr n s
    using rc by (force simp: read_file_def Let_def split: option.splits prod.splits if_splits)
  show ?thesis using True assms
    by (auto simp: test_uring_def ring_open_def ring_new_def ring_close_def ring_is_open_def
        uring_available_def uring_status_line_def Let_def split: prod.split dest!: nop rd)
qed (simp add: test_uring_def ring_open_def ring_new_def submit_nop_and_wait_def
    uring_available_def uring_status_line_def)

text \<open>
  The last requirement on the result, \<open>n >= -1\<close>, rests on the comment of \<open>read_file\<close>, which promises
  the number of bytes or -1; but a read that fails, such as one of a directory, gives the negated
  error number.
\<close>

lemma read_file_error_number:
  assumes "open_flag r" and "snd dst \<noteq> 0" and "\<forall>tr. 0 \<le> on_open env tr p \<and> on_get_sqe env tr = Some 0
      \<and> 0 \<le> on_submit env tr \<and> on_wait_cqe env tr = (0, \<lparr>cqe_request = 0, cqe_res = - 21\<rparr>)"
  shows "fst (read_file env True (Some p) dst (r, tr)) = - 21"
  using assms by (simp add: read_file_def Let_def not_less)

lemma test_uring_fails:
  assumes "\<forall>tr. on_open env tr ''/etc/hosts'' = 3 \<and> on_queue_init env tr 8 = 0
      \<and> on_get_sqe env tr = Some 0 \<and> on_submit env tr = 1"
    and "\<forall>tr. on_wait_cqe env tr = (0, \<lparr>cqe_request = 0,
        cqe_res = if list_ex (\<lambda>e. case e of Open_File p fd \<Rightarrow> True | _ \<Rightarrow> False) tr then - 5 else 0\<rparr>)"
  shows "\<not> test_passes (fst (test_uring env True buf))"
  using assms by (simp add: test_uring_def ring_open_def ring_new_def ring_close_def ring_is_open_def
      submit_nop_and_wait_def read_file_def Let_def)

text \<open>The ring of the test is used and released properly, and the file is closed.\<close>

lemma test_uring_protocol:
  "follow uring_trans (ring_phase has ring_new) (snd (test_uring env has buf)) = Some (ring_phase has ring_new)"
proof -
  let ?ops = "if has then [Op_Open 8, Op_Nop, Op_Read (Some ''/etc/hosts'') (buf, 256), Op_Close]
    else [Op_Open 256, Op_Nop]"
  have "snd (test_uring env has buf) = snd (ring_destroy has (run_ops (ring_call env has) ?ops (ring_new, [])))"
    by (simp add: test_uring_def Let_def split: prod.split)
  also have "follow uring_trans (ring_phase has ring_new) \<dots> = Some (ring_phase has ring_new)"
    by (rule ring.life_obeys) simp_all
  finally show ?thesis .
qed

section \<open>The histogram of the C library\<close>

text \<open>
  What the library documents: the maximum is at least every recorded value, and a percentile of
  positive values is positive.
\<close>

definition hdr_documented :: "hdr_env \<Rightarrow> bool" where
  "hdr_documented env \<longleftrightarrow>
     (\<forall>tr a b n. fst (on_init env tr a b n) = 0 \<and> snd (on_init env tr a b n) \<noteq> None)
     \<and> (\<forall>tr h v. Hdr_Record_Value h v \<in> set tr \<longrightarrow> sint v \<le> sint (on_max env tr h))
     \<and> (\<forall>tr h p. (\<exists>v. Hdr_Record_Value h v \<in> set tr) \<and> (\<forall>v. Hdr_Record_Value h v \<in> set tr \<longrightarrow> 1 \<le> sint v)
          \<longrightarrow> 1 \<le> sint (on_percentile env tr h p))"

lemma fold_hdr_record:
  assumes "\<forall>v\<in>set vs. 0 \<le> sint v"
  shows "fold hdr_record vs (\<lparr>hist_ptr = Some h\<rparr>, tr) =
    (\<lparr>hist_ptr = Some h\<rparr>, tr @ map (Hdr_Record_Value h) vs)"
  using assms by (induction vs arbitrary: tr) (simp_all add: hdr_record_def)

lemma sint_small: "k < 1001 \<Longrightarrow> sint (word_of_nat k :: i64) = int k"
  by (simp add: signed_of_nat signed_take_bit_int_eq_self)

lemma portable_passes:
  "\<exists>v. res_bind (record_all (histogram_new 64) (map word_of_nat [1..<1001]))
     (\<lambda>h. value_at_percentile h (Finite 99)) = Inr (Some v)"
proof -
  have b: "(8 :: nat) \<le> 64" "(64 :: nat) \<le> 128" by simp_all
  obtain h where h: "record_all (histogram_new 64) (map word_of_nat [1..<1001]) = Inr h"
    "hist_inv 64 (rev (map word_of_nat [1..<1001])) h"
    using record_all_new [OF b] by blast
  then show ?thesis using value_at_percentile_eq [OF b h(2), of 99] by simp
qed

lemma test_hdr_c_passes:
  assumes "has \<Longrightarrow> hdr_documented env"
  shows "test_passes (fst (test_hdr_c env has))"
proof -
  obtain v where v: "res_bind (record_all (histogram_new 64) (map word_of_nat [1..<1001]))
     (\<lambda>h. value_at_percentile h (Finite 99)) = Inr (Some v)" using portable_passes by blast
  show ?thesis
  proof (cases has)
    case True
    let ?vs = "map word_of_nat [1..<1001] :: i64 list"
    from assms [OF True] obtain h where h: "on_init env [] 1 3600000000 3 = (0, Some h)"
      unfolding hdr_documented_def by (metis option.exhaust prod.collapse)
    define tr0 where "tr0 = [Hdr_Init 1 3600000000 3 0 (Some h)]"
    define tr where "tr = tr0 @ map (Hdr_Record_Value h) ?vs @ [Hdr_Record_Value h 100000]"
    have vs: "\<forall>v\<in>set ?vs. 1 \<le> sint v" by (auto simp: sint_small)
    have "sint (100000 :: i64) = 100000" by code_simp
    moreover have "fold hdr_record ?vs (\<lparr>hist_ptr = Some h\<rparr>, tr0)
        = (\<lparr>hist_ptr = Some h\<rparr>, tr0 @ map (Hdr_Record_Value h) ?vs)"
      by (rule fold_hdr_record) (use vs in fastforce)
    moreover have "hdr_new env True 3600000000 3 [] = (\<lparr>hist_ptr = Some h\<rparr>, tr0)"
      by (simp add: hdr_new_def h tr0_def)
    ultimately have s: "hdr_record 100000 (fold hdr_record ?vs (hdr_new env True 3600000000 3 []))
        = (\<lparr>hist_ptr = Some h\<rparr>, tr)"
      by (simp add: hdr_record_def tr_def del: upt.simps One_nat_def)
    have mem: "Hdr_Record_Value h 100000 \<in> set tr" by (simp add: tr_def)
    have "sint (100000 :: i64) = 100000" by code_simp
    moreover have "sint (100000 :: i64) \<le> sint (on_max env tr h)"
      using assms [OF True] mem unfolding hdr_documented_def by blast
    ultimately have "100000 \<le> sint (on_max env tr h)" by simp
    moreover have "1 \<le> sint (on_percentile env (tr @ [Hdr_Max h]) h (Finite 99))"
    proof -
      have "\<forall>v. Hdr_Record_Value h v \<in> set (tr @ [Hdr_Max h]) \<longrightarrow> 1 \<le> sint v"
        using vs by (auto simp: tr_def tr0_def)
      moreover have "Hdr_Record_Value h 100000 \<in> set (tr @ [Hdr_Max h])" using mem by simp
      ultimately show ?thesis using assms [OF True] unfolding hdr_documented_def by blast
    qed
    moreover have "hdr_valid (fst (hdr_new env True 3600000000 3 []))"
      by (simp add: hdr_new_def h hdr_valid_def)
    ultimately show ?thesis using True v s
      by (simp add: test_hdr_c_def hdr_max_def hdr_value_at_percentile_def hdr_c_available_def)
  next
    case False
    then show ?thesis unfolding test_hdr_c_def Let_def v
      by (simp add: hdr_c_available_def stub_c_valid_def)
  qed
qed

end
