(* ===== verification/Printf.thy ===== *)
theory Printf
  imports HdrHistogram Decimal
begin

text \<open>
  The conversions of \<open>printf\<close> the programs use on \<open>double\<close>: \<open>%.pf\<close>, with the exact value rounded to
  \<open>p\<close> decimals, ties to even; and how far a sum of rounded terms is from the exact one, which tells
  which decimals of it are certain.
\<close>

section \<open>Fixed notation\<close>

definition pad_zeros :: "nat \<Rightarrow> string \<Rightarrow> string" where
  "pad_zeros p s = replicate (p - length s) CHR ''0'' @ s"

definition show_fixed :: "nat \<Rightarrow> rat \<Rightarrow> string" where
  "show_fixed p x =
     (let m = nat (round_even (\<bar>x\<bar> * 10 ^ p)) in
      (if x < 0 then ''-'' else '''') @
      (if p = 0 then show_nat m
       else show_nat (m div 10 ^ p) @ ''.'' @ pad_zeros p (show_nat (m mod 10 ^ p))))"

fun printf_f :: "nat \<Rightarrow> double \<Rightarrow> string" where
  "printf_f p NaN = ''nan''"
| "printf_f p (Infinity neg) = (if neg then ''-inf'' else ''inf'')"
| "printf_f p (Finite x) = show_fixed p x"

text \<open>A value closer than half a unit of the last decimal to an integer is printed as the integer.\<close>

lemma pad_zeros_0: "0 < p \<Longrightarrow> pad_zeros p (show_nat 0) = replicate p CHR ''0''"
  by (cases p) (simp_all add: pad_zeros_def show_nat_step digit_chars replicate_append_same)

lemma show_fixed_near:
  assumes "0 \<le> x" and "\<bar>x - of_nat n\<bar> * 10 ^ p < 1 / 2" and "0 < p"
  shows "show_fixed p x = show_nat n @ ''.'' @ replicate p CHR ''0''"
proof -
  have "of_int (int (n * 10 ^ p)) - \<bar>x\<bar> * 10 ^ p = (of_nat n - x) * 10 ^ p"
    using assms(1) by (simp add: left_diff_distrib)
  then have "\<bar>of_int (int (n * 10 ^ p)) - \<bar>x\<bar> * 10 ^ p\<bar> < 1 / 2"
    using assms(2) by (simp add: abs_mult abs_minus_commute)
  then have "round_even (\<bar>x\<bar> * 10 ^ p) = int (n * 10 ^ p)" by (rule round_even_eqI)
  then have "nat (round_even (\<bar>x\<bar> * 10 ^ p)) = n * 10 ^ p" by (simp only: nat_int)
  then show ?thesis using assms(1,3) by (simp add: show_fixed_def Let_def pad_zeros_0)
qed

lemma show_fixed_of_nat: "0 < p \<Longrightarrow> show_fixed p (of_nat n) = show_nat n @ ''.'' @ replicate p CHR ''0''"
  by (rule show_fixed_near) simp_all

section \<open>Sums of rounded terms\<close>

text \<open>Below a power of two the error of one rounding is at most half the unit in the last place there.\<close>

lemma rd_absolute:
  assumes "0 \<le> x" and "x < p2 (k + 1)" and "- 1022 \<le> k"
  shows "\<bar>rd x - x\<bar> \<le> p2 (k - 53)"
proof (cases "x = 0")
  case False
  then have x: "0 < x" using assms(1) by simp
  have "p2 (ilog2 x) < p2 (k + 1)" using ilog2_bounds(1) [OF x] assms(2) by linarith
  then have e: "ulp_exp x \<le> k - 52" using assms(3) by (auto simp: p2_less_iff ulp_exp_def)
  let ?u = "p2 (ulp_exp x) :: rat"
  have "\<bar>of_int (round_even (x / ?u)) - x / ?u\<bar> * ?u \<le> 1 / 2 * ?u"
    by (intro mult_right_mono round_even_near) (simp add: less_imp_le)
  moreover have "\<bar>of_int (round_even (x / ?u)) - x / ?u\<bar> * ?u = \<bar>rd x - x\<bar>"
    using x unfolding rd_pos_def rd_def by (simp add: abs_mult_pos left_diff_distrib less_imp_le)
  moreover have "?u \<le> p2 (k - 52)" using e by (simp add: p2_le_iff)
  moreover have "p2 (k - 52) = 2 * p2 (k - 53)" using p2_Suc [of "k - 53"] by simp
  ultimately show ?thesis by linarith
qed (simp add: rd_def less_imp_le)

text \<open>
  \<open>sink += k * c\<close> in a loop: two roundings, or one when the compiler contracts the expression into a
  fused multiply-add.
\<close>

definition add_product :: "bool \<Rightarrow> rat \<Rightarrow> nat \<Rightarrow> rat \<Rightarrow> rat" where
  "add_product contract c k sink =
     (if contract then rd (sink + of_nat k * c) else rd (sink + rd (of_nat k * c)))"

lemma add_product_error:
  assumes c: "0 \<le> c" and k: "of_nat k * c < p2 (j + 1)" "- 1022 \<le> j"
    and s: "0 \<le> sink" and sum: "sink + of_nat k * c + p2 (j - 53) < p2 (m + 1)" "- 1022 \<le> m"
  shows "\<bar>add_product contract c k sink - (sink + of_nat k * c)\<bar> \<le> p2 (m - 53) + p2 (j - 53)"
    and "0 \<le> add_product contract c k sink"
proof -
  let ?t = "of_nat k * c" and ?e = "p2 (j - 53)"
  have t: "0 \<le> ?t" using c by simp
  have e: "\<bar>rd ?t - ?t\<bar> \<le> ?e" by (rule rd_absolute [OF t k])
  have rt: "0 \<le> rd ?t" by (rule binary64.rnd_nonneg [OF t])
  show "\<bar>add_product contract c k sink - (sink + ?t)\<bar> \<le> p2 (m - 53) + ?e"
  proof (cases contract)
    case True
    have "\<bar>rd (sink + ?t) - (sink + ?t)\<bar> \<le> p2 (m - 53)"
      using s t sum p2_pos [of "j - 53"] by (intro rd_absolute) linarith+
    then show ?thesis using True by (auto simp: add_product_def intro: add_increasing2)
  next
    case False
    have "\<bar>rd (sink + rd ?t) - (sink + rd ?t)\<bar> \<le> p2 (m - 53)"
      using s rt e sum by (intro rd_absolute) linarith+
    with e show ?thesis using False by (simp add: add_product_def)
  qed
  show "0 \<le> add_product contract c k sink"
    using s t rt by (auto simp: add_product_def intro!: binary64.rnd_nonneg)
qed

lemma add_products_error:
  fixes c x :: rat and j m :: int
  defines "e \<equiv> p2 (m - 53) + p2 (j - 53)"
  assumes c: "0 \<le> c" and j: "- 1022 \<le> j" and m: "- 1022 \<le> m"
    and ks: "\<forall>k \<in> set ks. of_nat k * c < p2 (j + 1)"
    and s: "0 \<le> sink" "\<bar>sink - x\<bar> \<le> d" and d: "0 \<le> d"
    and room: "x + (\<Sum>k\<leftarrow>ks. of_nat k * c) + d + of_nat (length ks) * e < p2 (m + 1)"
  shows "\<bar>fold (add_product contract c) ks sink - (x + (\<Sum>k\<leftarrow>ks. of_nat k * c))\<bar>
    \<le> d + of_nat (length ks) * e"
  using ks s d room
proof (induction ks arbitrary: sink x d)
  case (Cons k ks)
  have e: "0 \<le> e" "p2 (j - 53) \<le> e" by (simp_all add: e_def)
  let ?t = "of_nat k * c" and ?s = "add_product contract c k sink"
  have rest: "0 \<le> (\<Sum>k\<leftarrow>ks. of_nat k * c)" using c by (intro sum_list_nonneg) auto
  have le: "0 \<le> of_nat (length ks) * e" using e(1) by simp
  have len: "of_nat (length (k # ks)) * e = of_nat (length ks) * e + e" by (simp add: distrib_right)
  have room: "x + ?t + (\<Sum>k\<leftarrow>ks. of_nat k * c) + (d + e) + of_nat (length ks) * e < p2 (m + 1)"
    using Cons.prems(5) unfolding len by simp
  have "sink \<le> x + d" using Cons.prems(3) by linarith
  then have "sink + ?t + p2 (j - 53) < p2 (m + 1)" using room rest le e by linarith
  note step = add_product_error [OF c _ j Cons.prems(2) this m, of contract, folded e_def]
  have s: "\<bar>?s - (sink + ?t)\<bar> \<le> e" "0 \<le> ?s" using step Cons.prems(1) by simp_all
  then have "\<bar>?s - (x + ?t)\<bar> \<le> d + e" using Cons.prems(3) by linarith
  from Cons.IH [OF _ s(2) this _ room] Cons.prems(1,4) e(1) show ?case
    by (simp add: distrib_right add.assoc add.commute add.left_commute)
qed simp

end
