(* ===== verification/ProgramOutput.thy ===== *)
theory ProgramOutput
  imports SmallPrograms PmrArena MemoryOrder Printf
begin

text \<open>
  What the programs write: the whole of \<open>examples/pmr\<close>, and the lines of \<open>examples/arena\<close>, \<open>hdr\<close>, \<open>hdr_c\<close>
  and \<open>memory_order\<close> as \<open>printf\<close> writes them. The sums that only keep a compiler from removing work
  are printed too, and their rounding errors stay below the decimals shown.
\<close>

section \<open>examples/pmr\<close>

text \<open>
  An \<open>OrderView\<close>, of 32 bytes with alignment 8: its symbol points to a string literal and is the text
  it shows. \<open>to_bytes\<close> and \<open>of_bytes\<close> are the object representation.
\<close>

record order_view =
  ov_symbol :: string
  ov_px :: rat
  ov_qty :: rat

definition pmr_order1 :: "nat \<Rightarrow> order_view" where
  "pmr_order1 w = \<lparr>ov_symbol = ''AAPL'', ov_px = rd (190 + of_nat w), ov_qty = 10\<rparr>"

definition pmr_order2 :: "nat \<Rightarrow> order_view" where
  "pmr_order2 w = \<lparr>ov_symbol = ''MSFT'', ov_px = rd (400 + of_nat w), ov_qty = 5\<rparr>"

definition pmr_order_at :: "(u8 list \<Rightarrow> order_view) \<Rightarrow> pmr_arena \<Rightarrow> u64 \<Rightarrow> order_view res" where
  "pmr_order_at of_bytes a p =
     res_bind (mem_read (pm_buffer a) (unat (p - pm_data a)) 32) (\<lambda>bs. Inr (of_bytes bs))"

definition pmr_line :: "nat \<Rightarrow> order_view \<Rightarrow> order_view \<Rightarrow> string" where
  "pmr_line w o1 o2 = ''window='' @ show_nat w @ '' '' @ ov_symbol o1 @ ''@'' @ show_fixed 1 (ov_px o1)
     @ '' '' @ ov_symbol o2 @ ''@'' @ show_fixed 1 (ov_px o2)"

fun pmr_windows :: "resource \<Rightarrow> (order_view \<Rightarrow> u8 list) \<Rightarrow> (u8 list \<Rightarrow> order_view) \<Rightarrow> nat \<Rightarrow> nat \<Rightarrow>
    pmr_arena \<Rightarrow> string list res" where
  "pmr_windows mr to_bytes of_bytes 0 w a = Inr []"
| "pmr_windows mr to_bytes of_bytes (Suc k) w a =
     res_bind (uncaught (pmr_create mr a (to_bytes (pmr_order1 w)) 8)) (\<lambda>(p1, a).
     res_bind (uncaught (pmr_create mr a (to_bytes (pmr_order2 w)) 8)) (\<lambda>(p2, a).
     res_bind (pmr_order_at of_bytes a p1) (\<lambda>o1.
     res_bind (pmr_order_at of_bytes a p2) (\<lambda>o2.
     res_bind (pmr_windows mr to_bytes of_bytes k (Suc w) (pmr_release a)) (\<lambda>lines.
       Inr (pmr_line w o1 o2 # lines))))))"

definition pmr_main :: "resource \<Rightarrow> (order_view \<Rightarrow> u8 list) \<Rightarrow> (u8 list \<Rightarrow> order_view) \<Rightarrow> u64 \<Rightarrow> string list res" where
  "pmr_main mr to_bytes of_bytes data = pmr_windows mr to_bytes of_bytes 3 0 (pmr_new data 65536)"

section \<open>examples/arena, hdr, hdr_c and memory_order\<close>

definition arena_line :: "nat \<Rightarrow> rat \<times> size_t \<Rightarrow> string" where
  "arena_line w r = ''window='' @ show_nat w @ '' notional='' @ show_fixed 2 (fst r)
     @ '' arena_used='' @ show_nat (unat (snd r))"

definition arena_output :: "u64 \<Rightarrow> string list res" where
  "arena_output data = res_bind (arena_main data) (\<lambda>rs. Inr (map (\<lambda>(w, r). arena_line w r) (enumerate 0 rs)))"

text \<open>The work that is measured, \<open>sink += k * 0.001\<close> for \<open>k\<close> below 50; \<open>contract\<close> as for \<open>add_product\<close>.\<close>

definition hdr_work :: "bool \<Rightarrow> rat \<Rightarrow> rat" where
  "hdr_work contract sink = fold (add_product contract (rd (1 / 1000))) [0..<50] sink"

definition hdr_sink :: "bool \<Rightarrow> nat \<Rightarrow> rat" where
  "hdr_sink contract n = (hdr_work contract ^^ n) 0"

definition sink_line :: "rat \<Rightarrow> string" where
  "sink_line sink = ''sink='' @ show_fixed 6 sink"

definition hdr_output :: "bool \<Rightarrow> (int \<times> int) list \<Rightarrow> string list res" where
  "hdr_output contract readings =
     res_bind (hdr_main readings) (\<lambda>(count, mean, p50, p99, p999, mx).
       Inr [''samples='' @ show_nat (unat count) @ '' mean='' @ printf_f 1 mean
              @ '' p50='' @ show_nat (unat p50) @ '' p99='' @ show_nat (unat p99)
              @ '' p99.9='' @ show_nat (unat p999) @ '' max='' @ show_nat (unat mx) @ '' ns'',
            sink_line (hdr_sink contract (length readings))])"

text \<open>The other program adds integers.\<close>

definition hdr_c_work :: "rat \<Rightarrow> rat" where
  "hdr_c_work sink = fold (\<lambda>k sink. rd (sink + of_nat k)) [0..<20] sink"

definition em_dash :: string where
  "em_dash = [CHR 0xE2, CHR 0x80, CHR 0x94]"

definition hdr_c_output :: "hdr_env \<Rightarrow> bool \<Rightarrow> (int \<times> int) list \<Rightarrow> (string list \<times> hdr_call list) res" where
  "hdr_c_output env has readings =
     res_bind (hdr_c_main env has readings) (\<lambda>((p99, mx), line2, tr).
       Inr ([''portable p99='' @ show_nat (unat p99) @ '' max='' @ show_nat (unat mx),
             (case line2 of
                None \<Rightarrow> ''hdr_c    not linked (LL_HAS_HDRHISTOGRAM_C=0) '' @ em_dash @ '' portable path still active''
              | Some (cp99, cmax, cmean, valid) \<Rightarrow>
                  ''hdr_c    p99='' @ show_int (sint cp99) @ '' max='' @ show_int (sint cmax)
                  @ '' mean='' @ printf_f 1 cmean @ '' valid='' @ show_nat (if valid then 1 else 0)),
             sink_line ((hdr_c_work ^^ length readings) 0)], tr))"

definition handoff_line :: "handoff \<Rightarrow> string" where
  "handoff_line s = ''memory_order example observed='' @ show_int (observed s)"

section \<open>The lines of examples/pmr\<close>

text \<open>What is assumed of the representation: 32 bytes, and these objects can be read back.\<close>

definition order_repr :: "(order_view \<Rightarrow> u8 list) \<Rightarrow> (u8 list \<Rightarrow> order_view) \<Rightarrow> nat \<Rightarrow> bool" where
  "order_repr to_bytes of_bytes n \<longleftrightarrow> (\<forall>w < n. \<forall>ord \<in> {pmr_order1 w, pmr_order2 w}.
     length (to_bytes ord) = 32 \<and> of_bytes (to_bytes ord) = ord)"

lemma pow2_size_8 [simp]: "pow2_size 8"
  unfolding pow2_size_def by (intro exI [of _ 3]) simp

lemma pmr_windows_lines:
  assumes repr: "order_repr to_bytes of_bytes n" and serves: "serves_what_fits 65536 mr"
    and inv: "pmr_inv mr (a, [])" and len: "length (pm_buffer a) = 65536"
  shows "w + k \<le> n \<Longrightarrow> pmr_windows mr to_bytes of_bytes k w a
    = Inr (map (\<lambda>w. pmr_line w (pmr_order1 w) (pmr_order2 w)) [w..<w + k])"
  using inv len
proof (induction k arbitrary: w a)
  case (Suc k)
  have one: "length (to_bytes (pmr_order1 w)) = 32" "of_bytes (to_bytes (pmr_order1 w)) = pmr_order1 w"
    and two: "length (to_bytes (pmr_order2 w)) = 32" "of_bytes (to_bytes (pmr_order2 w)) = pmr_order2 w"
    using repr Suc.prems(1) by (simp_all add: order_repr_def)
  have al: "pow2_size (unat (8 :: size_t))" by simp
  obtain p1 a1 where c1: "pmr_create mr a (to_bytes (pmr_order1 w)) 8 = (Inr p1, a1)"
    and inv1: "pmr_inv mr (a1, [(p1, 32, 8, Some (to_bytes (pmr_order1 w)))])"
    and same1: "length (pm_buffer a1) = 65536"
    by (rule pmr_create_fits [OF Suc.prems(2) _ al, of "to_bytes (pmr_order1 w)"])
      (use serves one Suc.prems(3) in auto)
  obtain p2 a2 where c2: "pmr_create mr a1 (to_bytes (pmr_order2 w)) 8 = (Inr p2, a2)"
    and inv2: "pmr_inv mr (a2, [(p2, 32, 8, Some (to_bytes (pmr_order2 w))),
        (p1, 32, 8, Some (to_bytes (pmr_order1 w)))])"
    and same2: "length (pm_buffer a2) = 65536"
    by (rule pmr_create_fits [OF inv1 _ al, of "to_bytes (pmr_order2 w)"])
      (use serves two same1 in auto)
  have read: "pmr_order_at of_bytes a2 p1 = Inr (pmr_order1 w)" "pmr_order_at of_bytes a2 p2 = Inr (pmr_order2 w)"
    using pmr_object_reads [OF inv2, of p1 32 8 "to_bytes (pmr_order1 w)"]
      pmr_object_reads [OF inv2, of p2 32 8 "to_bytes (pmr_order2 w)"] one two
    by (simp_all add: pmr_order_at_def)
  have "pmr_windows mr to_bytes of_bytes k (Suc w) (pmr_release a2)
      = Inr (map (\<lambda>w. pmr_line w (pmr_order1 w) (pmr_order2 w)) [Suc w..<Suc w + k])"
    using Suc.prems(1) pmr_inv_release [OF inv2] same2
    by (intro Suc.IH) (simp_all add: pmr_release_def)
  moreover have "[w..<w + Suc k] = w # [Suc w..<Suc w + k]" by (simp add: upt_conv_Cons del: upt_Suc)
  ultimately show ?case using c1 c2 read by (simp del: upt_Suc)
qed simp

lemma show_price:
  assumes "numeral k \<le> (2 ^ 53 :: nat)"
  shows "show_fixed (Suc 0) (rd (numeral k)) = show_nat (numeral k) @ ''.0''"
proof -
  have "(numeral k :: int) \<le> 2 ^ 53"
    using assms of_nat_mono [of "numeral k" "2 ^ 53", where 'a = int] by simp
  then have "rd (numeral k) = of_nat (numeral k)" by (simp add: rd_numeral)
  then show ?thesis by (simp only: show_fixed_of_nat) simp
qed

text \<open>
  Whatever address the buffer of the arena has and wherever the resource places its blocks, every
  window of the PMR example prints the two orders it created, in place: the second is not laid over
  the first, and a window uses the memory the release of the one before gave back.
\<close>

theorem pmr_example:
  assumes repr: "order_repr to_bytes of_bytes 3" and data: "unat data + 65536 < 2 ^ 64"
    and mr: "monotonic_resource data 65536 mr" "serves_what_fits 65536 mr"
  shows "pmr_main mr to_bytes of_bytes data
    = Inr [''window=0 AAPL@190.0 MSFT@400.0'', ''window=1 AAPL@191.0 MSFT@401.0'', ''window=2 AAPL@192.0 MSFT@402.0'']"
proof -
  have "pmr_main mr to_bytes of_bytes data
      = Inr (map (\<lambda>w. pmr_line w (pmr_order1 w) (pmr_order2 w)) [0..<0 + 3])"
    unfolding pmr_main_def
    by (rule pmr_windows_lines [OF repr mr(2) pmr_inv_new [OF data mr(1)]]) (simp_all add: pmr_new_def)
  moreover have "pmr_line 0 (pmr_order1 0) (pmr_order2 0) = ''window=0 AAPL@190.0 MSFT@400.0''"
    "pmr_line 1 (pmr_order1 1) (pmr_order2 1) = ''window=1 AAPL@191.0 MSFT@401.0''"
    "pmr_line 2 (pmr_order1 2) (pmr_order2 2) = ''window=2 AAPL@192.0 MSFT@402.0''"
    by (simp_all add: pmr_line_def pmr_order1_def pmr_order2_def show_price show_nat_step digit_chars)
  moreover have "[0..<0 + 3] = [0, 1, 2]" by code_simp
  ultimately show ?thesis by (simp del: upt_Suc)
qed

text \<open>A representation of the six objects.\<close>

definition demo_to_bytes :: "order_view \<Rightarrow> u8 list" where
  "demo_to_bytes ord = replicate 31 0 @ [word_of_int \<lfloor>ov_px ord\<rfloor>]"

definition demo_of_bytes :: "u8 list \<Rightarrow> order_view" where
  "demo_of_bytes bs = (if bs ! 31 \<in> {190, 191, 192} then pmr_order1 (unat (bs ! 31) - 190)
     else pmr_order2 (unat (bs ! 31) - 144))"

theorem pmr_example_witness:
  "pmr_main (bump_up 4099 65536) demo_to_bytes demo_of_bytes 4099
    = Inr [''window=0 AAPL@190.0 MSFT@400.0'', ''window=1 AAPL@191.0 MSFT@401.0'', ''window=2 AAPL@192.0 MSFT@402.0'']"
proof -
  have px: "ov_px (pmr_order1 w) = of_int (190 + int w)" "ov_px (pmr_order2 w) = of_int (400 + int w)" if "w < 3" for w
    using that rd_of_int [of "190 + int w"] rd_of_int [of "400 + int w"]
    by (simp_all add: pmr_order1_def pmr_order2_def)
  have "demo_of_bytes (demo_to_bytes ord) = ord" if "w < 3" "ord \<in> {pmr_order1 w, pmr_order2 w}" for w ord
  proof -
    have "w = 0 \<or> w = 1 \<or> w = 2" using that(1) by linarith
    then show ?thesis using that(2) px [of 0] px [of 1] px [of 2]
      by (auto simp: demo_of_bytes_def demo_to_bytes_def nth_append)
  qed
  then have "order_repr demo_to_bytes demo_of_bytes 3"
    by (auto simp: order_repr_def demo_to_bytes_def)
  moreover have data: "unat (4099 :: u64) + 65536 < 2 ^ 64" by simp
  ultimately show ?thesis
    using pmr_example [OF _ data bump_up_monotonic [OF data] bump_up_serves [OF data]] by blast
qed

section \<open>The sums\<close>

lemma funpow_fold: "(fold f xs ^^ n) s = fold f (concat (replicate n xs)) s"
  by (induction n arbitrary: s) (simp_all add: funpow_Suc_right del: funpow.simps(2))

lemma sum_list_rounds: "(\<Sum>k\<leftarrow>concat (replicate n ks). f k) = of_nat n * (\<Sum>k\<leftarrow>ks. f k :: 'a :: comm_semiring_1)"
  by (induction n) (simp_all add: distrib_right)

lemma milli: "\<bar>rd (1 / 1000) - 1 / 1000\<bar> \<le> p2 (- 63)"
  using rd_absolute [of "1 / 1000" "- 10"] by (simp add: p2_def)

text \<open>
  The exact sum is 1.225 a round. The error of 500000 additions whose results stay below 2^14 is
  less than half of the sixth decimal.
\<close>

lemma hdr_sink_close: "\<bar>hdr_sink contract 10000 - 12250\<bar> * 10 ^ 6 < 1 / 2" and hdr_sink_pos: "0 \<le> hdr_sink contract 10000"
proof -
  let ?c = "rd (1 / 1000)" and ?ks = "concat (replicate 10000 [0..<50])"
  define e where "e = p2 (13 - 53) + p2 (- 5 - 53)"
  have e: "e = 1 / 2 ^ 40 + 1 / 2 ^ 58" by (simp add: e_def p2_def)
  have "\<bar>?c - 1 / 1000\<bar> \<le> 1 / 2 ^ 63" using milli by (simp add: p2_def)
  from abs_le_D1 [OF this] abs_le_D2 [OF this]
  have c: "?c \<le> 1 / 1000 + 1 / 2 ^ 63" "1 / 1000 - 1 / 2 ^ 63 \<le> ?c" by linarith+
  have c0: "0 \<le> ?c" using c(2) by (simp add: power_divide)
  have len: "length ?ks = 500000" by (simp add: length_concat sum_list_replicate)
  have one: "(\<Sum>k\<leftarrow>[0..<50]. of_nat k * ?c) = 1225 * ?c" by (simp add: upt_rec)
  have sum: "(\<Sum>k\<leftarrow>?ks. of_nat k * ?c) = 12250000 * ?c" unfolding sum_list_rounds one by simp
  have ks: "\<forall>k \<in> set ?ks. of_nat k * ?c < p2 (- 5 + 1)"
  proof
    fix k assume "k \<in> set ?ks"
    then have "k \<le> 50" by auto
    then have "of_nat k * ?c \<le> 50 * ?c" using c0 by (intro mult_right_mono) simp_all
    then show "of_nat k * ?c < p2 (- 5 + 1)" using c(1) by (simp add: p2_def)
  qed
  have room: "0 + (\<Sum>k\<leftarrow>?ks. of_nat k * ?c) + 0 + of_nat (length ?ks) * (p2 (13 - 53) + p2 (- 5 - 53)) < p2 (13 + 1)"
    unfolding sum len e_def [symmetric] e using c(1) by (simp add: p2_def)
  have eq: "hdr_sink contract 10000 = fold (add_product contract ?c) ?ks 0"
    unfolding hdr_sink_def hdr_work_def funpow_fold ..
  have "\<bar>hdr_sink contract 10000 - 12250000 * ?c\<bar> \<le> 500000 * e"
    using add_products_error [OF c0 _ _ ks _ _ _ room, where contract = contract]
    unfolding sum len e_def [symmetric] eq by simp
  from abs_le_D1 [OF this] abs_le_D2 [OF this] c
  have "hdr_sink contract 10000 - 12250 < 1 / 2000000" "- (hdr_sink contract 10000 - 12250) < 1 / 2000000"
    unfolding e by simp_all
  then show "\<bar>hdr_sink contract 10000 - 12250\<bar> * 10 ^ 6 < 1 / 2" "0 \<le> hdr_sink contract 10000"
    by (auto simp: abs_if)
qed

lemma add_integers:
  "0 \<le> m \<Longrightarrow> m + (\<Sum>k\<leftarrow>ks. int k) \<le> 2 ^ 53 \<Longrightarrow>
    fold (\<lambda>k sink. rd (sink + of_nat k)) ks (of_int m) = of_int (m + (\<Sum>k\<leftarrow>ks. int k))"
proof (induction ks arbitrary: m)
  case (Cons k ks)
  have "0 \<le> (\<Sum>k\<leftarrow>ks. int k)" by (intro sum_list_nonneg) auto
  then have "rd (of_int (m + int k)) = of_int (m + int k)" using Cons.prems by (intro rd_of_int) simp
  then show ?case using Cons.IH [of "m + int k"] Cons.prems by (simp add: add.assoc)
qed simp

lemma hdr_c_sink:
  assumes "190 * int n \<le> 2 ^ 53"
  shows "(hdr_c_work ^^ n) 0 = of_int (190 * int n)"
proof -
  have "(\<Sum>k\<leftarrow>[0..<20]. int k) = 190" by (simp add: upt_rec)
  then have sum: "(\<Sum>k\<leftarrow>concat (replicate n [0..<20]). int k) = 190 * int n"
    by (simp only: sum_list_rounds mult.commute)
  have "(hdr_c_work ^^ n) 0 = (fold (\<lambda>k sink. rd (sink + of_nat k)) [0..<20] ^^ n) (of_int 0)"
    unfolding hdr_c_work_def [abs_def] by simp
  also have "\<dots> = of_int (0 + (\<Sum>k\<leftarrow>concat (replicate n [0..<20]). int k))"
    unfolding funpow_fold by (rule add_integers) (use assms sum in simp_all)
  finally show ?thesis using sum by simp
qed

section \<open>The lines\<close>

lemma zeros: "replicate 2 (CHR ''0'') = ''00''" "replicate 6 (CHR ''0'') = ''000000''"
  by code_simp+

theorem arena_output_lines:
  assumes "8 dvd unat data" and "unat data + 65536 + 8 \<le> 2 ^ 64"
  shows "arena_output data = Inr [''window=0 notional=5830.00 arena_used=160'',
    ''window=1 notional=5830.00 arena_used=160'', ''window=2 notional=5830.00 arena_used=160'']"
proof -
  have "arena_main data = Inr [(5830, 160), (5830, 160), (5830, 160)]"
    using arena_windows_lines [of "arena_new data 65536" 3] assms
    by (simp add: arena_main_def arena_new_def arena_inv_def numeral_3_eq_3)
  moreover have "show_nat 5830 = ''5830''" by (simp add: show_nat_step digit_chars)
  then have "show_fixed 2 5830 = ''5830.00''" using show_fixed_of_nat [of 2 5830] by (simp add: zeros)
  ultimately show ?thesis
    by (simp add: arena_output_def arena_line_def show_nat_step digit_chars flip: numeral_2_eq_2)
qed

text \<open>
  C32: the histogram example, for any readings of the clock, and whether or not the compiler contracts
  the sum to fused multiply-adds: it prints as many samples as it took, percentiles in ascending
  order and the largest sample; and although almost every of the 500000 additions to \<open>sink\<close> is
  rounded, what it prints for their sum is the exact one.
\<close>

theorem hdr_output_lines:
  assumes n: "length readings = 10000"
  shows "\<exists>mean (p50 :: u64) p99 p999. p50 \<le> p99 \<and> p99 \<le> p999
    \<and> hdr_output contract readings =
      Inr [''samples=10000 mean='' @ printf_f 1 mean @ '' p50='' @ show_nat (unat p50)
             @ '' p99='' @ show_nat (unat p99) @ '' p99.9='' @ show_nat (unat p999)
             @ '' max='' @ show_nat (unat (Max (set (map (\<lambda>(t0, t1). steady_ns t1 - steady_ns t0) readings)))) @ '' ns'',
           ''sink=12250.000000'']"
proof -
  have "readings \<noteq> []" "length readings \<le> 2 ^ 53" using n by auto
  from hdr_example [OF this] obtain mean p50 p99 p999 where
    main: "hdr_main readings = Inr (word_of_nat 10000, mean, p50, p99, p999,
      Max (set (map (\<lambda>(t0, t1). steady_ns t1 - steady_ns t0) readings)))" and "p50 \<le> p99" "p99 \<le> p999"
    unfolding n by blast
  moreover have "show_nat 10000 = ''10000''" "show_nat 12250 = ''12250''"
    by (simp_all add: show_nat_step digit_chars)
  moreover have "sink_line (hdr_sink contract 10000) = ''sink=12250.000000''"
    using show_fixed_near [OF hdr_sink_pos, of contract 12250 6] hdr_sink_close [of contract]
      \<open>show_nat 12250 = ''12250''\<close>
    by (simp add: sink_line_def zeros)
  ultimately have "p50 \<le> p99 \<and> p99 \<le> p999 \<and> hdr_output contract readings =
      Inr [''samples=10000 mean='' @ printf_f 1 mean @ '' p50='' @ show_nat (unat p50)
             @ '' p99='' @ show_nat (unat p99) @ '' p99.9='' @ show_nat (unat p999)
             @ '' max='' @ show_nat (unat (Max (set (map (\<lambda>(t0, t1). steady_ns t1 - steady_ns t0) readings)))) @ '' ns'',
           ''sink=12250.000000'']"
    using n by (simp add: hdr_output_def)
  then show ?thesis by blast
qed

theorem hdr_output_lines_witness:
  "\<exists>line. hdr_output True (replicate 10000 (3, 5)) = Inr [line, ''sink=12250.000000'']"
proof -
  have "length (replicate 10000 (3 :: int, 5 :: int)) = 10000" by (rule length_replicate)
  from hdr_output_lines [OF this, of True] show ?thesis by blast
qed

text \<open>The two columns of \<open>examples/hdr_c\<close>, and a sum that is exact.\<close>

theorem hdr_c_output_lines:
  assumes n: "length readings = 5000"
  shows "\<exists>(p99 :: u64) line2 tr. hdr_c_output env has readings
      = Inr ([''portable p99='' @ show_nat (unat p99) @ '' max='' @ show_nat (unat (Max (set (hdr_c_durations readings)))),
          line2, ''sink=950000.000000''], tr)
    \<and> follow hdr_trans None tr = Some None"
proof -
  have "readings \<noteq> []" "length readings \<le> 2 ^ 53" using n by auto
  from hdr_c_example [OF this, of env has] obtain p99 line2 tr where
    main: "hdr_c_main env has readings = Inr ((p99, Max (set (hdr_c_durations readings))), line2, tr)"
    and tr: "follow hdr_trans None tr = Some None" by blast
  have sink: "sink_line ((hdr_c_work ^^ 5000) 0) = ''sink=950000.000000''"
  proof -
    have "show_nat 950000 = ''950000''" by (simp add: show_nat_step digit_chars)
    moreover have "(hdr_c_work ^^ 5000) 0 = of_nat 950000" using hdr_c_sink [of 5000] by simp
    ultimately show ?thesis unfolding sink_line_def by (simp only: show_fixed_of_nat zeros) simp
  qed
  obtain line where "hdr_c_output env has readings
      = Inr ([''portable p99='' @ show_nat (unat p99) @ '' max='' @ show_nat (unat (Max (set (hdr_c_durations readings)))),
          line, ''sink=950000.000000''], tr)"
    using main n sink by (simp add: hdr_c_output_def)
  with tr show ?thesis by blast
qed

text \<open>After the handoff the program prints what was sent.\<close>

theorem handoff_prints:
  assumes "handoff_reach Release Acquire s" and "h_consumer s = Consumer_Done"
  shows "handoff_line s = ''memory_order example observed=42''"
proof -
  have "observed s = 42" using handoff_reach_inv [OF assms(1)] assms(2) by (simp add: handoff_inv_def Let_def)
  then show ?thesis by (simp add: handoff_line_def show_int_def show_nat_step digit_chars)
qed

end
