(* ===== verification/SmokeMain.thy ===== *)
theory SmokeMain
  imports FifoSpec Decimal "HOL-Library.Multiset" "HOL-Library.Sublist" "HOL-Library.Countable"
    "HOL-Library.AList"
begin

text \<open>
  \<open>src/main.cpp\<close>, the smoke test of the installed libraries: its checks and their accounting, and
  the code it hands to the libraries: the lambdas of the parallel reduction, the tasks of the task
  graph, handlers and continuations. A library is a field of \<open>smoke_libs\<close>, a function of what the
  program passes to it; \<open>documented\<close> is what the program relies on.
\<close>

section \<open>Parallel reductions\<close>

text \<open>
  How \<open>tbb::parallel_reduce\<close> may work through a range: run the body on all of it, split it and go
  on with the value of the left part, or start the right part afresh and join the two values.
\<close>

datatype split = Whole | Continue int split split | Join int split split

text \<open>The body: \<open>for (int i = r.begin(); i != r.end(); ++i) local += i\<close>.\<close>

fun tbb_body :: "nat \<Rightarrow> int \<Rightarrow> int \<Rightarrow> int res" where
  "tbb_body 0 i local = Inr local"
| "tbb_body (Suc k) i local = res_bind (add_int local i) (tbb_body k (i + 1))"

fun tbb_reduce :: "split \<Rightarrow> int \<Rightarrow> int \<Rightarrow> int \<Rightarrow> int res" where
  "tbb_reduce Whole lo hi v = tbb_body (nat (hi - lo)) lo v"
| "tbb_reduce (Continue m l r) lo hi v = res_bind (tbb_reduce l lo m v) (tbb_reduce r m hi)"
| "tbb_reduce (Join m l r) lo hi v =
     res_bind (tbb_reduce l lo m v) (\<lambda>a. res_bind (tbb_reduce r m hi 0) (add_int a))"

fun splits :: "split \<Rightarrow> int \<Rightarrow> int \<Rightarrow> bool" where
  "splits Whole lo hi \<longleftrightarrow> lo \<le> hi"
| "splits (Continue m l r) lo hi \<longleftrightarrow> splits l lo m \<and> splits r m hi"
| "splits (Join m l r) lo hi \<longleftrightarrow> splits l lo m \<and> splits r m hi"

text \<open>\<open>hpx::reduce\<close> may add the elements in any order and grouping.\<close>

datatype grouping = Element int | Plus grouping grouping

fun elements :: "grouping \<Rightarrow> int multiset" where
  "elements (Element x) = {#x#}"
| "elements (Plus a b) = elements a + elements b"

fun grouped_sum :: "grouping \<Rightarrow> int res" where
  "grouped_sum (Element x) = Inr x"
| "grouped_sum (Plus a b) = res_bind (grouped_sum a) (\<lambda>x. res_bind (grouped_sum b) (add_int x))"

lemma splits_le: "splits t lo hi \<Longrightarrow> lo \<le> hi"
  by (induction t arbitrary: lo hi) force+

definition range_sum :: "int \<Rightarrow> int \<Rightarrow> int" where
  "range_sum lo hi = (\<Sum>i\<in>{lo..<hi}. i)"

lemma range_sum_split: "lo \<le> m \<Longrightarrow> m \<le> hi \<Longrightarrow> range_sum lo hi = range_sum lo m + range_sum m hi"
  unfolding range_sum_def by (simp add: sum.union_disjoint [symmetric] ivl_disj_un ivl_disj_int)

lemma range_sum_step: "lo < hi \<Longrightarrow> range_sum lo hi = lo + range_sum (lo + 1) hi"
proof -
  assume "lo < hi"
  moreover have "{lo..<lo + 1} = {lo}" by auto
  ultimately show ?thesis using range_sum_split [of lo "lo + 1" hi] by (simp add: range_sum_def)
qed

lemma range_sum_nonneg: "0 \<le> lo \<Longrightarrow> 0 \<le> range_sum lo hi"
  unfolding range_sum_def by (rule sum_nonneg) simp

lemma add_int_ok: "0 \<le> a \<Longrightarrow> 0 \<le> b \<Longrightarrow> a + b < 2 ^ 31 \<Longrightarrow> add_int a b = Inr (a + b)"
  by (simp add: add_int_def)

lemma tbb_body_sum:
  assumes "0 \<le> lo" and "0 \<le> v" and "v + range_sum lo (lo + int k) < 2 ^ 31"
  shows "tbb_body k lo v = Inr (v + range_sum lo (lo + int k))"
  using assms
proof (induction k arbitrary: lo v)
  case (Suc k)
  have step: "range_sum lo (lo + int (Suc k)) = lo + range_sum (lo + 1) (lo + 1 + int k)"
    using range_sum_step [of lo "lo + int (Suc k)"] by (simp add: algebra_simps)
  have "0 \<le> range_sum (lo + 1) (lo + 1 + int k)" using Suc.prems by (intro range_sum_nonneg) simp
  then have "add_int v lo = Inr (v + lo)" using Suc.prems step by (intro add_int_ok) linarith+
  moreover have "tbb_body k (lo + 1) (v + lo) = Inr (v + lo + range_sum (lo + 1) (lo + 1 + int k))"
    using Suc.prems step by (intro Suc.IH) linarith+
  ultimately show ?case unfolding step by simp
qed (simp add: range_sum_def)

text \<open>Every way to split the range gives its sum, and no intermediate sum overflows.\<close>

lemma tbb_reduce_sum:
  assumes "splits t lo hi" and "0 \<le> lo" and "0 \<le> v" and "v + range_sum lo hi < 2 ^ 31"
  shows "tbb_reduce t lo hi v = Inr (v + range_sum lo hi)"
  using assms
proof (induction t arbitrary: lo hi v)
  case Whole
  then show ?case using tbb_body_sum [of lo v "nat (hi - lo)"] by simp
next
  case (Continue m l r)
  have m: "lo \<le> m" "m \<le> hi" using Continue.prems(1) by (auto dest: splits_le)
  note sum = range_sum_split [OF m] range_sum_nonneg [of lo m] range_sum_nonneg [of m hi]
  have "tbb_reduce l lo m v = Inr (v + range_sum lo m)"
    using Continue.prems sum m by (intro Continue.IH(1)) simp_all
  moreover have "tbb_reduce r m hi (v + range_sum lo m) = Inr (v + range_sum lo m + range_sum m hi)"
    using Continue.prems sum m by (intro Continue.IH(2)) simp_all
  ultimately show ?case by (simp add: sum(1))
next
  case (Join m l r)
  have m: "lo \<le> m" "m \<le> hi" using Join.prems(1) by (auto dest: splits_le)
  note sum = range_sum_split [OF m] range_sum_nonneg [of lo m] range_sum_nonneg [of m hi]
  have "tbb_reduce l lo m v = Inr (v + range_sum lo m)"
    using Join.prems sum m by (intro Join.IH(1)) simp_all
  moreover have "tbb_reduce r m hi 0 = Inr (0 + range_sum m hi)"
    using Join.prems sum m by (intro Join.IH(2)) simp_all
  moreover have "add_int (v + range_sum lo m) (range_sum m hi) = Inr (v + range_sum lo m + range_sum m hi)"
    using Join.prems sum m by (intro add_int_ok) simp_all
  ultimately show ?case by (simp add: sum(1))
qed

lemma sum_mset_ge_0: "\<forall>x \<in># M. (0 :: int) \<le> x \<Longrightarrow> 0 \<le> sum_mset M"
  by (induction M) auto

lemma grouped_sum_all:
  assumes "\<forall>x \<in># elements g. 0 \<le> x" and "sum_mset (elements g) < 2 ^ 31"
  shows "grouped_sum g = Inr (sum_mset (elements g)) \<and> 0 \<le> sum_mset (elements g)"
  using assms
proof (induction g)
  case (Plus a b)
  have "0 \<le> sum_mset (elements a)" "0 \<le> sum_mset (elements b)"
    using Plus.prems(1) by (auto intro!: sum_mset_ge_0)
  then show ?case using Plus by (auto simp: add_int_ok)
qed simp

section \<open>The libraries\<close>

text \<open>
  What the program passes to the libraries and reads from them. Text arguments are strings or
  integers; JSON values are those of flat objects; \<open>smoke_ping\<close> is the message of
  \<open>proto/smoke.proto\<close>; an HTTP request has the parts the program sets. \<open>std::atomic<int>\<close> is a
  32-bit word, whose addition wraps around.
\<close>

datatype text_arg = Text string | Number int

fun arg_text :: "text_arg \<Rightarrow> string" where
  "arg_text (Text t) = t"
| "arg_text (Number n) = show_int n"

datatype json = JString string | JBool bool | JInt int

record smoke_ping =
  ping_name :: string
  ping_count :: int
  ping_tags :: "string list"

record http_request =
  http_method :: string
  http_target :: string
  http_version :: int
  http_fields :: "(string \<times> string) list"
  http_body :: string

record 'm smoke_libs =
  has_folly :: bool
  has_hpx :: bool
  fmt_format :: "string \<Rightarrow> text_arg list \<Rightarrow> string"
  fmt_version :: int
  spdlog_ver_major :: int
  str_cat :: "text_arg list \<Rightarrow> string"
  str_format :: "string \<Rightarrow> text_arg list \<Rightarrow> string"
  boost_version :: int
  beast_version :: int
  asio_run :: "(u32 \<Rightarrow> u32) list \<Rightarrow> u32 \<Rightarrow> u32"
  timer_run :: "int \<Rightarrow> (bool \<Rightarrow> bool \<Rightarrow> bool) \<Rightarrow> bool \<Rightarrow> bool"
  beast_set :: "string \<Rightarrow> string \<Rightarrow> http_request \<Rightarrow> http_request"
  beast_prepare :: "http_request \<Rightarrow> http_request"
  tbb_split :: "int \<Rightarrow> int \<Rightarrow> split"
  task_order :: "nat \<Rightarrow> (nat \<times> nat) list \<Rightarrow> nat list"
  rv3_iota :: "int \<Rightarrow> int \<Rightarrow> int list"
  rv3_transform :: "(int \<Rightarrow> int res) \<Rightarrow> int list \<Rightarrow> int list res"
  rv3_accumulate :: "int list \<Rightarrow> int \<Rightarrow> int res"
  nlohmann_at :: "(string \<times> json) list \<Rightarrow> string \<Rightarrow> json option"
  simdjson_string :: "string \<Rightarrow> string \<Rightarrow> string res"
  simdjson_bool :: "string \<Rightarrow> string \<Rightarrow> bool res"
  eigen_product :: "(rat \<times> rat) \<times> (rat \<times> rat) \<Rightarrow> rat \<times> rat \<Rightarrow> rat \<times> rat"
  pb_serialize :: "smoke_ping \<Rightarrow> bool \<times> u8 list"
  pb_parse :: "u8 list \<Rightarrow> bool \<times> smoke_ping"
  grpc_version :: string
  pool_run :: "(u32 \<Rightarrow> u32) \<Rightarrow> u32 \<Rightarrow> u32"
  fb_append :: "string \<Rightarrow> string \<Rightarrow> string"
  folly_optional :: "int \<Rightarrow> int option"
  f14_empty :: 'm
  f14_put :: "string \<Rightarrow> int \<Rightarrow> 'm \<Rightarrow> 'm"
  f14_get :: "string \<Rightarrow> 'm \<Rightarrow> int option"
  f14_size :: "'m \<Rightarrow> nat"
  folly_join :: "string \<Rightarrow> string list \<Rightarrow> string"
  hpx_then :: "int \<Rightarrow> (int \<Rightarrow> int res) \<Rightarrow> int res"
  hpx_grouping :: "int list \<Rightarrow> int \<Rightarrow> grouping"

section \<open>Checks\<close>

record smoke =
  g_passed :: int
  g_failed :: int
  printed :: "string list"
  logged :: "string list"

definition smoke_start :: smoke where
  "smoke_start = \<lparr>g_passed = 0, g_failed = 0, printed = [], logged = []\<rparr>"

text \<open>\<open>fmt::print\<close> of one line; the ends of the lines and the blank lines are left out, and
  dashes are ASCII.\<close>

definition fmt_print :: "'m smoke_libs \<Rightarrow> string \<Rightarrow> text_arg list \<Rightarrow> smoke \<Rightarrow> smoke" where
  "fmt_print L f args s = s\<lparr>printed := printed s @ [fmt_format L f args]\<rparr>"

text \<open>The macro \<open>CHECK(cond, name)\<close>.\<close>

definition check :: "'m smoke_libs \<Rightarrow> bool \<Rightarrow> string \<Rightarrow> smoke \<Rightarrow> smoke" where
  "check L cond name s =
     (if cond then (let s = fmt_print L ''  [PASS] {}'' [Text name] s in s\<lparr>g_passed := g_passed s + 1\<rparr>)
      else (let s = fmt_print L ''  [FAIL] {}'' [Text name] s in s\<lparr>g_failed := g_failed s + 1\<rparr>))"

section \<open>The groups of checks\<close>

text \<open>\<open>std::string::find(sub) != npos\<close>.\<close>

definition contains_text :: "string \<Rightarrow> string \<Rightarrow> bool" where
  "contains_text t sub = list_ex (prefix sub) (suffixes t)"

definition smoke_fmt_spdlog :: "'m smoke_libs \<Rightarrow> smoke \<Rightarrow> smoke res" where
  "smoke_fmt_spdlog L s =
     (let s = fmt_print L ''== fmt + spdlog =='' [] s;
          t = fmt_format L ''fmt {} works'' [Number (fmt_version L)];
          s = check L (contains_text t ''works'') ''fmt::format'' s;
          s = s\<lparr>logged := logged s
            @ [fmt_format L ''spdlog ok (version major={})'' [Number (spdlog_ver_major L)]]\<rparr>
      in Inr (check L True ''spdlog'' s))"

definition smoke_abseil :: "'m smoke_libs \<Rightarrow> smoke \<Rightarrow> smoke res" where
  "smoke_abseil L s =
     (let s = fmt_print L ''== abseil =='' [] s;
          cat = str_cat L [Text ''hello'', Text ''-'', Number 42];
          s = check L (cat = ''hello-42'') ''absl::StrCat'' s;
          formatted = str_format L ''count=%d'' [Number 7]
      in Inr (check L (formatted = ''count=7'') ''absl::StrFormat'' s))"

definition smoke_request :: "'m smoke_libs \<Rightarrow> http_request" where
  "smoke_request L =
     (let req = \<lparr>http_method = ''GET'', http_target = ''/smoke'', http_version = 11, http_fields = [],
                 http_body = ''''\<rparr>;
          req = beast_set L ''Host'' ''localhost'' req;
          req = beast_set L ''User-Agent'' ''lib_smoke'' req
      in beast_prepare L (req\<lparr>http_body := ''ping''\<rparr>))"

definition smoke_boost_beast_asio :: "'m smoke_libs \<Rightarrow> smoke \<Rightarrow> smoke res" where
  "smoke_boost_beast_asio L s =
     (let s = fmt_print L ''== boost (Beast + Asio) + standalone asio =='' [] s;
          s = check L (boost_version L \<ge> 109000) ''Boost version >= 1.90'' s;
          s = check L (beast_version L > 0) ''Boost.Beast header'' s;
          hit = asio_run L [\<lambda>hit. hit + 1] 0;
          s = check L (hit = 1) ''standalone Asio post/run'' s;
          fired = timer_run L 1 (\<lambda>ec fired. if \<not> ec then True else fired) False;
          s = check L fired ''Boost.Asio steady_timer'' s;
          req = smoke_request L;
          s = check L (http_method req = ''GET'') ''Beast HTTP request'' s
      in Inr (check L (http_body req = ''ping'') ''Beast HTTP body'' s))"

definition smoke_tbb :: "'m smoke_libs \<Rightarrow> smoke \<Rightarrow> smoke res" where
  "smoke_tbb L s =
     (let s = fmt_print L ''== oneTBB =='' [] s; n = 10000 in
      res_bind (tbb_reduce (tbb_split L 0 n) 0 n 0) (\<lambda>sum.
      Inr (check L (sum = (n - 1) * n div 2) ''tbb::parallel_reduce sum'' s)))"

definition smoke_taskflow :: "'m smoke_libs \<Rightarrow> smoke \<Rightarrow> smoke res" where
  "smoke_taskflow L s =
     (let s = fmt_print L ''== Taskflow =='' [] s;
          tasks = [\<lambda>acc. acc + 1, \<lambda>acc. acc + 10, \<lambda>acc. acc + 100];
          acc = fold (\<lambda>i. tasks ! i) (task_order L 3 [(0, 1), (1, 2)]) (0 :: u32)
      in Inr (check L (acc = 111) ''Taskflow A->B->C graph'' s))"

definition mul_int :: "int \<Rightarrow> int \<Rightarrow> int res" where
  "mul_int a b = (if - (2 ^ 31) \<le> a * b \<and> a * b < 2 ^ 31 then Inr (a * b) else Inl Signed_Overflow)"

definition smoke_range_v3 :: "'m smoke_libs \<Rightarrow> smoke \<Rightarrow> smoke res" where
  "smoke_range_v3 L s =
     (let s = fmt_print L ''== range-v3 =='' [] s in
      res_bind (rv3_transform L (\<lambda>x. mul_int x x) (rv3_iota L 1 6)) (\<lambda>squares.
      res_bind (rv3_accumulate L squares 0) (\<lambda>sum.
      Inr (check L (sum = 55) ''range-v3 iota|transform|accumulate'' s))))"

definition smoke_payload :: string where
  "smoke_payload = ''{\"lib\":\"simdjson\",\"ok\":true,\"n\":3}''"

definition smoke_json :: "'m smoke_libs \<Rightarrow> smoke \<Rightarrow> smoke res" where
  "smoke_json L s =
     (let s = fmt_print L ''== nlohmann-json + simdjson =='' [] s;
          j = [(''lib'', JString ''nlohmann''), (''ok'', JBool True), (''n'', JInt 3)];
          s = check L (nlohmann_at L j ''ok'' = Some (JBool True)) ''nlohmann::json round-trip'' s
      in
      res_bind (simdjson_string L smoke_payload ''lib'') (\<lambda>lib.
      res_bind (simdjson_bool L smoke_payload ''ok'') (\<lambda>ok.
      Inr (check L (lib = ''simdjson'' \<and> ok) ''simdjson ondemand parse'' s))))"

definition smoke_eigen :: "'m smoke_libs \<Rightarrow> smoke \<Rightarrow> smoke res" where
  "smoke_eigen L s =
     (let s = fmt_print L ''== Eigen =='' [] s;
          r = eigen_product L ((1, 2), (3, 4)) (1, 1)
      in Inr (check L (fst r = 3 \<and> snd r = 7) ''Eigen Matrix*Vector'' s))"

text \<open>
  \<open>SerializeToString\<close> and \<open>ParseFromString\<close> return whether they succeeded, and what they left in
  the string or the message.
\<close>

definition empty_ping :: smoke_ping where
  "empty_ping = \<lparr>ping_name = '''', ping_count = 0, ping_tags = []\<rparr>"

definition smoke_protobuf_grpc :: "'m smoke_libs \<Rightarrow> smoke \<Rightarrow> smoke res" where
  "smoke_protobuf_grpc L s =
     (let s = fmt_print L ''== protobuf + gRPC =='' [] s;
          ping = empty_ping\<lparr>ping_name := ''lib_smoke'', ping_count := 2\<rparr>;
          ping = ping\<lparr>ping_tags := ping_tags ping @ [''homebrew'']\<rparr>;
          ping = ping\<lparr>ping_tags := ping_tags ping @ [''cpp26'']\<rparr>;
          (serialized, bytes) = pb_serialize L ping;
          s = check L (serialized \<and> bytes \<noteq> []) ''protobuf serialize'' s;
          (parsed, restored) = pb_parse L bytes;
          s = check L parsed ''protobuf parse'' s;
          s = check L (ping_name restored = ''lib_smoke'' \<and> length (ping_tags restored) = 2)
                ''protobuf fields'' s;
          ver = grpc_version L
      in Inr (check L (ver \<noteq> '''') (fmt_format L ''gRPC version ({})'' [Text ver]) s))"

definition smoke_stdexec :: "'m smoke_libs \<Rightarrow> smoke \<Rightarrow> smoke res" where
  "smoke_stdexec L s =
     (let s = fmt_print L ''== stdexec (FetchContent) =='' [] s;
          v = pool_run L (\<lambda>_. 42) 0
      in Inr (check L (v = 42) ''stdexec schedule|then|sync_wait'' s))"

definition smoke_folly :: "'m smoke_libs \<Rightarrow> smoke \<Rightarrow> smoke res" where
  "smoke_folly L s =
     (let s = fmt_print L ''== Folly (Homebrew) =='' [] s;
          t = fb_append L ''hello'' ''-folly'';
          s = check L (t = ''hello-folly'') ''folly::fbstring'' s;
          opt = folly_optional L 7;
          s = check L (case opt of None \<Rightarrow> False | Some x \<Rightarrow> x = 7) ''folly::Optional'' s;
          m = f14_put L ''b'' 2 (f14_put L ''a'' 1 (f14_empty L));
          s = check L (f14_size L m = 2 \<and> f14_get L ''a'' m = Some 1) ''folly::F14FastMap'' s;
          joined = folly_join L '','' [''x'', ''y'', ''z'']
      in Inr (check L (joined = ''x,y,z'') ''folly::join'' s))"

definition smoke_hpx :: "'m smoke_libs \<Rightarrow> smoke \<Rightarrow> smoke res" where
  "smoke_hpx L s =
     (let s = fmt_print L ''== HPX (local install) =='' [] s in
      res_bind (hpx_then L 21 (\<lambda>r. mul_int r 2)) (\<lambda>f.
      let s = check L (f = 42) ''hpx future then'' s;
          data = [1..1000]
      in
      res_bind (grouped_sum (hpx_grouping L data 0)) (\<lambda>sum.
      Inr (check L (sum = 1000 * 1001 div 2) ''hpx::reduce par'' s))))"

section \<open>The program\<close>

fun run_groups :: "(smoke \<Rightarrow> smoke res) list \<Rightarrow> smoke \<Rightarrow> smoke res" where
  "run_groups [] s = Inr s"
| "run_groups (g # gs) s = res_bind (g s) (run_groups gs)"

definition on_off :: "bool \<Rightarrow> string" where
  "on_off b = (if b then ''ON'' else ''OFF'')"

text \<open>\<open>main\<close>: the exit code and what was counted, printed and logged.\<close>

definition smoke_main :: "'m smoke_libs \<Rightarrow> (int \<times> smoke) res" where
  "smoke_main L =
     (let s = fmt_print L ''lib_smoke - C++26 library installation verifier'' [] smoke_start;
          s = fmt_print L ''compiler: Apple/LLVM, standard c++26'' [] s;
          s = fmt_print L ''optional: Folly={} HPX={}'' [Text (on_off (has_folly L)), Text (on_off (has_hpx L))] s
      in
      res_bind (run_groups
        ([smoke_fmt_spdlog L, smoke_abseil L, smoke_boost_beast_asio L, smoke_tbb L, smoke_taskflow L,
          smoke_range_v3 L, smoke_json L, smoke_eigen L, smoke_protobuf_grpc L, smoke_stdexec L]
         @ (if has_folly L then [smoke_folly L] else [])
         @ (if has_hpx L then [smoke_hpx L] else [])) s) (\<lambda>s.
      let s = fmt_print L ''Summary: {} passed, {} failed'' [Number (g_passed s), Number (g_failed s)] s
      in Inr (if g_failed s = 0 then 0 else 1, s)))"

section \<open>What the libraries promise\<close>

text \<open>
  Text: the value goes to the place of a format that has no other brace, or no other percent sign;
  in {fmt} a brace of either kind that is not part of a place is an error or doubled.
\<close>

definition fits_arg :: "text_arg \<Rightarrow> bool" where
  "fits_arg a \<longleftrightarrow> (case a of Text t \<Rightarrow> True | Number n \<Rightarrow> - (2 ^ 31) \<le> n \<and> n < 2 ^ 31)"

definition documented_text :: "'m smoke_libs \<Rightarrow> bool" where
  "documented_text L \<longleftrightarrow>
     (\<forall>pre a post. CHR ''{'' \<notin> set (pre @ post) \<longrightarrow> CHR ''}'' \<notin> set (pre @ post) \<longrightarrow> fits_arg a \<longrightarrow>
        fmt_format L (pre @ ''{}'' @ post) [a] = pre @ arg_text a @ post)
   \<and> (\<forall>args. list_all fits_arg args \<longrightarrow> str_cat L args = concat (map arg_text args))
   \<and> (\<forall>pre n. CHR ''%'' \<notin> set pre \<longrightarrow> fits_arg (Number n) \<longrightarrow>
        str_format L (pre @ ''%d'') [Number n] = pre @ show_int n)
   \<and> fits_arg (Number (fmt_version L))"

text \<open>
  Handlers: each one that was given runs once, in any order; a timer that is not cancelled runs its
  handler without an error; the executor runs each task of an acyclic graph once.
\<close>

definition documented_handlers :: "'m smoke_libs \<Rightarrow> bool" where
  "documented_handlers L \<longleftrightarrow>
     (\<forall>hs x. \<exists>hs'. mset hs' = mset hs \<and> asio_run L hs x = fold (\<lambda>h. h) hs' x)
   \<and> (\<forall>ms h x. timer_run L ms h x = h False x)
   \<and> (\<forall>n es. (\<forall>(a, b) \<in> set es. a < b \<and> b < n) \<longrightarrow> mset (task_order L n es) = mset [0..<n])
   \<and> (\<forall>f x. pool_run L f x = f x)
   \<and> (\<forall>x f. hpx_then L x f = f x)"

text \<open>Ranges and sums: any split of a range, any order and grouping of a sum.\<close>

fun res_map :: "('a \<Rightarrow> 'b res) \<Rightarrow> 'a list \<Rightarrow> 'b list res" where
  "res_map f [] = Inr []"
| "res_map f (x # xs) = res_bind (f x) (\<lambda>y. res_bind (res_map f xs) (\<lambda>ys. Inr (y # ys)))"

fun res_sum :: "int list \<Rightarrow> int \<Rightarrow> int res" where
  "res_sum [] a = Inr a"
| "res_sum (x # xs) a = res_bind (add_int a x) (res_sum xs)"

definition documented_sums :: "'m smoke_libs \<Rightarrow> bool" where
  "documented_sums L \<longleftrightarrow>
     (\<forall>lo hi. lo \<le> hi \<longrightarrow> splits (tbb_split L lo hi) lo hi)
   \<and> (\<forall>lo hi. lo \<le> hi \<longrightarrow> rv3_iota L lo hi = [lo..hi - 1])
   \<and> (\<forall>f xs. rv3_transform L f xs = res_map f xs)
   \<and> (\<forall>xs a. rv3_accumulate L xs a = res_sum xs a)
   \<and> (\<forall>xs a. elements (hpx_grouping L xs a) = mset (a # xs))
   \<and> (\<forall>a b c d x y. (\<forall>z \<in> {a, b, c, d, x, y}. \<bar>z\<bar> \<le> (2 :: int) ^ 20) \<longrightarrow>
        eigen_product L ((of_int a, of_int b), (of_int c, of_int d)) (of_int x, of_int y)
          = (of_int (a * x + b * y), of_int (c * x + d * y)))"

text \<open>
  Data: a member of a flat JSON object is found under its key, in the value and in its text; a
  message whose strings are ASCII, so valid UTF-8, whose count is an \<open>int32\<close> and whose size is below
  the 2 GiB of a message is parsed back; a request keeps what is not set; maps and strings of Folly.
\<close>

fun json_text :: "json \<Rightarrow> string" where
  "json_text (JString t) = ''\"'' @ t @ ''\"''"
| "json_text (JBool b) = (if b then ''true'' else ''false'')"
| "json_text (JInt n) = show_int n"

fun join_text :: "string \<Rightarrow> string list \<Rightarrow> string" where
  "join_text d [] = ''''"
| "join_text d [t] = t"
| "join_text d (t # u # ts) = t @ d @ join_text d (u # ts)"

definition member_text :: "string \<times> json \<Rightarrow> string" where
  "member_text m = ''\"'' @ fst m @ ''\":'' @ json_text (snd m)"

definition object_text :: "(string \<times> json) list \<Rightarrow> string" where
  "object_text kvs = ''{'' @ join_text '','' (map member_text kvs) @ ''}''"

definition plain :: "string \<Rightarrow> bool" where
  "plain t \<longleftrightarrow> list_all (\<lambda>c. 97 \<le> (of_char c :: nat) \<and> (of_char c :: nat) \<le> 122) t"

definition flat_object :: "(string \<times> json) list \<Rightarrow> bool" where
  "flat_object kvs \<longleftrightarrow> distinct (map fst kvs)
     \<and> list_all (\<lambda>(k, v). plain k \<and> (case v of JString t \<Rightarrow> plain t | _ \<Rightarrow> True)) kvs"

definition ascii_text :: "string \<Rightarrow> bool" where
  "ascii_text t \<longleftrightarrow> list_all (\<lambda>c. (of_char c :: nat) < 128) t \<and> length t \<le> 2 ^ 20"

definition valid_ping :: "smoke_ping \<Rightarrow> bool" where
  "valid_ping p \<longleftrightarrow> ascii_text (ping_name p) \<and> list_all ascii_text (ping_tags p)
     \<and> length (ping_tags p) \<le> 2 ^ 10 \<and> - (2 ^ 31) \<le> ping_count p \<and> ping_count p < 2 ^ 31"

definition documented_data :: "'m smoke_libs \<Rightarrow> bool" where
  "documented_data L \<longleftrightarrow>
     (\<forall>kvs k. distinct (map fst kvs) \<longrightarrow> nlohmann_at L kvs k = map_of kvs k)
   \<and> (\<forall>kvs k t. flat_object kvs \<longrightarrow> map_of kvs k = Some (JString t) \<longrightarrow>
        simdjson_string L (object_text kvs) k = Inr t)
   \<and> (\<forall>kvs k b. flat_object kvs \<longrightarrow> map_of kvs k = Some (JBool b) \<longrightarrow>
        simdjson_bool L (object_text kvs) k = Inr b)
   \<and> (\<forall>p. p \<noteq> empty_ping \<longrightarrow> valid_ping p \<longrightarrow> (\<exists>b. b \<noteq> [] \<and> pb_serialize L p = (True, b) \<and> pb_parse L b = (True, p)))
   \<and> (\<forall>f v r. http_method (beast_set L f v r) = http_method r \<and> http_body (beast_set L f v r) = http_body r)
   \<and> (\<forall>r. http_method (beast_prepare L r) = http_method r \<and> http_body (beast_prepare L r) = http_body r)"

definition documented_folly :: "'m smoke_libs \<Rightarrow> bool" where
  "documented_folly L \<longleftrightarrow>
     (\<forall>t u. fb_append L t u = t @ u)
   \<and> (\<forall>x. folly_optional L x = Some x)
   \<and> f14_size L (f14_empty L) = 0 \<and> (\<forall>k. f14_get L k (f14_empty L) = None)
   \<and> (\<forall>k v m. f14_size L (f14_put L k v m) = f14_size L m + (if f14_get L k m = None then 1 else 0))
   \<and> (\<forall>k v m k'. f14_get L k' (f14_put L k v m) = (if k' = k then Some v else f14_get L k' m))
   \<and> (\<forall>d ts. folly_join L d ts = join_text d ts)"

definition documented :: "'m smoke_libs \<Rightarrow> bool" where
  "documented L \<longleftrightarrow> documented_text L \<and> documented_handlers L
     \<and> documented_sums L \<and> documented_data L \<and> documented_folly L"

text \<open>Three checks ask for versions, which are what is installed: how many of them are not met.\<close>

definition versions_missing :: "'m smoke_libs \<Rightarrow> nat" where
  "versions_missing L = (if boost_version L \<ge> 109000 then 0 else 1) + (if beast_version L > 0 then 0 else 1)
     + (if grpc_version L = '''' then 1 else 0)"

section \<open>Every group counts its checks\<close>

lemma g_fmt_print [simp]:
  "g_passed (fmt_print L f args s) = g_passed s" "g_failed (fmt_print L f args s) = g_failed s"
  by (simp_all add: fmt_print_def)

lemma g_check [simp]:
  "g_passed (check L c n s) = g_passed s + (if c then 1 else 0)"
  "g_failed (check L c n s) = g_failed s + (if c then 0 else 1)"
  by (simp_all add: check_def Let_def)

text \<open>\<open>counts k g\<close>: \<open>g\<close> makes \<open>k\<close> checks; \<open>yields k d g\<close>: it makes them and \<open>d\<close> of them fail.\<close>

definition counts :: "nat \<Rightarrow> (smoke \<Rightarrow> smoke res) \<Rightarrow> bool" where
  "counts k g \<longleftrightarrow> (\<forall>s s'. g s = Inr s' \<longrightarrow>
     g_passed s' + g_failed s' = g_passed s + g_failed s + int k \<and> g_failed s \<le> g_failed s')"

definition yields :: "nat \<Rightarrow> nat \<Rightarrow> (smoke \<Rightarrow> smoke res) \<Rightarrow> bool" where
  "yields k d g \<longleftrightarrow> (\<forall>s. \<exists>s'. g s = Inr s' \<and> g_passed s' = g_passed s + int k - int d
     \<and> g_failed s' = g_failed s + int d)"

abbreviation passes :: "nat \<Rightarrow> (smoke \<Rightarrow> smoke res) \<Rightarrow> bool" where
  "passes k g \<equiv> yields k 0 g"

lemmas group_defs = smoke_fmt_spdlog_def smoke_abseil_def smoke_boost_beast_asio_def smoke_tbb_def
  smoke_taskflow_def smoke_range_v3_def smoke_json_def smoke_eigen_def smoke_protobuf_grpc_def
  smoke_stdexec_def smoke_folly_def smoke_hpx_def

definition all_groups :: "'m smoke_libs \<Rightarrow> (nat \<times> (smoke \<Rightarrow> smoke res)) list" where
  "all_groups L =
     [(2, smoke_fmt_spdlog L), (2, smoke_abseil L), (6, smoke_boost_beast_asio L), (1, smoke_tbb L),
      (1, smoke_taskflow L), (1, smoke_range_v3 L), (2, smoke_json L), (1, smoke_eigen L),
      (4, smoke_protobuf_grpc L), (1, smoke_stdexec L)]
     @ (if has_folly L then [(4, smoke_folly L)] else [])
     @ (if has_hpx L then [(2, smoke_hpx L)] else [])"

definition number_of_checks :: "'m smoke_libs \<Rightarrow> nat" where
  "number_of_checks L = 21 + (if has_folly L then 4 else 0) + (if has_hpx L then 2 else 0)"

lemma counts_groups:
  "counts 2 (smoke_fmt_spdlog L)" "counts 2 (smoke_abseil L)" "counts 6 (smoke_boost_beast_asio L)"
  "counts 1 (smoke_tbb L)" "counts 1 (smoke_taskflow L)" "counts 1 (smoke_range_v3 L)"
  "counts 2 (smoke_json L)" "counts 1 (smoke_eigen L)" "counts 4 (smoke_protobuf_grpc L)"
  "counts 1 (smoke_stdexec L)" "counts 4 (smoke_folly L)" "counts 2 (smoke_hpx L)"
  by (auto simp: counts_def group_defs Let_def res_bind_Inr_iff split: prod.splits)

lemma counts_run: "list_all (\<lambda>(k, g). counts k g) kgs \<Longrightarrow> counts (sum_list (map fst kgs)) (run_groups (map snd kgs))"
  by (induction kgs) (fastforce simp: counts_def res_bind_Inr_iff)+

lemma yields_seq:
  assumes "yields k d g" and "yields n e (run_groups gs)"
  shows "yields (k + n) (d + e) (run_groups (g # gs))"
  unfolding yields_def
proof
  fix s
  obtain s1 where "g s = Inr s1" "g_passed s1 = g_passed s + int k - int d" "g_failed s1 = g_failed s + int d"
    using assms(1) unfolding yields_def by blast
  moreover obtain s2 where "run_groups gs s1 = Inr s2" "g_passed s2 = g_passed s1 + int n - int e"
    "g_failed s2 = g_failed s1 + int e"
    using assms(2) unfolding yields_def by blast
  ultimately show "\<exists>s'. run_groups (g # gs) s = Inr s' \<and> g_passed s' = g_passed s + int (k + n) - int (d + e)
      \<and> g_failed s' = g_failed s + int (d + e)"
    by simp
qed

lemma yields_run:
  "list_all2 (\<lambda>(k, g) d. yields k d g) kgs ds \<Longrightarrow>
    yields (sum_list (map fst kgs)) (sum_list ds) (run_groups (map snd kgs))"
proof (induction rule: list_all2_induct)
  case Nil
  show ?case by (simp add: yields_def)
next
  case (Cons kg kgs d ds)
  then show ?case using yields_seq [of "fst kg" d "snd kg"] by (simp add: case_prod_beta del: run_groups.simps)
qed

lemma all_groups_checks: "sum_list (map fst (all_groups L)) = number_of_checks L"
  by (simp add: all_groups_def number_of_checks_def)

section \<open>Every group passes on conforming libraries\<close>

lemma contains_text_append: "contains_text (pre @ sub @ post) sub"
  unfolding contains_text_def list_ex_iff by (rule bexI [of _ "sub @ post"]) (simp_all add: suffix_def)

lemma fmt_passes: "documented L \<Longrightarrow> passes 2 (smoke_fmt_spdlog L)"
proof -
  assume "documented L"
  then have "fmt_format L (''fmt '' @ ''{}'' @ '' works'') [Number (fmt_version L)]
      = ''fmt '' @ show_int (fmt_version L) @ '' works''"
    unfolding documented_def documented_text_def by (elim conjE allE [of _ "''fmt ''"] allE [of _ "'' works''"]) simp
  then have "contains_text (fmt_format L ''fmt {} works'' [Number (fmt_version L)]) ''works''"
    using contains_text_append [of "''fmt '' @ show_int (fmt_version L) @ '' ''" "''works''" "[]"] by simp
  then show ?thesis by (simp add: yields_def smoke_fmt_spdlog_def Let_def)
qed

lemma show_int_small [simp]: "show_int 42 = ''42''" "show_int 7 = ''7''" "show_int 3 = ''3''"
  by code_simp+

lemma abseil_passes: "documented L \<Longrightarrow> passes 2 (smoke_abseil L)"
proof -
  assume d: "documented L"
  then have "CHR ''%'' \<notin> set ''count='' \<longrightarrow> fits_arg (Number 7) \<longrightarrow>
      str_format L (''count='' @ ''%d'') [Number 7] = ''count='' @ show_int 7"
    unfolding documented_def documented_text_def by blast
  then have "str_format L (''count='' @ ''%d'') [Number 7] = ''count='' @ show_int 7"
    by (simp add: fits_arg_def)
  moreover have "str_cat L [Text ''hello'', Text ''-'', Number 42] = ''hello-42''"
    using d by (simp add: documented_def documented_text_def fits_arg_def)
  ultimately show ?thesis by (simp add: yields_def smoke_abseil_def Let_def)
qed

lemma boost_yields: "documented L \<Longrightarrow> yields 6 ((if boost_version L \<ge> 109000 then 0 else 1)
    + (if beast_version L > 0 then 0 else 1)) (smoke_boost_beast_asio L)"
proof -
  assume d: "documented L"
  then obtain hs where "mset hs = mset [\<lambda>hit :: u32. hit + 1]"
    "asio_run L [\<lambda>hit. hit + 1] 0 = fold (\<lambda>h. h) hs 0"
    unfolding documented_def documented_handlers_def by blast
  then have "asio_run L [\<lambda>hit. hit + 1] 0 = 1" by simp
  with d show ?thesis
    by (simp add: yields_def smoke_boost_beast_asio_def smoke_request_def Let_def documented_def
        documented_handlers_def documented_data_def)
qed

lemma range_sum_upto: "0 \<le> n \<Longrightarrow> 2 * range_sum 0 n = n * (n - 1)"
proof (induction n rule: int_ge_induct)
  case (step n)
  have "{n..<n + 1} = {n}" by auto
  then show ?case using step range_sum_split [of 0 n "n + 1"] by (simp add: range_sum_def algebra_simps)
qed (simp add: range_sum_def)

lemma tbb_passes: "documented L \<Longrightarrow> passes 1 (smoke_tbb L)"
proof -
  assume "documented L"
  then have "splits (tbb_split L 0 10000) 0 10000" by (simp add: documented_def documented_sums_def)
  moreover have "range_sum 0 10000 = 49995000" using range_sum_upto [of 10000] by simp
  ultimately have "tbb_reduce (tbb_split L 0 10000) 0 10000 0 = Inr 49995000"
    using tbb_reduce_sum [of "tbb_split L 0 10000" 0 10000 0] by simp
  then show ?thesis by (simp add: yields_def smoke_tbb_def Let_def)
qed

text \<open>
  Three tasks that add to a counter leave the same sum in every order: the check does not depend on
  \<open>precede\<close>.
\<close>

lemma fold_add_tasks:
  fixes w :: "nat \<Rightarrow> u32"
  shows "fold (\<lambda>i acc. acc + w i) is a = a + (\<Sum>i\<in>#mset is. w i)"
  by (induction "is" arbitrary: a) (simp_all add: algebra_simps)

lemma taskflow_passes: "documented L \<Longrightarrow> passes 1 (smoke_taskflow L)"
proof -
  assume "documented L"
  define ks where "ks = task_order L 3 [(0, 1), (1, 2)]"
  have m: "mset ks = mset [0..<3]"
    using \<open>documented L\<close> unfolding ks_def documented_def documented_handlers_def by simp
  define w :: "nat \<Rightarrow> u32" where "w i = [1, 10, 100] ! i" for i
  have "set ks = {0..<3}" using mset_eq_setD [OF m] by simp
  then have "fold (\<lambda>i. [\<lambda>acc. acc + 1, \<lambda>acc. acc + 10, \<lambda>acc. acc + 100] ! i) ks (0 :: u32)
      = fold (\<lambda>i acc. acc + w i) ks 0"
    by (intro fold_cong) (auto simp: w_def less_Suc_eq numeral_3_eq_3)
  also have "\<dots> = 111" unfolding fold_add_tasks m by (simp add: w_def numeral_3_eq_3)
  finally show ?thesis by (simp add: yields_def smoke_taskflow_def Let_def ks_def)
qed

lemma range_v3_passes: "documented L \<Longrightarrow> passes 1 (smoke_range_v3 L)"
proof -
  assume "documented L"
  moreover have "[1..5] = [1, 2, 3, 4, 5 :: int]" by (simp add: upto_rec1)
  ultimately show ?thesis
    by (simp add: yields_def smoke_range_v3_def Let_def documented_def documented_sums_def mul_int_def
        add_int_def)
qed

lemma smoke_payload_text:
  "smoke_payload = object_text [(''lib'', JString ''simdjson''), (''ok'', JBool True), (''n'', JInt 3)]"
  by (simp add: smoke_payload_def object_text_def member_text_def)

lemma json_passes: "documented L \<Longrightarrow> passes 2 (smoke_json L)"
proof -
  assume d: "documented L"
  let ?kvs = "[(''lib'', JString ''simdjson''), (''ok'', JBool True), (''n'', JInt 3)]"
  have "flat_object ?kvs" by (simp add: flat_object_def plain_def)
  moreover have "map_of ?kvs ''lib'' = Some (JString ''simdjson'')" "map_of ?kvs ''ok'' = Some (JBool True)"
    by simp_all
  ultimately have "simdjson_string L smoke_payload ''lib'' = Inr ''simdjson''"
    "simdjson_bool L smoke_payload ''ok'' = Inr True"
    using d unfolding smoke_payload_text documented_def documented_data_def by blast+
  then show ?thesis using d
    by (simp add: yields_def smoke_json_def Let_def documented_def documented_data_def)
qed

lemma eigen_passes: "documented L \<Longrightarrow> passes 1 (smoke_eigen L)"
proof -
  assume "documented L"
  then have "eigen_product L ((of_int 1, of_int 2), (of_int 3, of_int 4)) (of_int 1, of_int 1)
      = (of_int (1 * 1 + 2 * 1), of_int (3 * 1 + 4 * 1))"
    unfolding documented_def documented_sums_def by (simp del: of_int_numeral of_int_1)
  then show ?thesis by (simp add: yields_def smoke_eigen_def Let_def)
qed

lemma protobuf_yields: "documented L \<Longrightarrow> yields 4 (if grpc_version L = '''' then 1 else 0) (smoke_protobuf_grpc L)"
proof -
  assume d: "documented L"
  let ?p = "\<lparr>ping_name = ''lib_smoke'', ping_count = 2, ping_tags = [''homebrew'', ''cpp26'']\<rparr>"
  have "?p \<noteq> empty_ping" by (simp add: empty_ping_def)
  moreover have "valid_ping ?p" by (simp add: valid_ping_def ascii_text_def)
  ultimately obtain b where "b \<noteq> []" "pb_serialize L ?p = (True, b)" "pb_parse L b = (True, ?p)"
    using d unfolding documented_def documented_data_def by blast
  with d show ?thesis
    by (simp add: yields_def smoke_protobuf_grpc_def empty_ping_def Let_def documented_def)
qed

lemma stdexec_passes: "documented L \<Longrightarrow> passes 1 (smoke_stdexec L)"
  by (simp add: yields_def smoke_stdexec_def Let_def documented_def documented_handlers_def)

lemma folly_passes: "documented L \<Longrightarrow> passes 4 (smoke_folly L)"
  by (simp add: yields_def smoke_folly_def Let_def documented_def documented_folly_def)

lemma hpx_passes: "documented L \<Longrightarrow> passes 2 (smoke_hpx L)"
proof -
  assume d: "documented L"
  define g where "g = hpx_grouping L [1..1000] 0"
  have e: "elements g = mset (0 # [1..1000])" using d by (simp add: g_def documented_def documented_sums_def)
  have "sum_mset (mset [1..1000]) = range_sum 1 1001"
    using sum_list_distinct_conv_sum_set [OF distinct_upto [of 1 1000], of "\<lambda>x. x"]
    by (simp add: range_sum_def sum_mset_sum_list atLeastLessThanPlusOne_atLeastAtMost_int [of 1 1000, simplified])
  also have "\<dots> = 500500"
    using range_sum_upto [of 1001] range_sum_step [of 0 1001] by simp
  finally have s: "sum_mset (elements g) = 500500" unfolding e by simp
  moreover have "\<forall>x \<in># elements g. 0 \<le> x" unfolding e by auto
  ultimately have "grouped_sum g = Inr 500500" using grouped_sum_all [of g] by simp
  moreover have "hpx_then L 21 (\<lambda>r. mul_int r 2) = Inr 42"
    using d by (simp add: documented_def documented_handlers_def mul_int_def)
  ultimately show ?thesis by (simp add: yields_def smoke_hpx_def Let_def g_def)
qed

lemmas group_yields = fmt_passes abseil_passes boost_yields tbb_passes taskflow_passes range_v3_passes
  json_passes eigen_passes protobuf_yields stdexec_passes folly_passes hpx_passes

lemma smoke_main_groups:
  "smoke_main L = res_bind (run_groups (map snd (all_groups L))
      (fmt_print L ''optional: Folly={} HPX={}'' [Text (on_off (has_folly L)), Text (on_off (has_hpx L))]
        (fmt_print L ''compiler: Apple/LLVM, standard c++26'' []
          (fmt_print L ''lib_smoke - C++26 library installation verifier'' [] smoke_start))))
    (\<lambda>s. Inr (if g_failed s = 0 then 0 else 1,
       fmt_print L ''Summary: {} passed, {} failed'' [Number (g_passed s), Number (g_failed s)] s))"
  unfolding smoke_main_def all_groups_def Let_def by (cases "has_folly L"; cases "has_hpx L") simp_all

section \<open>The properties\<close>

text \<open>
  C30: On libraries that do what they document, the smoke test makes all of its checks, and the only
  ones that fail are those of the three version checks whose version is not installed; the exit code
  is 0 exactly when there is none. The parallel sums are right for every split of the range and
  every grouping, and neither they nor the other sums and products overflow an \<open>int\<close>.
\<close>

theorem smoke_main_conforming:
  assumes "documented L"
  shows "\<exists>s. smoke_main L = Inr (if versions_missing L = 0 then 0 else 1, s)
    \<and> g_failed s = int (versions_missing L)
    \<and> g_passed s = int (number_of_checks L) - int (versions_missing L)"
proof -
  let ?boost = "(if boost_version L \<ge> 109000 then 0 else 1) + (if beast_version L > 0 then 0 else 1)"
  let ?grpc = "if grpc_version L = '''' then 1 else 0"
  let ?ds = "[0, 0, ?boost, 0, 0, 0, 0, 0, ?grpc, 0] @ (if has_folly L then [0] else [])
    @ (if has_hpx L then [0] else [])"
  have "list_all2 (\<lambda>(k, g) d. yields k d g) (all_groups L) ?ds"
    using group_yields [OF assms] by (simp add: all_groups_def)
  moreover have "sum_list ?ds = versions_missing L" by (simp add: versions_missing_def)
  ultimately have "yields (number_of_checks L) (versions_missing L) (run_groups (map snd (all_groups L)))"
    using yields_run by (metis all_groups_checks)
  then obtain s where "run_groups (map snd (all_groups L))
      (fmt_print L ''optional: Folly={} HPX={}'' [Text (on_off (has_folly L)), Text (on_off (has_hpx L))]
        (fmt_print L ''compiler: Apple/LLVM, standard c++26'' []
          (fmt_print L ''lib_smoke - C++26 library installation verifier'' [] smoke_start))) = Inr s"
    "g_passed s = int (number_of_checks L) - int (versions_missing L)" "g_failed s = int (versions_missing L)"
    unfolding yields_def by (force simp: smoke_start_def)
  then show ?thesis unfolding smoke_main_groups by simp
qed

text \<open>
  Whatever the libraries do, a smoke test that comes to its end has made all of its checks, and
  its exit code is 0 exactly when none failed.
\<close>

theorem smoke_main_exit_code:
  assumes "smoke_main L = Inr (c, s)"
  shows "g_passed s + g_failed s = int (number_of_checks L) \<and> c = (if g_failed s = 0 then 0 else 1)"
proof -
  have "list_all (\<lambda>(k, g). counts k g) (all_groups L)"
    using counts_groups [of L] by (simp add: all_groups_def)
  then have "counts (number_of_checks L) (run_groups (map snd (all_groups L)))"
    using counts_run by (metis all_groups_checks)
  with assms show ?thesis unfolding smoke_main_groups
    by (fastforce simp: counts_def smoke_start_def res_bind_Inr_iff)
qed

section \<open>Libraries that conform\<close>

text \<open>A small implementation of each library, to show that the promises can be kept together.\<close>

fun put_args :: "string \<Rightarrow> text_arg list \<Rightarrow> string" where
  "put_args f [] = f"
| "put_args f (a # as) =
     takeWhile (\<lambda>c. c \<noteq> CHR ''{'') f @ arg_text a @ put_args (drop 2 (dropWhile (\<lambda>c. c \<noteq> CHR ''{'') f)) as"

definition put_number :: "string \<Rightarrow> text_arg list \<Rightarrow> string" where
  "put_number f args = takeWhile (\<lambda>c. c \<noteq> CHR ''%'') f @ concat (map arg_text args)"

fun split_on :: "char \<Rightarrow> string \<Rightarrow> string list" where
  "split_on c [] = ['''']"
| "split_on c (x # xs) =
     (if x = c then '''' # split_on c xs
      else (case split_on c xs of [] \<Rightarrow> [[x]] | t # ts \<Rightarrow> (x # t) # ts))"

definition member_of_text :: "string \<Rightarrow> string \<times> string" where
  "member_of_text t = (takeWhile (\<lambda>c. c \<noteq> CHR '':'') t, tl (dropWhile (\<lambda>c. c \<noteq> CHR '':'') t))"

definition lookup_text :: "string \<Rightarrow> string \<Rightarrow> string option" where
  "lookup_text t k = map_of (map member_of_text (split_on (CHR '','') (butlast (tl t)))) (''\"'' @ k @ ''\"'')"

definition conforming_libs :: "((string \<times> int) list) smoke_libs" where
  "conforming_libs = \<lparr>
     has_folly = True, has_hpx = True,
     fmt_format = put_args, fmt_version = 120100, spdlog_ver_major = 1,
     str_cat = \<lambda>args. concat (map arg_text args), str_format = put_number,
     boost_version = 109000, beast_version = 1,
     asio_run = fold (\<lambda>h. h), timer_run = \<lambda>ms h. h False,
     beast_set = \<lambda>f v r. r\<lparr>http_fields := http_fields r @ [(f, v)]\<rparr>, beast_prepare = \<lambda>r. r,
     tbb_split = \<lambda>lo hi. let m = (lo + hi) div 2 in Join m Whole Whole,
     task_order = \<lambda>n es. [0..<n],
     rv3_iota = \<lambda>lo hi. [lo..hi - 1], rv3_transform = res_map, rv3_accumulate = res_sum,
     nlohmann_at = map_of,
     simdjson_string = \<lambda>t k. (case lookup_text t k of None \<Rightarrow> Inl (Runtime_Error k) | Some v \<Rightarrow> Inr (butlast (tl v))),
     simdjson_bool = \<lambda>t k. Inr (lookup_text t k = Some ''true''),
     eigen_product = \<lambda>((a, b), (c, d)) (x, y). (a * x + b * y, c * x + d * y),
     pb_serialize = \<lambda>p. (True, replicate (Suc (to_nat (ping_name p, ping_count p, ping_tags p))) 0),
     pb_parse = \<lambda>b. (case from_nat (length b - 1) of (n, c, ts) \<Rightarrow>
       (True, \<lparr>ping_name = n, ping_count = c, ping_tags = ts\<rparr>)),
     grpc_version = ''1.76.0'',
     pool_run = \<lambda>f. f,
     fb_append = \<lambda>t u. t @ u, folly_optional = Some,
     f14_empty = [], f14_put = AList.update, f14_get = \<lambda>k m. map_of m k, f14_size = length,
     folly_join = join_text,
     hpx_then = \<lambda>x f. f x,
     hpx_grouping = \<lambda>xs a. foldl (\<lambda>g x. Plus g (Element x)) (Element a) xs\<rparr>"

lemma put_args_place: "CHR ''{'' \<notin> set pre \<Longrightarrow> put_args (pre @ ''{}'' @ post) [a] = pre @ arg_text a @ post"
proof -
  assume "CHR ''{'' \<notin> set pre"
  then have "\<And>c. c \<in> set pre \<Longrightarrow> c \<noteq> CHR ''{''" by blast
  then show ?thesis by simp
qed

lemma put_number_place: "CHR ''%'' \<notin> set pre \<Longrightarrow> put_number (pre @ ''%d'') [Number n] = pre @ show_int n"
proof -
  assume "CHR ''%'' \<notin> set pre"
  then have "\<And>c. c \<in> set pre \<Longrightarrow> c \<noteq> CHR ''%''" by blast
  then show ?thesis by (simp add: put_number_def)
qed

lemma split_on_last: "c \<notin> set t \<Longrightarrow> split_on c t = [t]"
  by (induction t) auto

lemma split_on_next: "c \<notin> set t \<Longrightarrow> split_on c (t @ c # u) = t # split_on c u"
  by (induction t) auto

lemma split_on_join:
  "ts \<noteq> [] \<Longrightarrow> \<forall>t \<in> set ts. c \<notin> set t \<Longrightarrow> split_on c (join_text [c] ts) = ts"
  by (induction "[c]" ts rule: join_text.induct) (auto simp: split_on_last split_on_next)

lemma plain_chars: "plain t \<Longrightarrow> CHR '','' \<notin> set t \<and> CHR '':'' \<notin> set t \<and> CHR ''\"'' \<notin> set t"
  unfolding plain_def list_all_iff by (intro conjI notI; drule (1) bspec; simp)

lemma show_int_chars: "CHR '','' \<notin> set (show_int n)"
  using show_nat_digits [of "nat \<bar>n\<bar>"] by (auto simp: show_int_def is_digit_def nat_abs_int_diff dest!: bspec)

lemma member_no_comma:
  assumes "plain (fst m)" and "\<And>t. snd m = JString t \<Longrightarrow> plain t"
  shows "CHR '','' \<notin> set (member_text m)"
  using assms by (cases m; cases "snd m") (auto simp: member_text_def show_int_chars dest: plain_chars)

lemma member_of_member_text:
  assumes "plain k" shows "member_of_text (member_text (k, v)) = (''\"'' @ k @ ''\"'', json_text v)"
proof -
  have "\<And>c. c \<in> set (''\"'' @ k @ ''\"'') \<Longrightarrow> c \<noteq> CHR '':''"
    using plain_chars [OF assms] by auto
  then have "takeWhile (\<lambda>c. c \<noteq> CHR '':'') ((''\"'' @ k @ ''\"'') @ CHR '':'' # json_text v) = ''\"'' @ k @ ''\"''"
    "dropWhile (\<lambda>c. c \<noteq> CHR '':'') ((''\"'' @ k @ ''\"'') @ CHR '':'' # json_text v) = CHR '':'' # json_text v"
    by (subst takeWhile_append2 dropWhile_append2, blast, simp)+
  then show ?thesis by (simp add: member_of_text_def member_text_def)
qed

lemma lookup_object_text:
  assumes f: "flat_object kvs" and k: "map_of kvs k = Some v"
  shows "lookup_text (object_text kvs) k = Some (json_text v)"
proof -
  have p: "plain (fst m)" "\<And>t. snd m = JString t \<Longrightarrow> plain t" if "m \<in> set kvs" for m
    using f that by (auto simp: flat_object_def list_all_iff)
  have "kvs \<noteq> []" using k by auto
  then have "split_on (CHR '','') (join_text '','' (map member_text kvs)) = map member_text kvs"
    using member_no_comma p by (intro split_on_join) auto
  moreover have "butlast (tl (object_text kvs)) = join_text '','' (map member_text kvs)"
    by (simp add: object_text_def butlast_append)
  ultimately have "lookup_text (object_text kvs) k
      = map_of (map (member_of_text \<circ> member_text) kvs) (''\"'' @ k @ ''\"'')"
    by (simp add: lookup_text_def)
  also have "map (member_of_text \<circ> member_text) kvs = map (\<lambda>(k, v). (''\"'' @ k @ ''\"'', json_text v)) kvs"
    using p member_of_member_text by (auto simp del: append.simps)
  also have "map_of \<dots> (''\"'' @ k @ ''\"'') = map_option json_text (map_of kvs k)"
    by (induction kvs) auto
  finally show ?thesis using k by simp
qed

lemma elements_foldl: "elements (foldl (\<lambda>g x. Plus g (Element x)) g xs) = elements g + mset xs"
  by (induction xs arbitrary: g) auto

lemma map_of_update: "map_of (AList.update k v m) k' = (if k' = k then Some v else map_of m k')"
  by (simp add: update_conv)

lemma length_update: "length (AList.update k v m) = length m + (if map_of m k = None then 1 else 0)"
  by (induction m) auto

lemma conforming_documented: "documented conforming_libs"
  unfolding documented_def
proof (intro conjI)
  show "documented_text conforming_libs"
    unfolding documented_text_def conforming_libs_def using put_args_place put_number_place
    by (auto simp: fits_arg_def)
  show "documented_handlers conforming_libs"
    by (auto simp: documented_handlers_def conforming_libs_def)
  show "documented_sums conforming_libs"
  proof -
    have "lo \<le> (lo + hi) div 2 \<and> (lo + hi) div 2 \<le> hi" if "lo \<le> hi" for lo hi :: int
      using that by linarith
    then show ?thesis by (simp add: documented_sums_def conforming_libs_def Let_def elements_foldl)
  qed
  show "documented_data conforming_libs"
    by (auto simp: documented_data_def conforming_libs_def lookup_object_text)
  show "documented_folly conforming_libs"
    by (simp add: documented_folly_def conforming_libs_def map_of_update length_update)
qed

text \<open>The same libraries with an older Boost: one check fails.\<close>

lemma documented_boost: "documented (L\<lparr>boost_version := v\<rparr>) = documented L"
  by (simp add: documented_def documented_text_def documented_handlers_def documented_sums_def
      documented_data_def documented_folly_def)

theorem smoke_main_conforming_witness:
  "(\<exists>s. smoke_main conforming_libs = Inr (0, s) \<and> g_passed s = 27 \<and> g_failed s = 0)
   \<and> (\<exists>s. smoke_main (conforming_libs\<lparr>boost_version := 108300\<rparr>) = Inr (1, s) \<and> g_passed s = 26 \<and> g_failed s = 1)"
proof
  have "versions_missing conforming_libs = 0" "number_of_checks conforming_libs = 27"
    by (simp_all add: number_of_checks_def versions_missing_def conforming_libs_def)
  then show "\<exists>s. smoke_main conforming_libs = Inr (0, s) \<and> g_passed s = 27 \<and> g_failed s = 0"
    using smoke_main_conforming [OF conforming_documented] by auto
  let ?old = "conforming_libs\<lparr>boost_version := 108300\<rparr>"
  have "versions_missing ?old = 1" "number_of_checks ?old = 27"
    by (simp_all add: number_of_checks_def versions_missing_def conforming_libs_def)
  moreover have "documented ?old" unfolding documented_boost by (rule conforming_documented)
  ultimately show "\<exists>s. smoke_main ?old = Inr (1, s) \<and> g_passed s = 26 \<and> g_failed s = 1"
    using smoke_main_conforming [of ?old] by auto
qed

end
