(* ===== verification/Preprocessor.thy ===== *)
theory Preprocessor
  imports Main
begin

text \<open>
  The preprocessor directives the generated headers begin with, as a small language: definitions
  of macros, conditional groups, inclusions of standard headers, \<open>#error\<close>. A header is a list of
  directives, and including it runs them on the macros that are defined so far. The lemmas say
  which macros a list of directives depends on and changes, and when running it a second time
  changes nothing, which is what makes it harmless to include two headers with the same macros.
\<close>

section \<open>Directives\<close>

text \<open>A defined macro has its parameter list and replacement text.\<close>

type_synonym pp_env = "string \<rightharpoonup> string"

text \<open>
  The conditions of \<open>#if\<close>: \<open>defined(M)\<close>, comparisons of identifiers whose values the compiler
  fixes (an identifier that is not a macro counts as 0 there), and their combinations.
\<close>

type_synonym pp_values = "string \<Rightarrow> int"

datatype pp_cond =
    Is_Defined string
  | At_Least string int
  | Same_Value string string
  | Not_Cond pp_cond
  | Or_Cond pp_cond pp_cond

fun pp_holds :: "pp_values \<Rightarrow> pp_env \<Rightarrow> pp_cond \<Rightarrow> bool" where
  "pp_holds c env (Is_Defined m) \<longleftrightarrow> env m \<noteq> None"
| "pp_holds c env (At_Least x n) \<longleftrightarrow> n \<le> c x"
| "pp_holds c env (Same_Value x y) \<longleftrightarrow> c x = c y"
| "pp_holds c env (Not_Cond p) \<longleftrightarrow> \<not> pp_holds c env p"
| "pp_holds c env (Or_Cond p q) \<longleftrightarrow> pp_holds c env p \<or> pp_holds c env q"

datatype directive =
    Include string
  | Define string string
  | If_Group pp_cond "directive list" "directive list"
  | Error_Line string

text \<open>
  A macro may be defined again only with the same parameters and text. A standard header leaves the
  macros of a program alone.
\<close>

datatype pp_error = Redefined string | Error_Directive string

fun pp_run :: "pp_values \<Rightarrow> directive list \<Rightarrow> pp_env \<Rightarrow> pp_error + pp_env" where
  "pp_run c [] env = Inr env"
| "pp_run c (Include h # ds) env = pp_run c ds env"
| "pp_run c (Define m b # ds) env =
     (if env m = None \<or> env m = Some b then pp_run c ds (env(m \<mapsto> b)) else Inl (Redefined m))"
| "pp_run c (If_Group p ts es # ds) env =
     (case pp_run c (if pp_holds c env p then ts else es) env of
        Inl e \<Rightarrow> Inl e
      | Inr env' \<Rightarrow> pp_run c ds env')"
| "pp_run c (Error_Line msg # ds) env = Inl (Error_Directive msg)"

text \<open>\<open>#ifdef\<close>-style shorthands of the source: \<open>#if !defined(M)\<close>, and a list of headers.\<close>

abbreviation Unless_Defined :: "string \<Rightarrow> directive list \<Rightarrow> directive" where
  "Unless_Defined m ds \<equiv> If_Group (Not_Cond (Is_Defined m)) ds []"

section \<open>What a list of directives reads and writes\<close>

fun cond_names :: "pp_cond \<Rightarrow> string list" where
  "cond_names (Is_Defined m) = [m]"
| "cond_names (At_Least x n) = []"
| "cond_names (Same_Value x y) = []"
| "cond_names (Not_Cond p) = cond_names p"
| "cond_names (Or_Cond p q) = cond_names p @ cond_names q"

fun pp_tests :: "directive list \<Rightarrow> string list" where
  "pp_tests [] = []"
| "pp_tests (If_Group p ts es # ds) = cond_names p @ pp_tests ts @ pp_tests es @ pp_tests ds"
| "pp_tests (Include h # ds) = pp_tests ds"
| "pp_tests (Define m b # ds) = pp_tests ds"
| "pp_tests (Error_Line msg # ds) = pp_tests ds"

fun pp_writes :: "directive list \<Rightarrow> string list" where
  "pp_writes [] = []"
| "pp_writes (If_Group p ts es # ds) = pp_writes ts @ pp_writes es @ pp_writes ds"
| "pp_writes (Include h # ds) = pp_writes ds"
| "pp_writes (Define m b # ds) = m # pp_writes ds"
| "pp_writes (Error_Line msg # ds) = pp_writes ds"

lemma pp_holds_cong:
  "(\<And>m. m \<in> set (cond_names p) \<Longrightarrow> (env m = None) = (env' m = None)) \<Longrightarrow>
    pp_holds c env p = pp_holds c env' p"
  by (induction p) auto

lemma pp_run_append:
  "pp_run c (ds @ es) env = (case pp_run c ds env of Inl e \<Rightarrow> Inl e | Inr env' \<Rightarrow> pp_run c es env')"
  by (induction c ds env rule: pp_run.induct) (auto simp del: fun_upd_apply split: sum.split)

lemma pp_run_append_Inr:
  "pp_run c (ds @ es) env = Inr env' \<longleftrightarrow>
     (\<exists>env1. pp_run c ds env = Inr env1 \<and> pp_run c es env1 = Inr env')"
  by (auto simp: pp_run_append split: sum.split)

lemma pp_run_If_Inr:
  "pp_run c (If_Group p ts es # ds) env = Inr env' \<longleftrightarrow>
     (\<exists>env1. pp_run c (if pp_holds c env p then ts else es) env = Inr env1 \<and> pp_run c ds env1 = Inr env')"
  by (auto split: sum.split)

lemma pp_run_Define_Inr:
  "pp_run c (Define m b # ds) env = Inr env' \<longleftrightarrow>
     (env m = None \<or> env m = Some b) \<and> pp_run c ds (env(m \<mapsto> b)) = Inr env'"
  by (auto simp del: fun_upd_apply)

text \<open>Macros stay defined as they are, and others do not come in.\<close>

lemma pp_run_keeps: "pp_run c ds env = Inr env' \<Longrightarrow> env m = Some b \<Longrightarrow> env' m = Some b"
proof (induction c ds env arbitrary: env' rule: pp_run.induct)
  case (3 c m' b' ds env)
  from "3.prems"(1) have run: "env m' = None \<or> env m' = Some b'" "pp_run c ds (env(m' \<mapsto> b')) = Inr env'"
    unfolding pp_run_Define_Inr by simp_all
  moreover have "(env(m' \<mapsto> b')) m = Some b" using run(1) "3.prems"(2) by auto
  ultimately show ?case by (rule "3.IH")
next
  case (4 c p ts es ds env)
  then show ?case unfolding pp_run_If_Inr by blast
qed simp_all

lemma pp_run_defines: "pp_run c ds env = Inr env' \<Longrightarrow> Define m b \<in> set ds \<Longrightarrow> env' m = Some b"
proof (induction c ds env arbitrary: env' rule: pp_run.induct)
  case (3 c m' b' ds env)
  from "3.prems"(1) have run: "env m' = None \<or> env m' = Some b'" "pp_run c ds (env(m' \<mapsto> b')) = Inr env'"
    unfolding pp_run_Define_Inr by simp_all
  have "env' m' = Some b'" by (rule pp_run_keeps [OF run(2)]) simp
  with "3.IH" [OF run] "3.prems"(2) show ?case by auto
next
  case (4 c p ts es ds env)
  then show ?case unfolding pp_run_If_Inr by auto
qed simp_all

text \<open>A macro that is neither tested nor defined makes no difference.\<close>

lemma pp_run_ignores:
  assumes "g \<notin> set (pp_tests ds)" and "g \<notin> set (pp_writes ds)"
  shows "pp_run c ds (env(g \<mapsto> b)) = map_sum id (\<lambda>e. e(g \<mapsto> b)) (pp_run c ds env)"
  using assms
proof (induction c ds env rule: pp_run.induct)
  case (3 c m b' ds env)
  from "3.prems" have "m \<noteq> g" "g \<notin> set (pp_tests ds)" "g \<notin> set (pp_writes ds)" by auto
  then have "(env(g \<mapsto> b)) m = env m" "(env(g \<mapsto> b))(m \<mapsto> b') = (env(m \<mapsto> b'))(g \<mapsto> b)"
    by (simp_all add: fun_upd_twist)
  with "3.IH" \<open>g \<notin> set (pp_tests ds)\<close> \<open>g \<notin> set (pp_writes ds)\<close> show ?case
    by (cases "env m = None \<or> env m = Some b'") (auto simp del: fun_upd_apply)
next
  case (4 c p ts es ds env)
  have "pp_holds c (env(g \<mapsto> b)) p = pp_holds c env p"
    using "4.prems" by (intro pp_holds_cong) auto
  with 4 show ?case by (auto simp del: fun_upd_apply split: sum.split)
qed (simp_all del: fun_upd_apply)

section \<open>Running twice\<close>

text \<open>\<open>sure m ds\<close>: after \<open>ds\<close> the macro \<open>m\<close> is defined.\<close>

fun sure :: "string \<Rightarrow> directive list \<Rightarrow> bool" where
  "sure m [] \<longleftrightarrow> False"
| "sure m (Define m' b # ds) \<longleftrightarrow> m = m' \<or> sure m ds"
| "sure m (If_Group p ts es # ds) \<longleftrightarrow> sure m ts \<and> sure m es \<or> sure m ds"
| "sure m (Include h # ds) \<longleftrightarrow> sure m ds"
| "sure m (Error_Line msg # ds) \<longleftrightarrow> True"

lemma sure_defined: "pp_run c ds env = Inr env' \<Longrightarrow> sure m ds \<Longrightarrow> env' m \<noteq> None"
proof (induction c ds env arbitrary: env' rule: pp_run.induct)
  case (3 c m' b ds env)
  from "3.prems"(1) have run: "env m' = None \<or> env m' = Some b" "pp_run c ds (env(m' \<mapsto> b)) = Inr env'"
    unfolding pp_run_Define_Inr by simp_all
  then have "env' m' = Some b" by (intro pp_run_keeps [OF run(2)]) simp
  then show ?case using "3.prems"(2) "3.IH" [OF run] by (cases "m = m'") simp_all
next
  case (4 c p ts es ds env)
  then obtain env1 where run: "pp_run c (if pp_holds c env p then ts else es) env = Inr env1"
    "pp_run c ds env1 = Inr env'" unfolding pp_run_If_Inr by blast
  show ?case
  proof (cases "sure m ds")
    case True
    with "4.IH"(2) run show ?thesis by blast
  next
    case False
    with "4.prems"(2) have "env1 m \<noteq> None" by (intro "4.IH"(1) [OF run(1)]) simp
    with pp_run_keeps [OF run(2)] show ?thesis by force
  qed
qed simp_all

text \<open>
  A group can be repeated when its condition does not test a macro of \<open>W\<close>, those the directives
  define, or when it is the idiom \<open>#if !defined(M)\<close> around a definition of \<open>M\<close>.
\<close>

fun repeatable :: "string list \<Rightarrow> directive list \<Rightarrow> bool" where
  "repeatable W [] \<longleftrightarrow> True"
| "repeatable W (Include h # ds) \<longleftrightarrow> repeatable W ds"
| "repeatable W (Define m b # ds) \<longleftrightarrow> m \<in> set W \<and> repeatable W ds"
| "repeatable W (If_Group p ts es # ds) \<longleftrightarrow>
     (list_all (\<lambda>m. m \<notin> set W) (cond_names p)
      \<or> (case p of Not_Cond (Is_Defined m) \<Rightarrow> sure m ts \<and> es = [] | _ \<Rightarrow> False))
     \<and> repeatable W ts \<and> repeatable W es \<and> repeatable W ds"
| "repeatable W (Error_Line msg # ds) \<longleftrightarrow> True"

lemma repeatable_writes:
  "pp_run c ds env = Inr env' \<Longrightarrow> repeatable W ds \<Longrightarrow> m \<notin> set W \<Longrightarrow> env' m = env m"
proof (induction c ds env arbitrary: env' rule: pp_run.induct)
  case (3 c m' b ds env)
  then have "env' m = (env(m' \<mapsto> b)) m" unfolding pp_run_Define_Inr by (simp del: fun_upd_apply)
  with "3.prems" show ?case by auto
next
  case (4 c p ts es ds env)
  let ?branch = "if pp_holds c env p then ts else es"
  obtain env1 where b: "pp_run c ?branch env = Inr env1" and run: "pp_run c ds env1 = Inr env'"
    using "4.prems"(1) unfolding pp_run_If_Inr by blast
  have "repeatable W ?branch" "repeatable W ds" using "4.prems"(2) by auto
  with "4.IH"(1) [OF b] "4.IH"(2) [OF b run] "4.prems"(3) show ?case by simp
qed simp_all

lemma pp_run_twice:
  assumes "pp_run c ds env = Inr env'" and "repeatable W ds" and "env' \<subseteq>\<^sub>m e"
    and "\<And>m. m \<in> set (pp_tests ds) \<Longrightarrow> m \<notin> set W \<Longrightarrow> e m = env m"
  shows "pp_run c ds e = Inr e"
  using assms
proof (induction c ds env arbitrary: env' rule: pp_run.induct)
  case (3 c m b ds env)
  from "3.prems"(1) have ok: "env m = None \<or> env m = Some b" and run: "pp_run c ds (env(m \<mapsto> b)) = Inr env'"
    unfolding pp_run_Define_Inr by simp_all
  have "env' m = Some b" using pp_run_keeps [OF run, of m b] by simp
  then have e: "e m = Some b" using "3.prems"(3) by (force simp: map_le_def)
  have "pp_run c ds e = Inr e"
  proof (rule "3.IH" [OF ok run])
    show "repeatable W ds" "env' \<subseteq>\<^sub>m e" using "3.prems" by simp_all
    show "e x = (env(m \<mapsto> b)) x" if "x \<in> set (pp_tests ds)" "x \<notin> set W" for x
      using that "3.prems"(2,4) by auto
  qed
  moreover have "e(m \<mapsto> b) = e" using e by auto
  ultimately show ?case using e by (simp del: fun_upd_apply)
next
  case (4 c p ts es ds env)
  let ?branch = "if pp_holds c env p then ts else es"
  obtain env1 where b: "pp_run c ?branch env = Inr env1" and run: "pp_run c ds env1 = Inr env'"
    using "4.prems"(1) unfolding pp_run_If_Inr by blast
  have rep: "repeatable W ?branch" "repeatable W ds" using "4.prems"(2) by auto
  have le': "env1 \<subseteq>\<^sub>m env'" using pp_run_keeps [OF run] by (force simp: map_le_def dom_def)
  then have le: "env1 \<subseteq>\<^sub>m e" using "4.prems"(3) by (rule map_le_trans)
  have again: "pp_run c ?branch e = Inr e"
    by (rule "4.IH"(1) [OF b rep(1) le]) (use "4.prems"(4) in \<open>auto split: if_splits\<close>)
  have rest: "pp_run c ds e = Inr e"
    by (rule "4.IH"(2) [OF b run rep(2) "4.prems"(3)])
      (use "4.prems"(4) repeatable_writes [OF b rep(1)] in auto)
  show ?case
  proof (cases "list_all (\<lambda>m. m \<notin> set W) (cond_names p)")
    case True
    then have "pp_holds c e p = pp_holds c env p"
      using "4.prems"(4) by (intro pp_holds_cong) (auto simp: list_all_iff)
    with again rest show ?thesis by simp
  next
    case False
    then obtain m where p: "p = Not_Cond (Is_Defined m)" "sure m ts" "es = []"
      using "4.prems"(2) by (auto split: pp_cond.splits)
    have "env1 m \<noteq> None"
      using b p sure_defined [of c ts env env1 m] by (cases "env m") auto
    then have "e m \<noteq> None" using le by (force simp: map_le_def dom_def)
    with p rest show ?thesis by simp
  qed
qed simp_all

section \<open>Success\<close>

text \<open>
  \<open>no_redefine U ds\<close>: when the macros of \<open>U\<close> are not defined, every definition \<open>ds\<close> reaches is
  the first one of its macro.
\<close>

fun no_redefine :: "string list \<Rightarrow> directive list \<Rightarrow> bool" where
  "no_redefine U [] \<longleftrightarrow> True"
| "no_redefine U (Include h # ds) \<longleftrightarrow> no_redefine U ds"
| "no_redefine U (Define m b # ds) \<longleftrightarrow> m \<in> set U \<and> no_redefine (removeAll m U) ds"
| "no_redefine U (If_Group p ts es # ds) \<longleftrightarrow>
     no_redefine (case p of Not_Cond (Is_Defined m) \<Rightarrow> m # U | _ \<Rightarrow> U) ts \<and> no_redefine U es
     \<and> no_redefine (filter (\<lambda>m. m \<notin> set (pp_writes ts @ pp_writes es)) U) ds"
| "no_redefine U (Error_Line msg # ds) \<longleftrightarrow> True"

lemma pp_run_writes: "pp_run c ds env = Inr env' \<Longrightarrow> m \<notin> set (pp_writes ds) \<Longrightarrow> env' m = env m"
proof (induction c ds env arbitrary: env' rule: pp_run.induct)
  case (3 c m' b' ds env)
  then have "env' m = (env(m' \<mapsto> b')) m" unfolding pp_run_Define_Inr by (simp del: fun_upd_apply)
  with "3.prems" show ?case by simp
next
  case (4 c p ts es ds env)
  let ?branch = "if pp_holds c env p then ts else es"
  obtain env1 where b: "pp_run c ?branch env = Inr env1" and run: "pp_run c ds env1 = Inr env'"
    using "4.prems"(1) unfolding pp_run_If_Inr by blast
  have "m \<notin> set (pp_writes ?branch)" "m \<notin> set (pp_writes ds)" using "4.prems"(2) by auto
  with "4.IH"(1) [OF b] "4.IH"(2) [OF b run] show ?case by simp
qed simp_all

lemma pp_run_no_redefine:
  assumes "no_redefine U ds" and "\<And>m. m \<in> set U \<Longrightarrow> env m = None"
  shows "pp_run c ds env \<noteq> Inl (Redefined m)"
  using assms
proof (induction c ds env arbitrary: U rule: pp_run.induct)
  case (3 c m' b ds env)
  from "3.prems" have "env m' = None" "no_redefine (removeAll m' U) ds" by simp_all
  moreover have "(env(m' \<mapsto> b)) x = None" if "x \<in> set (removeAll m' U)" for x
    using that "3.prems"(2) by simp
  ultimately have "pp_run c ds (env(m' \<mapsto> b)) \<noteq> Inl (Redefined m)"
    by (intro "3.IH" [of "removeAll m' U"]) auto
  then show ?case using \<open>env m' = None\<close> by (simp del: fun_upd_apply)
next
  case (4 c p ts es ds env)
  let ?branch = "if pp_holds c env p then ts else es"
  let ?U = "if pp_holds c env p then case p of Not_Cond (Is_Defined m) \<Rightarrow> m # U | _ \<Rightarrow> U else U"
  have "no_redefine ?U ?branch" using "4.prems"(1) by simp
  moreover have "env x = None" if "x \<in> set ?U" for x
    using that "4.prems"(2) by (auto split: if_splits pp_cond.splits)
  ultimately have branch: "pp_run c ?branch env \<noteq> Inl (Redefined m)" by (rule "4.IH"(1))
  show ?case
  proof (cases "pp_run c ?branch env")
    case (Inr env1)
    let ?V = "filter (\<lambda>m. m \<notin> set (pp_writes ts @ pp_writes es)) U"
    have "env1 x = None" if "x \<in> set ?V" for x
      using that "4.prems"(2) pp_run_writes [OF Inr, of x] by (auto split: if_splits)
    with "4.IH"(2) [OF Inr, of ?V] "4.prems"(1) Inr show ?thesis by simp
  qed (use branch in simp)
qed simp_all

text \<open>Without an \<open>#error\<close> line there is no other failure.\<close>

fun has_error_line :: "directive list \<Rightarrow> bool" where
  "has_error_line [] \<longleftrightarrow> False"
| "has_error_line (If_Group p ts es # ds) \<longleftrightarrow>
     has_error_line ts \<or> has_error_line es \<or> has_error_line ds"
| "has_error_line (Include h # ds) \<longleftrightarrow> has_error_line ds"
| "has_error_line (Define m b # ds) \<longleftrightarrow> has_error_line ds"
| "has_error_line (Error_Line msg # ds) \<longleftrightarrow> True"

lemma pp_run_no_error: "\<not> has_error_line ds \<Longrightarrow> pp_run c ds env \<noteq> Inl (Error_Directive msg)"
  by (induction c ds env rule: pp_run.induct) (auto simp del: fun_upd_apply split: sum.split)

end
