(* ===== verification/SbeMacros.thy ===== *)
theory SbeMacros
  imports Preprocessor SbeFlyweight
begin

text \<open>
  The directives the two generated headers \<open>MessageHeader.h\<close> and \<open>Tick.h\<close> begin with, one definition
  per block of lines: the language macros, the standard headers, the byte-order macros
  \<open>SBE_BIG_ENDIAN_ENCODE_*\<close> and \<open>SBE_LITTLE_ENDIAN_ENCODE_*\<close>, the macro of the bounds checks and the
  null values. Both headers repeat the same blocks, and \<open>Tick.h\<close> includes the other one. What is
  shown: the headers may be included in any order and any number of times, and the encode macros
  are the byte swaps the codec \<open>SbeHeader\<close> and \<open>SbeTick\<close> is modelled with. The replacement text of a
  macro with parameters begins with its parameter list.
\<close>

section \<open>The blocks\<close>

definition sbe_language_macros :: "directive list" where
  "sbe_language_macros =
     [If_Group (At_Least ''__cplusplus'' 201103)
        [Define ''SBE_CONSTEXPR'' ''constexpr'', Define ''SBE_NOEXCEPT'' ''noexcept'']
        [Define ''SBE_CONSTEXPR'' '''', Define ''SBE_NOEXCEPT'' ''''],
      If_Group (At_Least ''__cplusplus'' 201703)
        [Include ''string_view'', Define ''SBE_NODISCARD'' ''[[nodiscard]]'',
         Unless_Defined ''SBE_USE_STRING_VIEW'' [Define ''SBE_USE_STRING_VIEW'' ''1'']]
        [Define ''SBE_NODISCARD'' ''''],
      If_Group (At_Least ''__cplusplus'' 202002)
        [Include ''span'', Unless_Defined ''SBE_USE_SPAN'' [Define ''SBE_USE_SPAN'' ''1'']]
        [],
      Unless_Defined ''__STDC_LIMIT_MACROS'' [Define ''__STDC_LIMIT_MACROS'' ''1'']]"

definition sbe_includes :: "directive list" where
  "sbe_includes = map Include
     [''cstdint'', ''limits'', ''cstring'', ''iomanip'', ''ostream'', ''stdexcept'', ''sstream'',
      ''string'', ''vector'', ''tuple'']"

definition sbe_byte_order_macros :: "directive list" where
  "sbe_byte_order_macros =
     [If_Group (Or_Cond (Is_Defined ''WIN32'') (Is_Defined ''_WIN32''))
        [Define ''SBE_BIG_ENDIAN_ENCODE_16'' ''(v) _byteswap_ushort(v)'',
         Define ''SBE_BIG_ENDIAN_ENCODE_32'' ''(v) _byteswap_ulong(v)'',
         Define ''SBE_BIG_ENDIAN_ENCODE_64'' ''(v) _byteswap_uint64(v)'',
         Define ''SBE_LITTLE_ENDIAN_ENCODE_16'' ''(v) (v)'',
         Define ''SBE_LITTLE_ENDIAN_ENCODE_32'' ''(v) (v)'',
         Define ''SBE_LITTLE_ENDIAN_ENCODE_64'' ''(v) (v)'']
      [If_Group (Same_Value ''__BYTE_ORDER__'' ''__ORDER_LITTLE_ENDIAN__'')
        [Define ''SBE_BIG_ENDIAN_ENCODE_16'' ''(v) __builtin_bswap16(v)'',
         Define ''SBE_BIG_ENDIAN_ENCODE_32'' ''(v) __builtin_bswap32(v)'',
         Define ''SBE_BIG_ENDIAN_ENCODE_64'' ''(v) __builtin_bswap64(v)'',
         Define ''SBE_LITTLE_ENDIAN_ENCODE_16'' ''(v) (v)'',
         Define ''SBE_LITTLE_ENDIAN_ENCODE_32'' ''(v) (v)'',
         Define ''SBE_LITTLE_ENDIAN_ENCODE_64'' ''(v) (v)'']
      [If_Group (Same_Value ''__BYTE_ORDER__'' ''__ORDER_BIG_ENDIAN__'')
        [Define ''SBE_LITTLE_ENDIAN_ENCODE_16'' ''(v) __builtin_bswap16(v)'',
         Define ''SBE_LITTLE_ENDIAN_ENCODE_32'' ''(v) __builtin_bswap32(v)'',
         Define ''SBE_LITTLE_ENDIAN_ENCODE_64'' ''(v) __builtin_bswap64(v)'',
         Define ''SBE_BIG_ENDIAN_ENCODE_16'' ''(v) (v)'',
         Define ''SBE_BIG_ENDIAN_ENCODE_32'' ''(v) (v)'',
         Define ''SBE_BIG_ENDIAN_ENCODE_64'' ''(v) (v)'']
        [Error_Line
           ''Byte Ordering of platform not determined. Set __BYTE_ORDER__ manually before including this file.'']]]]"

definition sbe_bounds_macros :: "directive list" where
  "sbe_bounds_macros =
     [Unless_Defined ''SBE_BOUNDS_CHECK_EXPECT''
        [If_Group (Is_Defined ''SBE_NO_BOUNDS_CHECK'')
           [Define ''SBE_BOUNDS_CHECK_EXPECT'' ''(exp, c) (false)'']
           [If_Group (Is_Defined ''_MSC_VER'')
              [Define ''SBE_BOUNDS_CHECK_EXPECT'' ''(exp, c) (exp)'']
              [Define ''SBE_BOUNDS_CHECK_EXPECT'' ''(exp, c) (__builtin_expect(exp, c))'']]]]"

definition sbe_null_macros :: "directive list" where
  "sbe_null_macros =
     [Define ''SBE_FLOAT_NAN'' ''std::numeric_limits<float>::quiet_NaN()'',
      Define ''SBE_DOUBLE_NAN'' ''std::numeric_limits<double>::quiet_NaN()'',
      Define ''SBE_NULLVALUE_INT8'' ''(std::numeric_limits<std::int8_t>::min)()'',
      Define ''SBE_NULLVALUE_INT16'' ''(std::numeric_limits<std::int16_t>::min)()'',
      Define ''SBE_NULLVALUE_INT32'' ''(std::numeric_limits<std::int32_t>::min)()'',
      Define ''SBE_NULLVALUE_INT64'' ''(std::numeric_limits<std::int64_t>::min)()'',
      Define ''SBE_NULLVALUE_UINT8'' ''(std::numeric_limits<std::uint8_t>::max)()'',
      Define ''SBE_NULLVALUE_UINT16'' ''(std::numeric_limits<std::uint16_t>::max)()'',
      Define ''SBE_NULLVALUE_UINT32'' ''(std::numeric_limits<std::uint32_t>::max)()'',
      Define ''SBE_NULLVALUE_UINT64'' ''(std::numeric_limits<std::uint64_t>::max)()'']"

text \<open>What the two headers have in common, and the headers, each inside its include guard.\<close>

definition sbe_macros :: "directive list" where
  "sbe_macros = sbe_language_macros @ sbe_includes @ sbe_byte_order_macros @ sbe_bounds_macros
     @ sbe_null_macros"

abbreviation header_guard :: string where
  "header_guard \<equiv> ''_MARKET_SBE_MESSAGEHEADER_CXX_H_''"

abbreviation tick_guard :: string where
  "tick_guard \<equiv> ''_MARKET_SBE_TICK_CXX_H_''"

definition message_header_h :: "directive list" where
  "message_header_h = [Unless_Defined header_guard (Define header_guard '''' # sbe_macros)]"

definition tick_h :: "directive list" where
  "tick_h = [Unless_Defined tick_guard (Define tick_guard '''' # sbe_macros @ message_header_h)]"

datatype sbe_file = Header_File | Tick_File

fun sbe_file_text :: "sbe_file \<Rightarrow> directive list" where
  "sbe_file_text Header_File = message_header_h"
| "sbe_file_text Tick_File = tick_h"

section \<open>Including the headers\<close>

lemma sbe_macros_repeatable: "repeatable (pp_writes sbe_macros) sbe_macros"
  by code_simp

lemma guards_fresh:
  "header_guard \<notin> set (pp_tests sbe_macros)" "header_guard \<notin> set (pp_writes sbe_macros)"
  "tick_guard \<notin> set (pp_tests sbe_macros)" "tick_guard \<notin> set (pp_writes sbe_macros)"
  by code_simp+

lemmas sbe_macros_ignores [simp] =
  pp_run_ignores [OF guards_fresh(1,2)] pp_run_ignores [OF guards_fresh(3,4)]

lemma sbe_macros_keeps_guards:
  assumes "pp_run c sbe_macros env = Inr e"
  shows "e header_guard = env header_guard" "e tick_guard = env tick_guard"
  using repeatable_writes [OF assms sbe_macros_repeatable] guards_fresh by simp_all

text \<open>The second time the macros are defined already, as they were the first time.\<close>

lemma sbe_macros_again:
  assumes "pp_run c sbe_macros env = Inr e"
  shows "pp_run c sbe_macros e = Inr e"
  by (rule pp_run_twice [OF assms sbe_macros_repeatable])
    (simp_all add: repeatable_writes [OF assms sbe_macros_repeatable])

abbreviation guarded :: "bool \<Rightarrow> pp_env \<Rightarrow> pp_env" where
  "guarded t e \<equiv> if t then e(header_guard \<mapsto> '''', tick_guard \<mapsto> '''') else e(header_guard \<mapsto> '''')"

lemma sbe_file_first:
  assumes "env header_guard = None" "env tick_guard = None"
  shows "pp_run c (sbe_file_text f) env =
    (case pp_run c sbe_macros env of Inl x \<Rightarrow> Inl x | Inr e \<Rightarrow> Inr (guarded (f = Tick_File) e))"
proof (cases "pp_run c sbe_macros env")
  case (Inl x)
  with assms show ?thesis
    by (cases f) (simp_all del: fun_upd_apply add: message_header_h_def tick_h_def pp_run_append)
next
  case (Inr e)
  note more = sbe_macros_keeps_guards [OF Inr] sbe_macros_again [OF Inr]
  from Inr more assms show ?thesis
    by (cases f) (simp_all del: fun_upd_apply add: message_header_h_def tick_h_def pp_run_append
        fun_upd_twist [of tick_guard header_guard] fun_upd_other)
qed

lemma sbe_file_again:
  assumes "pp_run c sbe_macros e = Inr e" "e tick_guard = None"
  shows "pp_run c (sbe_file_text f) (guarded t e) = Inr (guarded (t \<or> f = Tick_File) e)"
  using assms
  by (cases f; cases t) (simp_all del: fun_upd_apply add: message_header_h_def tick_h_def
      pp_run_append fun_upd_other fun_upd_same)

lemma sbe_files_first:
  assumes "fs \<noteq> []" "env header_guard = None" "env tick_guard = None"
  shows "pp_run c (concat (map sbe_file_text fs)) env =
    (case pp_run c sbe_macros env of Inl x \<Rightarrow> Inl x | Inr e \<Rightarrow> Inr (guarded (Tick_File \<in> set fs) e))"
  using assms(1)
proof (induction fs rule: rev_nonempty_induct)
  case (single f)
  have "(f = Tick_File) = (Tick_File \<in> set [f])" by auto
  then show ?case using sbe_file_first [OF assms(2,3), of c f] by (simp only: list.map concat.simps append_Nil2)
next
  case (snoc f fs)
  show ?case
  proof (cases "pp_run c sbe_macros env")
    case (Inl x)
    with snoc.IH show ?thesis by (simp add: pp_run_append)
  next
    case (Inr e)
    have "e tick_guard = None" using sbe_macros_keeps_guards(2) [OF Inr] assms(3) by simp
    note again = sbe_file_again [OF sbe_macros_again [OF Inr] this, of f "Tick_File \<in> set fs"]
    have "(Tick_File \<in> set fs \<or> f = Tick_File) = (Tick_File \<in> set (fs @ [f]))" by auto
    with snoc.IH Inr again show ?thesis by (simp only: pp_run_append map_append concat_append) simp
  qed
qed

section \<open>Success, and what the macros are\<close>

text \<open>The macros the headers define without asking whether they are defined.\<close>

definition sbe_own_macros :: "string list" where
  "sbe_own_macros =
     [''SBE_CONSTEXPR'', ''SBE_NOEXCEPT'', ''SBE_NODISCARD'',
      ''SBE_BIG_ENDIAN_ENCODE_16'', ''SBE_BIG_ENDIAN_ENCODE_32'', ''SBE_BIG_ENDIAN_ENCODE_64'',
      ''SBE_LITTLE_ENDIAN_ENCODE_16'', ''SBE_LITTLE_ENDIAN_ENCODE_32'', ''SBE_LITTLE_ENDIAN_ENCODE_64'',
      ''SBE_FLOAT_NAN'', ''SBE_DOUBLE_NAN'', ''SBE_NULLVALUE_INT8'', ''SBE_NULLVALUE_INT16'',
      ''SBE_NULLVALUE_INT32'', ''SBE_NULLVALUE_INT64'', ''SBE_NULLVALUE_UINT8'',
      ''SBE_NULLVALUE_UINT16'', ''SBE_NULLVALUE_UINT32'', ''SBE_NULLVALUE_UINT64'']"

lemma sbe_macros_no_redefine: "no_redefine sbe_own_macros sbe_macros"
  by code_simp

text \<open>\<open>#if\<close> sees the order of the host: the number of its byte order, or Windows.\<close>

definition host_is :: "byte_order \<Rightarrow> pp_values \<Rightarrow> pp_env \<Rightarrow> bool" where
  "host_is bo c env \<longleftrightarrow>
     c ''__ORDER_LITTLE_ENDIAN__'' = 1234 \<and> c ''__ORDER_BIG_ENDIAN__'' = 4321
     \<and> c ''__BYTE_ORDER__'' = (case bo of Little_Endian \<Rightarrow> 1234 | Big_Endian \<Rightarrow> 4321)
     \<and> (env ''WIN32'' \<noteq> None \<or> env ''_WIN32'' \<noteq> None \<longrightarrow> bo = Little_Endian)"

text \<open>The function on words a replacement text of an encode macro stands for.\<close>

definition encode_text :: "string \<Rightarrow> ('a::len word \<Rightarrow> 'a word) option" where
  "encode_text s =
     (if s = ''(v) (v)'' then Some (\<lambda>v. v)
      else if LENGTH('a) = 16 \<and> s \<in> {''(v) __builtin_bswap16(v)'', ''(v) _byteswap_ushort(v)''}
        \<or> LENGTH('a) = 32 \<and> s \<in> {''(v) __builtin_bswap32(v)'', ''(v) _byteswap_ulong(v)''}
        \<or> LENGTH('a) = 64 \<and> s \<in> {''(v) __builtin_bswap64(v)'', ''(v) _byteswap_uint64(v)''}
      then Some bswap else None)"

definition encode_macro :: "pp_env \<Rightarrow> string \<Rightarrow> ('a::len word \<Rightarrow> 'a word) option" where
  "encode_macro env m = Option.bind (env m) encode_text"

definition other_order :: "byte_order \<Rightarrow> byte_order" where
  "other_order bo = (case bo of Little_Endian \<Rightarrow> Big_Endian | Big_Endian \<Rightarrow> Little_Endian)"

lemma pp_run_If_alone:
  "pp_run c [If_Group p ts es] env = pp_run c (if pp_holds c env p then ts else es) env"
  by (simp split: sum.split)

abbreviation defined_as :: "pp_env \<Rightarrow> directive list \<Rightarrow> bool" where
  "defined_as e \<equiv> list_all (\<lambda>d. case d of Define m b \<Rightarrow> e m = Some b | _ \<Rightarrow> True)"

lemma defined_texts: "pp_run c ds env = Inr e \<Longrightarrow> defined_as e ds"
  by (auto simp: list_all_iff pp_run_defines split: directive.split)

lemma sbe_byte_order_run:
  assumes "pp_run c sbe_byte_order_macros env = Inr e" and "host_is bo c env"
  shows "encode_macro e ''SBE_LITTLE_ENDIAN_ENCODE_16'' = Some (sbe_little_endian_encode bo :: u16 \<Rightarrow> _)"
    and "encode_macro e ''SBE_LITTLE_ENDIAN_ENCODE_32'' = Some (sbe_little_endian_encode bo :: u32 \<Rightarrow> _)"
    and "encode_macro e ''SBE_LITTLE_ENDIAN_ENCODE_64'' = Some (sbe_little_endian_encode bo :: u64 \<Rightarrow> _)"
    and "encode_macro e ''SBE_BIG_ENDIAN_ENCODE_16'' = Some (sbe_little_endian_encode (other_order bo) :: u16 \<Rightarrow> _)"
    and "encode_macro e ''SBE_BIG_ENDIAN_ENCODE_32'' = Some (sbe_little_endian_encode (other_order bo) :: u32 \<Rightarrow> _)"
    and "encode_macro e ''SBE_BIG_ENDIAN_ENCODE_64'' = Some (sbe_little_endian_encode (other_order bo) :: u64 \<Rightarrow> _)"
proof -
  let ?big = "[Define ''SBE_LITTLE_ENDIAN_ENCODE_16'' ''(v) __builtin_bswap16(v)'',
         Define ''SBE_LITTLE_ENDIAN_ENCODE_32'' ''(v) __builtin_bswap32(v)'',
         Define ''SBE_LITTLE_ENDIAN_ENCODE_64'' ''(v) __builtin_bswap64(v)'',
         Define ''SBE_BIG_ENDIAN_ENCODE_16'' ''(v) (v)'',
         Define ''SBE_BIG_ENDIAN_ENCODE_32'' ''(v) (v)'',
         Define ''SBE_BIG_ENDIAN_ENCODE_64'' ''(v) (v)'']"
  let ?swap = "\<lambda>a b d. [Define ''SBE_BIG_ENDIAN_ENCODE_16'' a, Define ''SBE_BIG_ENDIAN_ENCODE_32'' b,
         Define ''SBE_BIG_ENDIAN_ENCODE_64'' d,
         Define ''SBE_LITTLE_ENDIAN_ENCODE_16'' ''(v) (v)'',
         Define ''SBE_LITTLE_ENDIAN_ENCODE_32'' ''(v) (v)'',
         Define ''SBE_LITTLE_ENDIAN_ENCODE_64'' ''(v) (v)'']"
  let ?little = "?swap ''(v) __builtin_bswap16(v)'' ''(v) __builtin_bswap32(v)'' ''(v) __builtin_bswap64(v)''"
  let ?win = "?swap ''(v) _byteswap_ushort(v)'' ''(v) _byteswap_ulong(v)'' ''(v) _byteswap_uint64(v)''"
  have run: "bo = Big_Endian \<and> pp_run c ?big env = Inr e
      \<or> bo = Little_Endian \<and> (pp_run c ?little env = Inr e \<or> pp_run c ?win env = Inr e)"
    using assms unfolding sbe_byte_order_macros_def pp_run_If_alone
    by (cases bo) (auto simp: host_is_def pp_run_If_alone simp del: pp_run.simps split: if_splits)
  note look = encode_macro_def encode_text_def other_order_def sbe_little_endian_encode_def
  from run have texts: "bo = Big_Endian \<and> defined_as e ?big
      \<or> bo = Little_Endian \<and> (defined_as e ?little
        \<or> defined_as e ?win)"
    using defined_texts by blast
  show "encode_macro e ''SBE_LITTLE_ENDIAN_ENCODE_16'' = Some (sbe_little_endian_encode bo :: u16 \<Rightarrow> _)"
    and "encode_macro e ''SBE_LITTLE_ENDIAN_ENCODE_32'' = Some (sbe_little_endian_encode bo :: u32 \<Rightarrow> _)"
    and "encode_macro e ''SBE_LITTLE_ENDIAN_ENCODE_64'' = Some (sbe_little_endian_encode bo :: u64 \<Rightarrow> _)"
    and "encode_macro e ''SBE_BIG_ENDIAN_ENCODE_16'' = Some (sbe_little_endian_encode (other_order bo) :: u16 \<Rightarrow> _)"
    and "encode_macro e ''SBE_BIG_ENDIAN_ENCODE_32'' = Some (sbe_little_endian_encode (other_order bo) :: u32 \<Rightarrow> _)"
    and "encode_macro e ''SBE_BIG_ENDIAN_ENCODE_64'' = Some (sbe_little_endian_encode (other_order bo) :: u64 \<Rightarrow> _)"
    using texts by (auto simp: look fun_eq_iff)
qed

lemma sbe_bounds_run:
  assumes "pp_run c sbe_bounds_macros env = Inr e"
  shows "e ''SBE_BOUNDS_CHECK_EXPECT'' = Some (case env ''SBE_BOUNDS_CHECK_EXPECT'' of
      Some text \<Rightarrow> text
    | None \<Rightarrow> if env ''SBE_NO_BOUNDS_CHECK'' \<noteq> None then ''(exp, c) (false)''
        else if env ''_MSC_VER'' \<noteq> None then ''(exp, c) (exp)''
        else ''(exp, c) (__builtin_expect(exp, c))'')"
  using assms unfolding sbe_bounds_macros_def pp_run_If_alone by (auto split: if_splits)

text \<open>A run of all the blocks is a run of the byte-order block and one of the bounds block.\<close>

lemma sbe_macros_runs:
  assumes "pp_run c sbe_macros env = Inr e"
  obtains env1 env2 env3 where
    "pp_run c (sbe_language_macros @ sbe_includes) env = Inr env1"
    "pp_run c sbe_byte_order_macros env1 = Inr env2"
    "pp_run c sbe_bounds_macros env2 = Inr env3"
    "pp_run c sbe_null_macros env3 = Inr e"
proof -
  from assms have "pp_run c ((sbe_language_macros @ sbe_includes) @ sbe_byte_order_macros
      @ sbe_bounds_macros @ sbe_null_macros) env = Inr e" by (simp only: sbe_macros_def append_assoc)
  then obtain env1 where "pp_run c (sbe_language_macros @ sbe_includes) env = Inr env1"
    and "pp_run c (sbe_byte_order_macros @ sbe_bounds_macros @ sbe_null_macros) env1 = Inr e"
    using pp_run_append_Inr by blast
  then show ?thesis using that pp_run_append_Inr by meson
qed

lemma sbe_blocks_write:
  "list_all (\<lambda>m. m \<notin> set (pp_writes (sbe_language_macros @ sbe_includes)))
     [''WIN32'', ''_WIN32'', ''SBE_BOUNDS_CHECK_EXPECT'', ''SBE_NO_BOUNDS_CHECK'', ''_MSC_VER'']"
  "list_all (\<lambda>m. m \<notin> set (pp_writes sbe_byte_order_macros))
     [''SBE_BOUNDS_CHECK_EXPECT'', ''SBE_NO_BOUNDS_CHECK'', ''_MSC_VER'']"
  by code_simp+

text \<open>The headers are rejected only on a host whose byte order the compiler does not tell.\<close>

lemma sbe_macros_succeed:
  assumes "host_is bo c env" and "\<forall>m\<in>set sbe_own_macros. env m = None"
  shows "\<exists>e. pp_run c sbe_macros env = Inr e"
proof (cases "pp_run c sbe_macros env")
  case (Inl x)
  have "pp_run c sbe_language_macros env1 \<noteq> Inl (Error_Directive msg)"
    "pp_run c sbe_includes env1 \<noteq> Inl (Error_Directive msg)"
    "pp_run c sbe_bounds_macros env1 \<noteq> Inl (Error_Directive msg)"
    "pp_run c sbe_null_macros env1 \<noteq> Inl (Error_Directive msg)" for env1 msg
    by (intro pp_run_no_error; code_simp)+
  moreover have "pp_run c sbe_byte_order_macros env1 \<noteq> Inl (Error_Directive msg)" for env1 msg
    using assms(1) unfolding sbe_byte_order_macros_def host_is_def
    by (cases bo) (simp_all add: pp_run_If_alone pp_run_no_error del: pp_run.simps)
  ultimately have "x \<noteq> Error_Directive msg" for msg
    using Inl unfolding sbe_macros_def by (auto simp: pp_run_append split: sum.splits)
  moreover have "x \<noteq> Redefined m" for m
    using Inl pp_run_no_redefine [OF sbe_macros_no_redefine, of env c m] assms(2) by auto
  ultimately show ?thesis by (metis pp_error.exhaust)
qed blast

text \<open>
  C38: However often and in whatever order a translation unit includes \<open>MessageHeader.h\<close> and
  \<open>Tick.h\<close>, on a compiler that tells the byte order of the target and with none of their macros
  (nor their include guards) defined before, no macro is defined twice with different texts and no
  \<open>#error\<close> is reached; the macros defined afterwards are the same, include guards apart. The three
  little-endian encode macros stand for the byte swaps of the codec on that host, the three
  big-endian ones for those on a host of the other byte order, on Windows too, and the bounds checks
  for the one the configuration asks for.
\<close>

theorem sbe_headers_any_order:
  assumes "host_is bo c env"
    and "\<forall>m\<in>set (header_guard # tick_guard # sbe_own_macros). env m = None"
  shows "\<exists>e. (\<forall>fs. fs \<noteq> [] \<longrightarrow> pp_run c (concat (map sbe_file_text fs)) env =
        Inr (if Tick_File \<in> set fs then e(header_guard \<mapsto> '''', tick_guard \<mapsto> '''')
             else e(header_guard \<mapsto> '''')))
     \<and> encode_macro e ''SBE_LITTLE_ENDIAN_ENCODE_16'' = Some (sbe_little_endian_encode bo :: u16 \<Rightarrow> _)
     \<and> encode_macro e ''SBE_LITTLE_ENDIAN_ENCODE_32'' = Some (sbe_little_endian_encode bo :: u32 \<Rightarrow> _)
     \<and> encode_macro e ''SBE_LITTLE_ENDIAN_ENCODE_64'' = Some (sbe_little_endian_encode bo :: u64 \<Rightarrow> _)
     \<and> encode_macro e ''SBE_BIG_ENDIAN_ENCODE_16'' = Some (sbe_little_endian_encode (other_order bo) :: u16 \<Rightarrow> _)
     \<and> encode_macro e ''SBE_BIG_ENDIAN_ENCODE_32'' = Some (sbe_little_endian_encode (other_order bo) :: u32 \<Rightarrow> _)
     \<and> encode_macro e ''SBE_BIG_ENDIAN_ENCODE_64'' = Some (sbe_little_endian_encode (other_order bo) :: u64 \<Rightarrow> _)
     \<and> e ''SBE_BOUNDS_CHECK_EXPECT'' = Some (case env ''SBE_BOUNDS_CHECK_EXPECT'' of
           Some text \<Rightarrow> text
         | None \<Rightarrow> if env ''SBE_NO_BOUNDS_CHECK'' \<noteq> None then ''(exp, c) (false)''
             else if env ''_MSC_VER'' \<noteq> None then ''(exp, c) (exp)''
             else ''(exp, c) (__builtin_expect(exp, c))'')"
proof -
  obtain e where run: "pp_run c sbe_macros env = Inr e"
    using sbe_macros_succeed [OF assms(1)] assms(2) by auto
  obtain env1 env2 env3 where blocks:
    "pp_run c (sbe_language_macros @ sbe_includes) env = Inr env1"
    "pp_run c sbe_byte_order_macros env1 = Inr env2"
    "pp_run c sbe_bounds_macros env2 = Inr env3"
    "pp_run c sbe_null_macros env3 = Inr e" by (rule sbe_macros_runs [OF run])
  note first = pp_run_writes [OF blocks(1)] and second = pp_run_writes [OF blocks(2)]
  have host: "host_is bo c env1"
    using assms(1) first [of "''WIN32''"] first [of "''_WIN32''"] sbe_blocks_write(1)
    by (simp add: host_is_def)
  have later: "encode_macro env2 m = Some f \<Longrightarrow> encode_macro e m = Some f" for m and f :: "'b::len word \<Rightarrow> _"
    using pp_run_keeps [OF blocks(3)] pp_run_keeps [OF blocks(4)]
    by (auto simp: encode_macro_def bind_eq_Some_conv)
  have "env2 m = env m" if "m \<in> {''SBE_BOUNDS_CHECK_EXPECT'', ''SBE_NO_BOUNDS_CHECK'', ''_MSC_VER''}" for m
    using that first [of m] second [of m] sbe_blocks_write by auto
  then have same: "env2 ''SBE_BOUNDS_CHECK_EXPECT'' = env ''SBE_BOUNDS_CHECK_EXPECT''"
    "env2 ''SBE_NO_BOUNDS_CHECK'' = env ''SBE_NO_BOUNDS_CHECK''" "env2 ''_MSC_VER'' = env ''_MSC_VER''"
    by blast+
  note bounds = pp_run_keeps [OF blocks(4) sbe_bounds_run [OF blocks(3), unfolded same]]
  show ?thesis
  proof (intro exI [of _ e] conjI allI impI)
    fix fs :: "sbe_file list"
    assume "fs \<noteq> []"
    then show "pp_run c (concat (map sbe_file_text fs)) env = Inr (guarded (Tick_File \<in> set fs) e)"
      using sbe_files_first [of fs env c] run assms(2) by simp
  qed (rule bounds later sbe_byte_order_run [OF blocks(2) host])+
qed

text \<open>A big-endian compiler, with the bounds checks switched off on the command line.\<close>

lemma sbe_headers_any_order_witness:
  "\<exists>e. pp_run (\<lambda>x. if x = ''__ORDER_LITTLE_ENDIAN__'' then 1234
         else if x = ''__ORDER_BIG_ENDIAN__'' \<or> x = ''__BYTE_ORDER__'' then 4321
         else if x = ''__cplusplus'' then 202002 else 0)
       (concat (map sbe_file_text [Tick_File, Header_File, Tick_File])) [''SBE_NO_BOUNDS_CHECK'' \<mapsto> '''']
       = Inr (e(header_guard \<mapsto> '''', tick_guard \<mapsto> ''''))
     \<and> encode_macro e ''SBE_LITTLE_ENDIAN_ENCODE_32'' = Some (bswap :: u32 \<Rightarrow> _)
     \<and> e ''SBE_BOUNDS_CHECK_EXPECT'' = Some ''(exp, c) (false)''"
proof -
  let ?c = "\<lambda>x. if x = ''__ORDER_LITTLE_ENDIAN__'' then 1234
         else if x = ''__ORDER_BIG_ENDIAN__'' \<or> x = ''__BYTE_ORDER__'' then 4321
         else if x = ''__cplusplus'' then 202002 else 0 :: int"
  let ?env = "[''SBE_NO_BOUNDS_CHECK'' \<mapsto> ''''] :: pp_env"
  have "host_is Big_Endian ?c ?env" by (simp add: host_is_def)
  moreover have "\<forall>m\<in>set (header_guard # tick_guard # sbe_own_macros). ?env m = None"
    by (simp add: sbe_own_macros_def)
  ultimately obtain e where e: "\<forall>fs. fs \<noteq> [] \<longrightarrow> pp_run ?c (concat (map sbe_file_text fs)) ?env =
        Inr (if Tick_File \<in> set fs then e(header_guard \<mapsto> '''', tick_guard \<mapsto> '''')
             else e(header_guard \<mapsto> ''''))"
    "encode_macro e ''SBE_LITTLE_ENDIAN_ENCODE_32'' = Some (sbe_little_endian_encode Big_Endian :: u32 \<Rightarrow> _)"
    "e ''SBE_BOUNDS_CHECK_EXPECT'' = Some ''(exp, c) (false)''"
    using sbe_headers_any_order [of Big_Endian ?c ?env] by auto
  show ?thesis
    using e(1) [rule_format, of "[Tick_File, Header_File, Tick_File]"] e(2,3)
    by (intro exI [of _ e]) (simp add: sbe_little_endian_encode_def fun_eq_iff del: fun_upd_apply)
qed

text \<open>
  A compiler that knows none of the three byte-order identifiers is not rejected: \<open>#if\<close> compares 0
  with 0 and the little-endian macros are taken.
\<close>

lemma sbe_unknown_byte_order:
  "\<exists>e. pp_run (\<lambda>x. 0) sbe_byte_order_macros Map.empty = Inr e
    \<and> e ''SBE_LITTLE_ENDIAN_ENCODE_16'' = Some ''(v) (v)''"
  by (simp add: sbe_byte_order_macros_def)

end
