(* ===== verification/SbeUnchecked.thy ===== *)
theory SbeUnchecked
  imports SbeCodec SbeFlyweight
begin

text \<open>
  The codec in every build: what \<open>SBE_BOUNDS_CHECK_EXPECT\<close> expands to decides whether the flyweights
  check their bounds. The functions with a check, and \<open>encode_tick\<close> and \<open>decode_tick\<close> over them, take
  the build as a parameter here. With checks they are those of \<open>SbeHeader\<close>, \<open>SbeTick\<close> and \<open>SbeCodec\<close>;
  without, \<open>encode_tick\<close> is the same function, \<open>decode_tick\<close> is one on the messages the checked build
  accepts or refuses, and reads outside the buffer on truncated ones.
\<close>

section \<open>The functions with a bounds check\<close>

definition header_new_in :: "sbe_build \<Rightarrow> buffer_ptr \<Rightarrow> u64 \<Rightarrow> u64 \<Rightarrow> u64 \<Rightarrow> message_header res" where
  "header_new_in b buffer off len ver =
     (if sbe_bounds_check_expect b (off + 8 > len) False
      then Inl (Runtime_Error ''buffer too short for flyweight [E107]'')
      else Inr \<lparr>h_buffer = buffer, h_bufferLength = len, h_offset = off, h_actingVersion = ver\<rparr>)"

definition header_wrap_in ::
  "sbe_build \<Rightarrow> message_header \<Rightarrow> buffer_ptr \<Rightarrow> u64 \<Rightarrow> u64 \<Rightarrow> u64 \<Rightarrow> unit res \<times> message_header" where
  "header_wrap_in b h buffer off ver len =
     (let h' = h\<lparr>h_buffer := buffer, h_bufferLength := len, h_offset := off, h_actingVersion := ver\<rparr>
      in (if sbe_bounds_check_expect b (h_offset h' + 8 > h_bufferLength h') False
          then Inl (Runtime_Error ''buffer too short for flyweight [E107]'') else Inr (), h'))"

definition sbeCheckPosition_in :: "sbe_build \<Rightarrow> tick \<Rightarrow> u64 \<Rightarrow> u64 res" where
  "sbeCheckPosition_in b t position =
     (if sbe_bounds_check_expect b (position > t_bufferLength t) False
      then Inl (Runtime_Error ''buffer too short [E100]'')
      else Inr position)"

definition set_sbePosition_in :: "sbe_build \<Rightarrow> tick \<Rightarrow> u64 \<Rightarrow> unit res \<times> tick" where
  "set_sbePosition_in b t position =
     (case sbeCheckPosition_in b t position of
        Inl e \<Rightarrow> (Inl e, t)
      | Inr p \<Rightarrow> (Inr (), t\<lparr>t_position := p\<rparr>))"

definition wrapForEncode_in :: "sbe_build \<Rightarrow> tick \<Rightarrow> buffer_ptr \<Rightarrow> u64 \<Rightarrow> u64 \<Rightarrow> unit res \<times> tick" where
  "wrapForEncode_in b t buffer off len =
     (let t' = t\<lparr>t_buffer := buffer, t_bufferLength := len, t_offset := off,
                 t_actingBlockLength := ucast sbeBlockLength,
                 t_actingVersion := ucast sbeSchemaVersion\<rparr>
      in set_sbePosition_in b t' (t_offset t' + t_actingBlockLength t'))"

definition wrapForDecode_in ::
  "sbe_build \<Rightarrow> tick \<Rightarrow> buffer_ptr \<Rightarrow> u64 \<Rightarrow> u64 \<Rightarrow> u64 \<Rightarrow> u64 \<Rightarrow> unit res \<times> tick" where
  "wrapForDecode_in b t buffer off block ver len =
     (let t' = t\<lparr>t_buffer := buffer, t_bufferLength := len, t_offset := off,
                 t_actingBlockLength := block, t_actingVersion := ver\<rparr>
      in set_sbePosition_in b t' (t_offset t' + t_actingBlockLength t'))"

definition wrapAndApplyHeader_in ::
  "sbe_build \<Rightarrow> byte_order \<Rightarrow> tick \<Rightarrow> buffer_ptr \<Rightarrow> u64 \<Rightarrow> u64 \<Rightarrow> u8 list \<Rightarrow> unit res \<times> tick \<times> u8 list"
  where
  "wrapAndApplyHeader_in b bo t buffer off len mem =
     (case res_bind (header_new_in b buffer off len (ucast sbeSchemaVersion))
             (\<lambda>hdr. apply_header bo hdr mem) of
        Inl e \<Rightarrow> (Inl e, t, mem)
      | Inr mem' \<Rightarrow>
          (let t' = t\<lparr>t_buffer := buffer, t_bufferLength := len,
                      t_offset := off + header_encodedLength,
                      t_actingBlockLength := ucast sbeBlockLength,
                      t_actingVersion := ucast sbeSchemaVersion\<rparr>;
               (r, t'') = set_sbePosition_in b t' (t_offset t' + t_actingBlockLength t')
           in (r, t'', mem')))"

section \<open>The helpers over them\<close>

definition encode_tick_in ::
  "sbe_build \<Rightarrow> byte_order \<Rightarrow> u8 list \<Rightarrow> tick_values \<Rightarrow> (size_t \<times> u8 list) res" where
  "encode_tick_in b bo dst v =
     (if size_of_list dst < kTickWireBytes then Inr (0, dst)
      else case wrapAndApplyHeader_in b bo tick_default (Some 0) 0 (size_of_list dst) dst of
             (Inl e, _, _) \<Rightarrow> Inl e
           | (Inr _, t, mem) \<Rightarrow>
               res_bind (set_fields bo t (tv_instrument_id v) (tv_price_ticks v) (tv_qty v)
                           (tv_seq v) (tv_ts_ns v) mem)
                 (\<lambda>mem'. Inr (kTickWireBytes, mem')))"

definition decode_tick_in ::
  "sbe_build \<Rightarrow> byte_order \<Rightarrow> u8 list \<Rightarrow> tick_values \<Rightarrow> (bool \<times> tick_values) res" where
  "decode_tick_in b bo src out =
     (if size_of_list src < header_encodedLength then Inr (False, out)
      else res_bind (header_new_in b (Some 0) 0 (size_of_list src) (ucast sbeSchemaVersion)) (\<lambda>hdr.
           res_bind (schemaId bo hdr src) (\<lambda>sid.
           if sid \<noteq> sbeSchemaId then Inr (False, out)
           else res_bind (templateId bo hdr src) (\<lambda>tid.
           if tid \<noteq> sbeTemplateId then Inr (False, out)
           else res_bind (blockLength bo hdr src) (\<lambda>bl.
                res_bind (version bo hdr src) (\<lambda>ver.
                case wrapForDecode_in b tick_default (Some 0) header_encodedLength (ucast bl) (ucast ver)
                       (size_of_list src) of
                  (Inl e, _) \<Rightarrow> Inl e
                | (Inr _, t) \<Rightarrow> res_bind (read_values bo t src) (\<lambda>v. Inr (True, v))))))))"

section \<open>Builds with checks\<close>

lemma checked_build [simp]:
  "b \<noteq> Sbe_No_Bounds_Check \<Longrightarrow> sbe_bounds_check_expect b e c = e"
  by (cases b) simp_all

lemmas sbe_in_defs = header_new_in_def header_wrap_in_def sbeCheckPosition_in_def
  set_sbePosition_in_def wrapForEncode_in_def wrapForDecode_in_def wrapAndApplyHeader_in_def

lemma checked_codec:
  assumes "b \<noteq> Sbe_No_Bounds_Check"
  shows "header_new_in b = header_new" and "header_wrap_in b = header_wrap"
    and "wrapForEncode_in b = wrapForEncode" and "wrapForDecode_in b = wrapForDecode"
    and "wrapAndApplyHeader_in b = wrapAndApplyHeader"
    and "encode_tick_in b = encode_tick" and "decode_tick_in b = decode_tick"
proof -
  show new: "header_new_in b = header_new" and "header_wrap_in b = header_wrap"
    using assms by (simp_all add: fun_eq_iff sbe_in_defs header_new_def header_wrap_def header_too_short_def)
  have pos: "set_sbePosition_in b = set_sbePosition"
    using assms by (simp add: fun_eq_iff sbe_in_defs tick_wrap_defs)
  show "wrapForEncode_in b = wrapForEncode" and wd: "wrapForDecode_in b = wrapForDecode"
    by (intro ext; simp add: wrapForEncode_in_def wrapForDecode_in_def wrapForEncode_def
        wrapForDecode_def pos)+
  show wa: "wrapAndApplyHeader_in b = wrapAndApplyHeader"
    unfolding wrapAndApplyHeader_in_def [abs_def] wrapAndApplyHeader_def [abs_def] new pos ..
  show "encode_tick_in b = encode_tick" "decode_tick_in b = decode_tick"
    unfolding encode_tick_in_def [abs_def] encode_tick_def [abs_def] decode_tick_in_def [abs_def]
      decode_tick_def [abs_def] new wa wd by (rule refl)+
qed

section \<open>The build without checks\<close>

abbreviation no_checks :: sbe_build where "no_checks \<equiv> Sbe_No_Bounds_Check"

text \<open>Nothing throws, and where the checked function does not throw either it is the same.\<close>

lemma unchecked_wraps:
  "header_new_in no_checks buffer off len ver =
     Inr \<lparr>h_buffer = buffer, h_bufferLength = len, h_offset = off, h_actingVersion = ver\<rparr>"
  "set_sbePosition_in no_checks t p = (Inr (), t\<lparr>t_position := p\<rparr>)"
  by (simp_all add: sbe_in_defs)

lemma unchecked_agrees:
  "header_new buffer off len ver = Inr h \<Longrightarrow> header_new_in no_checks buffer off len ver = Inr h"
  "set_sbePosition t p = (Inr (), t') \<Longrightarrow> set_sbePosition_in no_checks t p = (Inr (), t')"
  "wrapAndApplyHeader bo t buffer off len mem = (Inr (), t', mem') \<Longrightarrow>
     wrapAndApplyHeader_in no_checks bo t buffer off len mem = (Inr (), t', mem')"
proof -
  show new: "header_new buffer off len ver = Inr h \<Longrightarrow> header_new_in no_checks buffer off len ver = Inr h"
    for buffer off len ver h
    by (auto simp: unchecked_wraps header_new_def split: if_splits)
  show pos: "set_sbePosition t p = (Inr (), t') \<Longrightarrow> set_sbePosition_in no_checks t p = (Inr (), t')"
    for t p t'
    by (auto simp: unchecked_wraps tick_wrap_defs split: if_splits)
  show "wrapAndApplyHeader bo t buffer off len mem = (Inr (), t', mem') \<Longrightarrow>
     wrapAndApplyHeader_in no_checks bo t buffer off len mem = (Inr (), t', mem')"
    by (auto simp: wrapAndApplyHeader_def wrapAndApplyHeader_in_def Let_def header_new_def unchecked_wraps
        tick_wrap_defs split: sum.splits if_splits)
qed

lemma encode_tick_unchecked:
  assumes "length dst < 2 ^ 64"
  shows "encode_tick_in b bo dst v = encode_tick bo dst v"
proof (cases "b = no_checks \<and> \<not> size_of_list dst < kTickWireBytes")
  case False
  then consider "b \<noteq> no_checks" | "size_of_list dst < kTickWireBytes" by blast
  then show ?thesis
    by cases (simp add: checked_codec(6), simp add: encode_tick_def encode_tick_in_def)
next
  case True
  obtain r t mem where w: "wrapAndApplyHeader bo tick_default (Some 0) 0 (size_of_list dst) dst = (r, t, mem)"
    by (cases "wrapAndApplyHeader bo tick_default (Some 0) 0 (size_of_list dst) dst")
  have "r = Inr ()"
    using True assms wrapAndApplyHeader_cases [OF _ _ w]
    by (simp add: kTickWireBytes_def tick_const_defs word_less_nat_alt)
  then show ?thesis using True w unchecked_agrees(3) [of bo] by (simp add: encode_tick_def encode_tick_in_def)
qed

lemma decode_tick_unchecked:
  assumes len: "length src < 2 ^ 64"
  shows "decode_tick_in no_checks bo src out =
    (if length src < 8 \<or> wire_u16 src 4 \<noteq> sbeSchemaId \<or> wire_u16 src 2 \<noteq> sbeTemplateId
     then Inr (False, out)
     else if length src < 32 then Inl Out_Of_Bounds
     else Inr (True, wire_values src))"
proof (cases "length src < 8")
  case True
  with len show ?thesis
    by (simp add: decode_tick_in_def header_encodedLength_def word_less_nat_alt)
next
  case False
  have size: "\<not> size_of_list src < 8"
    using False len by (simp add: word_less_nat_alt)
  let ?h = "\<lparr>h_buffer = Some 0, h_bufferLength = size_of_list src, h_offset = 0,
    h_actingVersion = ucast sbeSchemaVersion\<rparr>"
  note read = header_read16 [OF len, of ?h "size_of_list src" "ucast sbeSchemaVersion" bo]
  show ?thesis
    using False unfolding decode_tick_in_def
    by (simp add: size unchecked_wraps wrapForDecode_in_def read read_values_eq tick_default_def
        header_encodedLength_def)
qed

text \<open>
  C31: What switching the bounds checks off changes. Every build with checks has the same codec.
  Without them \<open>encode_tick\<close> is the same function on every buffer, since it compares the size itself;
  \<open>decode_tick\<close> never throws, gives the same answer whenever the checked one returns, accepts every
  buffer of at least 32 bytes with the ids of \<open>Tick\<close> whatever block length it announces, and reads
  outside the buffer exactly where the checked one throws or does so as well.
\<close>

theorem sbe_unchecked_build:
  assumes src: "length src < 2 ^ 64" and dst: "length dst < 2 ^ 64"
  shows "(b \<noteq> Sbe_No_Bounds_Check \<longrightarrow> decode_tick_in b bo src out = decode_tick bo src out)
    \<and> encode_tick_in b bo dst v = encode_tick bo dst v
    \<and> (case decode_tick bo src out of
         Inr r \<Rightarrow> decode_tick_in Sbe_No_Bounds_Check bo src out = Inr r
       | Inl e \<Rightarrow> decode_tick_in Sbe_No_Bounds_Check bo src out =
           (if 32 \<le> length src then Inr (True, wire_values src) else Inl Out_Of_Bounds))"
  using checked_codec(7) [of b] encode_tick_unchecked [OF dst, of b bo v]
  by (simp add: decode_tick_unchecked [OF src] decode_tick_eq [OF src])

text \<open>
  A block length of 25 in a buffer of 32 bytes: the checked build throws, the other one returns the
  values.
\<close>

theorem sbe_unchecked_build_witness:
  "decode_tick_in Sbe_No_Bounds_Check Big_Endian
      (header_bytes 25 sbeTemplateId sbeSchemaId sbeSchemaVersion @ replicate 24 0) tick_values_default
    = Inr (True, tick_values_default)"
proof -
  let ?src = "header_bytes 25 sbeTemplateId sbeSchemaId sbeSchemaVersion @ replicate 24 0"
  have len: "length ?src = 32" by (simp add: header_bytes_def)
  have "wire_u16 ?src 0 = 25" "wire_u16 ?src 2 = sbeTemplateId" "wire_u16 ?src 4 = sbeSchemaId"
    by (simp_all add: wire_u16_def header_bytes_def)
  then have "decode_tick Big_Endian ?src tick_values_default = Inl (Runtime_Error ''buffer too short [E100]'')"
    using len by (simp add: decode_tick_eq)
  moreover have "wire_values ?src = tick_values_default"
    by (simp add: wire_values_def header_bytes_def tick_values_default_def) code_simp
  ultimately show ?thesis
    using sbe_unchecked_build [of ?src "[]" Sbe_No_Bounds_Check Big_Endian tick_values_default] len by simp
qed

end
