(* ===== verification/Spec2Isabelle.thy ===== *)
theory Spec2Isabelle
  imports SpscLiveness SpscEmpty SpscMove SpscOrders SbeCodec SbeStyle SbeFlyweight PmrArena ObjectPool CacheLine
    KernelBypass LatencyBuffer HdrC LinuxUring LinuxNuma Umbrella Examples ExamplePrograms
    SmallPrograms FeedStrat StressTest LibraryTests ProgramOutput SmokeMain SbeMacros SbeUnchecked
begin

text \<open>
  A verification development for the \<open>cpp26-systems-stack\<close>: the header-only low-latency library
  under \<open>include/ll\<close>, the SBE codec generated from its message schema under
  \<open>generated/sbe/market_sbe\<close>, the example programs that use them, and the smoke test
  \<open>src/main.cpp\<close> of the libraries the stack installs.

  The program. Market data arrives as SBE messages: a receiver (\<open>ll::bypass\<close>) hands out views of
  packets, the generated flyweights (\<open>market::sbe::MessageHeader\<close>, \<open>market::sbe::Tick\<close>) read and
  write fields in place, and \<open>ll::sbe_gen\<close> and \<open>ll::sbe\<close> wrap them. Values go from thread to
  thread through \<open>ll::SpscQueue\<close>, a bounded ring for one producer and one consumer that is
  synchronised by release stores and acquire loads only. Memory on the hot path comes from
  \<open>ll::Arena\<close>, \<open>ll::PmrMonotonicArena\<close> and \<open>ll::ObjectPool\<close>; latencies go to \<open>ll::LatencyBuffer\<close> and
  to the histograms \<open>ll::HdrLatencyHistogram\<close> and \<open>ll::HdrHistogramC\<close>. \<open>ll::numa\<close>, \<open>ll::uring\<close> and the
  affinity, jemalloc and struct_pack helpers wrap libraries and system calls.

  Theories, in the order of their imports.

  \<^item> \<open>Prelude\<close>: machine integers as words, results of operations that can throw or run into
    undefined behaviour (\<open>'a res\<close>), array accesses, masks, rings of a power-of-two size.
  \<^item> \<open>FifoSpec\<close>: the abstract bounded FIFO queue, the locale \<open>fifo_queue\<close> of what the clients of
    a queue rely on, and one client, the loop of \<open>benchmarks/bench_queues.cpp\<close>.
  \<^item> \<open>SpscQueue\<close>: \<open>ll::SpscQueue\<close> (\<open>include/ll/spsc_queue.hpp\<close>) used from one thread: the record
    \<open>spsc\<close> holds \<open>head_\<close>, \<open>tail_\<close> and \<open>slots_\<close>; \<open>try_push\<close>, \<open>try_push_move\<close> (the overload for
    rvalues), \<open>try_pop\<close> and \<open>q_empty\<close> are its members. It interprets \<open>fifo_queue\<close>, from which the
    refinement of the list queue follows.
  \<^item> \<open>RelAcq\<close>: the part of the C++ memory model the repository uses, as a machine: histories of
    stores, what each thread has been told, data races as an error.
  \<^item> \<open>SpscThreads\<close>: \<open>try_push\<close> and \<open>try_pop\<close> again, one memory access per step, in two threads on
    that machine; every interleaving and every stale value a load may return is a run of
    \<open>spsc_reach\<close>. The invariant relates indices, histories, clocks and slot contents; from it
    follow freedom from data races, FIFO order and when exactly a call refuses. \<open>SpscEmpty\<close> lets
    either thread call \<open>empty()\<close> between its other calls, and gives what the answer is worth;
    \<open>SpscMove\<close> pushes with \<open>try_push(T&&)\<close>: a refusal leaves the argument as it was. \<open>SpscOrders\<close>
    has the memory orders of the six accesses as parameters, and which choices are free of data races.
  \<^item> \<open>MemoryOrder\<close>: \<open>examples/memory_order\<close>, the payload-then-flag handoff, with its memory orders
    as parameters: release/acquire is enough, and neither can be weakened.
  \<^item> \<open>Bytes\<close>: \<open>memcpy\<close> from and to a buffer, object representations on little-endian and
    big-endian hosts, and the locale \<open>wire_codec\<close> of a field at a fixed place.
  \<^item> \<open>Decimal\<close>: decimal output, and reading it back.
  \<^item> \<open>SbeHeader\<close>, \<open>SbeTick\<close>: the generated flyweights, member by member, with the memory they
    point into passed beside them; \<open>SbeCodec\<close>: \<open>encode_tick\<close> and \<open>decode_tick\<close>; \<open>SbeStyle\<close>: the
    packed struct \<open>TickMsg\<close>. All are parameterised by the byte order of the host, and round trips
    are proved between hosts of different byte order. \<open>SbeFlyweight\<close>: the rest of both classes (the
    macros of \<open>Tick.h\<close>, the accessors of buffer, offset and position) and sequences of calls on one
    flyweight, with where its position can be. \<open>SbeUnchecked\<close>: the same functions with the build as
    a parameter, and what defining \<open>SBE_NO_BOUNDS_CHECK\<close> changes.
  \<^item> \<open>Preprocessor\<close>: \<open>#define\<close>, \<open>#if\<close>, \<open>#include\<close> and \<open>#error\<close> as a small language, with what a list of
    directives reads and writes and when it can be repeated; \<open>SbeMacros\<close>: the directives of
    \<open>MessageHeader.h\<close> and \<open>Tick.h\<close> in it: the headers can be included in any order, and their macros
    are the byte swaps \<open>SbeHeader\<close> is modelled with.
  \<^item> \<open>Arena\<close>, \<open>ObjectPool\<close>: \<open>include/ll/arena.hpp\<close>, with the locales \<open>upward_allocator\<close> and
    \<open>checkout_pool\<close> for what their clients rely on.
  \<^item> \<open>KernelBypass\<close>: \<open>include/ll/kernel_bypass.hpp\<close>: the locale \<open>poll_mode_rx\<close> is the contract of
    \<open>IPollModeRx\<close>, interpreted on \<open>StubPollModeRx\<close>, directly and through the table of its virtual
    functions; the stub refines a one-packet mailbox.
  \<^item> \<open>LatencyBuffer\<close>: the sample buffer of \<open>include/ll/tsc_clock.hpp\<close>.
  \<^item> \<open>SpscLiveness\<close>: executions of the two-thread programs as infinite sequences of steps. In a fair
    execution, where each thread that can step does so again and again and stores become visible
    in the end, every pushed item is popped and the spin loop of the handoff ends; a call of the
    queue is wait-free: it returns within a fixed number of its own steps.
  \<^item> \<open>Relay\<close>: the two threads with the loops around their calls, for any number of items, any items and
    any loop body: the locale \<open>relay\<close> proves that in a fair execution both end with all items arrived.
    \<open>FeedStrat\<close> (\<open>examples/spsc\<close>) and \<open>StressTest\<close> (the stress test of \<open>tests/test_ll_modules.cpp\<close>)
    interpret it: the first prints one possible line, the second ends with the sum it requires.
  \<^item> \<open>RepoTests\<close>: the tests of the repository that run in one thread and check its own components,
    as programs over the models: they pass. \<open>LibraryTests\<close>: those of the wrappers around libnuma,
    liburing and HdrHistogram_c, which pass without the library and with one that keeps its
    documentation.
  \<^item> \<open>Binary64\<close>: the arithmetic of \<open>double\<close> (rounding to nearest even, subnormals), with the locale
    \<open>fp_round\<close>; \<open>HdrHistogram\<close>: \<open>include/ll/hdr_histogram.hpp\<close>, its counters, and which sample
    \<open>value_at_percentile\<close> stands for after the rounding of its rank.
  \<^item> \<open>ExternalCalls\<close>: libraries as environments. An environment answers each call from the calls
    made before; the calls are recorded in a trace, and a protocol says which traces use the
    library properly. The locales \<open>protocol_client\<close> and \<open>protocol_owner\<close> carry a step of a wrapper to
    all its uses, up to its destructor. \<open>HdrC\<close> (\<open>include/ll/hdr_c.hpp\<close>), \<open>LinuxUring\<close>
    (\<open>linux_uring.hpp\<close>), \<open>LinuxNuma\<close> (\<open>linux_numa.hpp\<close>) and the pool of \<open>PmrArena\<close> (\<open>pmr_arena.hpp\<close>)
    interpret them: resources are released once, on every path and whatever is answered. \<open>HdrC\<close> also has
    the class of a build without the library, which answers as the other one does when
    \<open>hdr_init\<close> fails.
    The memory resource of \<open>PmrArena\<close> is such an environment too: \<open>monotonic_resource\<close> is what the
    standard promises of it, wherever it places its blocks, and the objects created over it keep
    their bytes. What libnuma's calls do to a thread is a parameter of \<open>LinuxNuma\<close> with
    \<open>numa_documented\<close> as its hypothesis.
  \<^item> \<open>CacheLine\<close>: \<open>include/ll/cache_line.hpp\<close> and the layout of the queue's members.
  \<^item> \<open>Platform\<close>: \<open>affinity.hpp\<close>, \<open>jemalloc_util.hpp\<close>, \<open>struct_pack_tick.hpp\<close> and the clocks of
    \<open>tsc_clock.hpp\<close>, with what the platform answers as arguments.
  \<^item> \<open>Examples\<close>: \<open>examples/sbe_codegen\<close>, \<open>sbe_style\<close> and \<open>kernel_bypass\<close>, end to end;
    \<open>ExamplePrograms\<close>: \<open>examples/arena\<close>, \<open>hdr\<close> and \<open>numa_uring\<close>; \<open>SmallPrograms\<close>:
    \<open>examples/struct_pack\<close>, \<open>hdr_c\<close>, \<open>tsc\<close>, \<open>industry_queues\<close>, the benchmark loops over other queues
    and \<open>tools/ide_index.cpp\<close>. Each gives what the program computes, as values.
  \<^item> \<open>Printf\<close>: \<open>%.nf\<close> of a \<open>double\<close>, and \<open>sink += k * c\<close> with and without contraction to one rounding;
    \<open>ProgramOutput\<close>: the lines \<open>examples/arena\<close>, \<open>hdr\<close>, \<open>hdr_c\<close>, \<open>memory_order\<close> and \<open>pmr\<close> print.
  \<^item> \<open>Umbrella\<close>: the macros of \<open>industry.hpp\<close> and of the headers it includes, \<open>branch.hpp\<close> and
    \<open>src/folly_compat.hpp\<close>: which configurations of the build turn on which features.
    \<open>StaticInterface\<close>: the CRTP base of \<open>branch.hpp\<close> on a store of objects with their classes: \<open>self()\<close>
    is the object its base belongs to, and calling through it is calling the object.
  \<^item> \<open>SmokeMain\<close>: \<open>src/main.cpp\<close>. The libraries are a record of functions, \<open>documented\<close> is what they
    promise, and on all that keep the promises every check passes but those of versions that are
    not installed, for every way to split the parallel sums; \<open>conforming_libs\<close> shows that the
    promises can be kept.

  Conventions. \<open>std::size_t\<close>, \<open>std::uint64_t\<close> and addresses are 64-bit words, so sums wrap around
  as in the code, and a theorem says which sums it needs not to. Signed 32-bit fields are 32-bit
  words read with \<open>sint\<close>. A throw is \<open>Inl\<close> with the exception; undefined behaviour is \<open>Inl\<close> with
  its kind, so a theorem that gives \<open>Inr\<close> also states its absence. Spans and arrays are lists of
  their elements. What belongs to a type parameter (\<open>T{}\<close>, what a move leaves behind, the bytes
  of an object) is an argument. A \<open>double\<close> is a rational number or a special value. Code of other
  libraries, and what the system or the hardware answers, is an argument too, and a hypothesis
  states what is used of its documentation. No definition uses fuel: the
  loops of the modelled code run over an array or a given number of steps; the spin loops of the
  two-thread programs are steps of a relation, and the theorems about them are about every
  reachable state and every fair execution.

  Not modelled: the constructor of \<open>PmrUnsyncPool\<close> and the functions \<open>resource()\<close>, which hand on a
  pointer; \<open>sbePositionPtr\<close> and the unions \<open>sbe_float_as_uint_u\<close>, \<open>sbe_double_as_uint_u\<close> of the
  flyweights, which nothing uses; the array of notes in \<open>affinity.hpp\<close>, a text for operators; the real
  DPDK and Onload backends, which the repository does not contain; calls of the poll interface from
  several threads; timings, which are arguments; and the sinks that keep a compiler from removing
  work, where they are not printed. Of \<open>tests\<close>, those that call third-party libraries only and the
  one of \<open>PmrUnsyncPool\<close> are left out.
\<close>

end
